(* ===== verification/Prelude.thy ===== *)
theory Prelude
  imports Main "HOL-Library.Word" "HOL-Library.List_Lexorder" "HOL-Library.Product_Lexorder"
begin

text \<open>
  What the components share: the machine types of the Rust code (\<open>u64\<close>, \<open>u8\<close>, byte strings)
  with the standard library's checked and saturating arithmetic, results as sums with their bind,
  and generic lemmas on words and lists. \<open>Vec<u8>\<close> and \<open>[u8; N]\<close> are lists of bytes, ordered
  lexicographically as in Rust; the lengths that an array type fixes are hypotheses or checks where
  the code relies on them.
\<close>

section \<open>Collections of facts\<close>

named_theorems result_simps \<open>unfolding of the result monad\<close>
named_theorems wf_intros \<open>preservation of component invariants\<close>

section \<open>Machine integers\<close>

type_synonym u8 = "8 word"
type_synonym u32 = "32 word"
type_synonym u64 = "64 word"
type_synonym bytes = "u8 list"

text \<open>\<open>u64::MAX\<close>.\<close>

definition u64_max :: u64 where
  "u64_max = - 1"

definition sat_add :: "u64 \<Rightarrow> u64 \<Rightarrow> u64" where
  "sat_add a b = (if unat a + unat b < 2 ^ 64 then a + b else u64_max)"

definition sat_sub :: "u64 \<Rightarrow> u64 \<Rightarrow> u64" where
  "sat_sub a b = (if b \<le> a then a - b else 0)"

definition checked_add :: "u64 \<Rightarrow> u64 \<Rightarrow> u64 option" where
  "checked_add a b = (if unat a + unat b < 2 ^ 64 then Some (a + b) else None)"

lemma u64_le_max [simp]: "x \<le> u64_max"
  by (simp add: u64_max_def)

lemma u64_unat_lt: "unat (x :: u64) < 2 ^ 64"
  using unsigned_less [of x] by simp

lemma unat_u64_max: "unat u64_max = 2 ^ 64 - 1"
  by (simp add: u64_max_def unsigned_minus_1_eq_mask mask_eq_exp_minus_1)

lemma unat_succ_less: "(a :: u64) < b \<Longrightarrow> unat (a + 1) = Suc (unat a)"
proof -
  assume "a < b"
  then have "unat a + 1 < 2 ^ 64"
    using u64_unat_lt [of b] by (simp add: word_less_nat_alt)
  then show ?thesis
    by (simp add: unat_word_ariths)
qed

lemma succ_le_iff: "(a :: u64) < b \<Longrightarrow> (a + 1 \<le> x) = (a < x)"
  by (simp add: word_le_nat_alt [of "a + 1"] unat_succ_less word_less_nat_alt [of a x] Suc_le_eq)

lemma unat_pred_greater: "(a :: u64) < b \<Longrightarrow> Suc (unat (b - 1)) = unat b"
proof -
  assume "a < b"
  then have "b \<noteq> 0" by auto
  then show ?thesis
    by (simp add: unat_minus_one unat_gt_0)
qed

lemma le_pred_iff: "(a :: u64) < b \<Longrightarrow> (x \<le> b - 1) = (x < b)"
  using unat_pred_greater [of a b]
  by (simp add: word_le_nat_alt [of x] word_less_nat_alt [of x] less_Suc_eq_le [symmetric])

lemma checked_add_one: "checked_add x 1 = (if x = u64_max then None else Some (x + 1))"
proof (cases "x = u64_max")
  case True
  then show ?thesis by (simp add: checked_add_def unat_u64_max)
next
  case False
  then have "x < u64_max"
    using u64_le_max [of x] by (simp add: order.not_eq_order_implies_strict)
  then have "unat x < 2 ^ 64 - 1"
    by (simp add: word_less_nat_alt unat_u64_max)
  then show ?thesis using False by (simp add: checked_add_def)
qed

text \<open>Adjacent or overlapping: the test of \<open>first <= prev.1.saturating_add(1)\<close>.\<close>

lemma le_sat_add_one: "(f \<le> sat_add l 1) = (unat f \<le> Suc (unat l))"
proof (cases "unat l + 1 < 2 ^ 64")
  case True
  then have "unat (l + 1) = Suc (unat l)"
    by (simp add: unat_word_ariths)
  then show ?thesis using True by (simp add: sat_add_def word_le_nat_alt)
next
  case False
  then show ?thesis using u64_unat_lt [of f] by (simp add: sat_add_def)
qed

section \<open>Results\<close>

text \<open>\<open>Result<T, E>\<close>: \<open>Inl\<close> is the error. \<open>ensure\<close> and \<open>?\<close> are the bind.\<close>

definition rbind :: "'e + 'a \<Rightarrow> ('a \<Rightarrow> 'e + 'b) \<Rightarrow> 'e + 'b" where
  "rbind r f = (case r of Inl e \<Rightarrow> Inl e | Inr x \<Rightarrow> f x)"

definition ensure :: "bool \<Rightarrow> 'e \<Rightarrow> 'e + unit" where
  "ensure b e = (if b then Inr () else Inl e)"

definition context_of :: "'a option \<Rightarrow> 'e \<Rightarrow> 'e + 'a" where
  "context_of x e = (case x of None \<Rightarrow> Inl e | Some y \<Rightarrow> Inr y)"

lemma rbind_Inr_iff [result_simps]: "rbind r f = Inr y \<longleftrightarrow> (\<exists>x. r = Inr x \<and> f x = Inr y)"
  by (cases r) (auto simp: rbind_def)

lemma rbind_Inl [result_simps, simp]: "rbind (Inl e) f = Inl e"
  by (simp add: rbind_def)

lemma rbind_Inr [result_simps, simp]: "rbind (Inr x) f = f x"
  by (simp add: rbind_def)

lemma ensure_Inr_iff [result_simps]: "ensure b e = Inr u \<longleftrightarrow> b"
  by (simp add: ensure_def)

lemma ensure_True [simp]: "ensure True e = Inr ()"
  by (simp add: ensure_def)

lemma ensure_False [simp]: "ensure False e = Inl e"
  by (simp add: ensure_def)

lemma context_of_Inr_iff [result_simps]: "context_of x e = Inr y \<longleftrightarrow> x = Some y"
  by (cases x) (auto simp: context_of_def)

lemma context_of_simps [simp]: "context_of None e = Inl e" "context_of (Some y) e = Inr y"
  by (simp_all add: context_of_def)

definition map_error :: "('e \<Rightarrow> 'f) \<Rightarrow> 'e + 'a \<Rightarrow> 'f + 'a" where
  "map_error f r = (case r of Inl e \<Rightarrow> Inl (f e) | Inr x \<Rightarrow> Inr x)"

lemma map_error_simps [simp]: "map_error f (Inl e) = Inl (f e)" "map_error f (Inr x) = Inr x"
  by (simp_all add: map_error_def)

lemma map_error_Inr_iff [result_simps, simp]: "map_error f r = Inr x \<longleftrightarrow> r = Inr x"
  by (cases r) simp_all

text \<open>A check of every element, in order: the first error.\<close>

fun each :: "('a \<Rightarrow> 'e + unit) \<Rightarrow> 'a list \<Rightarrow> 'e + unit" where
  "each f [] = Inr ()"
| "each f (x # xs) = rbind (f x) (\<lambda>_. each f xs)"

lemma each_Inr_iff [result_simps]: "each f xs = Inr u \<longleftrightarrow> (\<forall>x\<in>set xs. f x = Inr ())"
  by (induction xs) (auto simp: rbind_Inr_iff)

section \<open>Lists\<close>

lemma sorted_wrt_snoc:
  "sorted_wrt R (xs @ [x]) \<longleftrightarrow> sorted_wrt R xs \<and> (\<forall>y\<in>set xs. R y x)"
  by (simp add: sorted_wrt_append)

lemma find_Some_iff2: "List.find P xs = Some x \<Longrightarrow> x \<in> set xs \<and> P x"
  by (induction xs) (auto split: if_splits)

lemma find_map_None_iff: "List.find P xs = None \<longleftrightarrow> (\<forall>x\<in>set xs. \<not> P x)"
  by (induction xs) auto

lemma list_ex_map_filter:
  "list_ex P (List.map_filter f xs) \<longleftrightarrow> (\<exists>x\<in>set xs. case f x of None \<Rightarrow> False | Some y \<Rightarrow> P y)"
  by (induction xs) (auto simp: List.map_filter_def split: option.split)

lemma map_filter_in: "y \<in> set (List.map_filter f xs) \<longleftrightarrow> (\<exists>x\<in>set xs. f x = Some y)"
  by (force simp: List.map_filter_def)

lemma all2_in:
  assumes "list_all2 R as bs" "b \<in> set bs"
  obtains a where "a \<in> set as" "R a b"
  using assms by (metis in_set_conv_nth list_all2_conv_all_nth)

end
