(* ===== verification/Ranges.thy ===== *)
theory Ranges
  imports Prelude
begin

text \<open>
  Sets of log positions as inclusive ranges (\<open>crates/proto/src/ranges.rs\<close>). The operations are the
  code's: \<open>from_vec\<close> sorts and merges, \<open>intersection\<close> and \<open>difference\<close> are its two-pointer loops
  (an index that only grows is the suffix of the list it points at), \<open>contains\<close> is its
  \<open>partition_point\<close>. The interface they promise to the components above is the locale
  \<open>position_set\<close>; its interpretation shows that every operation computes the set operation of its
  name and keeps the ranges sorted, disjoint and non-adjacent.
\<close>

section \<open>The operations\<close>

type_synonym ranges = "(u64 \<times> u64) list"

definition push_range :: "ranges \<Rightarrow> u64 \<times> u64 \<Rightarrow> ranges" where
  "push_range out r =
     (if out \<noteq> [] \<and> fst r \<le> sat_add (snd (last out)) 1
      then butlast out @ [(fst (last out), max (snd (last out)) (snd r))]
      else out @ [r])"

definition from_vec :: "(u64 \<times> u64) list \<Rightarrow> ranges" where
  "from_vec rs = foldl push_range [] (sort (filter (\<lambda>(first, lst). first \<le> lst) rs))"

definition range_of :: "u64 \<Rightarrow> u64 \<Rightarrow> ranges" where
  "range_of first lst = from_vec [(first, lst)]"

definition is_empty :: "ranges \<Rightarrow> bool" where
  "is_empty rs = (rs = [])"

definition first_of :: "ranges \<Rightarrow> u64 option" where
  "first_of rs = (case rs of [] \<Rightarrow> None | (first, _) # _ \<Rightarrow> Some first)"

definition last_of :: "ranges \<Rightarrow> u64 option" where
  "last_of rs = (if rs = [] then None else Some (snd (last rs)))"

definition len :: "ranges \<Rightarrow> u64" where
  "len rs = sum_list (map (\<lambda>(first, lst). lst - first + 1) rs)"

definition contains :: "ranges \<Rightarrow> u64 \<Rightarrow> bool" where
  "contains rs position =
     (let i = length (takeWhile (\<lambda>(_, lst). lst < position) rs)
      in i < length rs \<and> fst (rs ! i) \<le> position)"

definition positions :: "u64 \<Rightarrow> u64 \<Rightarrow> u64 list" where
  "positions first lst = map word_of_nat [unat first..<Suc (unat lst)]"

definition iter :: "ranges \<Rightarrow> u64 list" where
  "iter rs = concat (map (\<lambda>(first, lst). positions first lst) rs)"

definition union_of :: "ranges \<Rightarrow> ranges \<Rightarrow> ranges" where
  "union_of a b = from_vec (a @ b)"

fun intersection :: "ranges \<Rightarrow> ranges \<Rightarrow> ranges" where
  "intersection ((a0, a1) # as) ((b0, b1) # bs) =
     (if max a0 b0 \<le> min a1 b1 then [(max a0 b0, min a1 b1)] else []) @
     (if a1 < b1 then intersection as ((b0, b1) # bs) else intersection ((a0, a1) # as) bs)"
| "intersection _ _ = []"

text \<open>
  The inner loop of \<open>difference\<close>, for one range that ends at \<open>lst\<close>: what it pushes, what is left of
  the range (\<open>from\<close>), and the ranges of \<open>other\<close> from its index \<open>j\<close> on.
\<close>

fun difference_inner :: "u64 option \<Rightarrow> u64 \<Rightarrow> ranges \<Rightarrow> ranges \<times> u64 option \<times> ranges" where
  "difference_inner (Some f) lst ((b0, b1) # bs) =
     (if b1 < f then difference_inner (Some f) lst bs
      else if b0 > lst then ([], Some f, (b0, b1) # bs)
      else
        (let out = (if b0 > f then [(f, b0 - 1)] else []);
             from = (case checked_add b1 1 of None \<Rightarrow> None
                     | Some next \<Rightarrow> if next \<le> lst then Some next else None)
         in if b1 > lst then (out, from, (b0, b1) # bs)
            else (case difference_inner from lst bs of (out', from', rest) \<Rightarrow> (out @ out', from', rest))))"
| "difference_inner from lst bs = ([], from, bs)"

fun difference :: "ranges \<Rightarrow> ranges \<Rightarrow> ranges" where
  "difference [] bs = []"
| "difference ((first, lst) # as) bs =
     (case difference_inner (Some first) lst bs of (out, from, rest) \<Rightarrow>
        out @ (case from of None \<Rightarrow> [] | Some f \<Rightarrow> [(f, lst)]) @ difference as rest)"

definition insert_at :: "u64 \<Rightarrow> ranges \<Rightarrow> ranges" where
  "insert_at position rs = union_of rs (range_of position position)"

definition remove_at :: "u64 \<Rightarrow> ranges \<Rightarrow> ranges" where
  "remove_at position rs = difference rs (range_of position position)"

definition through :: "ranges \<Rightarrow> u64 \<Rightarrow> ranges" where
  "through rs lst = intersection rs (range_of 0 lst)"

definition from_iter :: "u64 list \<Rightarrow> ranges" where
  "from_iter ps = from_vec (map (\<lambda>p. (p, p)) ps)"

text \<open>A peer's JSON decodes to any list of pairs; \<open>deserialize\<close> normalizes it.\<close>

definition deserialize :: "(u64 \<times> u64) list \<Rightarrow> ranges" where
  "deserialize rs = from_vec rs"

section \<open>Meaning and invariant\<close>

definition range_set :: "ranges \<Rightarrow> u64 set" where
  "range_set rs = (\<Union>(first, lst)\<in>set rs. {first..lst})"

text \<open>\<open>before r s\<close>: \<open>r\<close> ends at least two positions before \<open>s\<close> begins.\<close>

definition before :: "u64 \<times> u64 \<Rightarrow> u64 \<times> u64 \<Rightarrow> bool" where
  "before r s \<longleftrightarrow> Suc (unat (snd r)) < unat (fst s)"

definition wf_ranges :: "ranges \<Rightarrow> bool" where
  "wf_ranges rs \<longleftrightarrow> (\<forall>r\<in>set rs. fst r \<le> snd r) \<and> sorted_wrt before rs"

lemma range_set_simps [simp]:
  "range_set [] = {}"
  "range_set ((f, l) # rs) = {f..l} \<union> range_set rs"
  "range_set (rs @ rs') = range_set rs \<union> range_set rs'"
  by (auto simp: range_set_def)

lemma range_set_Cons: "range_set (r # rs) = {fst r..snd r} \<union> range_set rs"
  by (cases r) simp

lemma range_set_iff: "x \<in> range_set rs \<longleftrightarrow> (\<exists>r\<in>set rs. fst r \<le> x \<and> x \<le> snd r)"
  by (induction rs) (auto simp: range_set_Cons)

lemma wf_simps [simp]:
  "wf_ranges []"
  "wf_ranges (r # rs) \<longleftrightarrow> fst r \<le> snd r \<and> (\<forall>s\<in>set rs. before r s) \<and> wf_ranges rs"
  by (auto simp: wf_ranges_def)

lemma wf_append:
  "wf_ranges (rs @ rs') \<longleftrightarrow> wf_ranges rs \<and> wf_ranges rs' \<and> (\<forall>r\<in>set rs. \<forall>s\<in>set rs'. before r s)"
  by (auto simp: wf_ranges_def sorted_wrt_append)

lemma before_less: "before r s \<Longrightarrow> snd r < fst s"
  by (simp add: before_def word_less_nat_alt)

lemma before_set: "\<forall>s\<in>set rs. before r s \<Longrightarrow> x \<in> range_set rs \<Longrightarrow> snd r < x"
  by (auto simp: range_set_iff dest!: bspec before_less)

lemma wf_tail_greater: "wf_ranges (r # rs) \<Longrightarrow> x \<in> range_set rs \<Longrightarrow> snd r < x"
  by (auto intro: before_set)

section \<open>Normalization\<close>

lemma merge_ranges:
  assumes "f0 \<le> f" "f0 \<le> l0" "unat f \<le> Suc (unat l0)" "f \<le> l"
  shows "{f0..max l0 l} = {f0..l0} \<union> {f..(l :: u64)}"
proof -
  have "f \<le> x" if "\<not> x \<le> l0" for x
    using that assms(3) by (simp add: word_le_nat_alt)
  then have "\<And>x. x \<in> {f0..max l0 l} \<longleftrightarrow> x \<in> {f0..l0} \<union> {f..l}"
    using assms by (fastforce simp: max_def split: if_splits)
  then show ?thesis by blast
qed

lemma push_range_correct:
  assumes "wf_ranges out" "f \<le> l" "\<forall>s\<in>set out. fst s \<le> f"
  shows "wf_ranges (push_range out (f, l)) \<and> range_set (push_range out (f, l)) = range_set out \<union> {f..l}
    \<and> (\<forall>s\<in>set (push_range out (f, l)). fst s \<le> f)"
proof (cases out rule: rev_cases)
  case Nil
  then show ?thesis using assms(2) by (simp add: push_range_def)
next
  case (snoc xs r)
  obtain f0 l0 where r: "r = (f0, l0)" by (cases r)
  have f0: "f0 \<le> f" "f0 \<le> l0" using assms(1,3) snoc r by (auto simp: wf_append)
  show ?thesis
  proof (cases "unat f \<le> Suc (unat l0)")
    case True
    then have out': "push_range out (f, l) = xs @ [(f0, max l0 l)]"
      using snoc r by (simp add: push_range_def le_sat_add_one)
    have "wf_ranges (xs @ [(f0, max l0 l)])"
      using assms(1) snoc r by (auto simp: wf_append before_def max_def)
    then show ?thesis
      using out' snoc r merge_ranges [OF f0 True assms(2)] assms(3) by auto
  next
    case False
    then have out': "push_range out (f, l) = out @ [(f, l)]"
      using snoc r by (simp add: push_range_def le_sat_add_one)
    have "\<forall>s\<in>set out. before s (f, l)"
      using assms(1) snoc r False f0
      by (auto simp: wf_append before_def word_le_nat_alt)
    then show ?thesis
      using out' assms by (auto simp: wf_append)
  qed
qed

lemma foldl_push_range:
  assumes "wf_ranges out" "\<forall>r\<in>set rs. fst r \<le> snd r" "sorted (map fst rs)"
    "\<forall>s\<in>set out. \<forall>r\<in>set rs. fst s \<le> fst r"
  shows "wf_ranges (foldl push_range out rs) \<and> range_set (foldl push_range out rs) = range_set out \<union> range_set rs"
  using assms
proof (induction rs arbitrary: out)
  case Nil
  then show ?case by simp
next
  case (Cons r rs)
  obtain f l where r: "r = (f, l)" by (cases r)
  have step: "wf_ranges (push_range out (f, l)) \<and> range_set (push_range out (f, l)) = range_set out \<union> {f..l}
      \<and> (\<forall>s\<in>set (push_range out (f, l)). fst s \<le> f)"
    using Cons.prems r by (intro push_range_correct) auto
  have "wf_ranges (foldl push_range (push_range out (f, l)) rs) \<and>
      range_set (foldl push_range (push_range out (f, l)) rs) = range_set (push_range out (f, l)) \<union> range_set rs"
    using Cons.prems r step by (intro Cons.IH) (auto intro: order_trans)
  then show ?case using step r by auto
qed

lemma prod_le_fst: "(r :: u64 \<times> u64) \<le> s \<Longrightarrow> fst r \<le> fst s"
  unfolding less_eq_prod_def by (blast intro: less_imp_le)

lemma sorted_map_fst: "sorted rs \<Longrightarrow> sorted (map fst (rs :: ranges))"
  by (induction rs) (simp_all add: prod_le_fst)

lemma range_set_cong: "set rs = set rs' \<Longrightarrow> range_set rs = range_set rs'"
  by (simp add: range_set_def)

lemma range_set_filter_nonempty: "range_set (filter (\<lambda>(f, l). f \<le> l) rs) = range_set rs"
proof (induction rs)
  case (Cons r rs)
  show ?case
    using Cons.IH by (cases "fst r \<le> snd r") (simp_all add: range_set_Cons case_prod_beta)
qed simp

lemma from_vec_correct: "wf_ranges (from_vec rs) \<and> range_set (from_vec rs) = range_set rs"
proof -
  let ?s = "sort (filter (\<lambda>(f, l). f \<le> l) rs)"
  have "wf_ranges (foldl push_range [] ?s) \<and> range_set (foldl push_range [] ?s) = range_set [] \<union> range_set ?s"
    by (intro foldl_push_range) (auto intro: sorted_map_fst)
  moreover have "range_set ?s = range_set rs"
    using range_set_filter_nonempty [of rs] range_set_cong [of ?s "filter (\<lambda>(f, l). f \<le> l) rs"] by simp
  ultimately show ?thesis by (simp add: from_vec_def)
qed

lemmas wf_from_vec [simp, wf_intros] = from_vec_correct [THEN conjunct1]
lemmas range_set_from_vec [simp] = from_vec_correct [THEN conjunct2]

section \<open>Set operations\<close>

lemma wf_range_of [simp, wf_intros]: "wf_ranges (range_of a b)"
  by (simp add: range_of_def)

lemma range_set_range_of [simp]: "range_set (range_of a b) = {a..b}"
  by (simp add: range_of_def)

lemma wf_union_of [simp, wf_intros]: "wf_ranges (union_of a b)"
  by (simp add: union_of_def)

lemma range_set_union_of [simp]: "range_set (union_of a b) = range_set a \<union> range_set b"
  by (simp add: union_of_def)

lemma range_set_from_iter [simp]: "range_set (from_iter ps) = set ps"
proof -
  have "range_set (map (\<lambda>p. (p, p)) ps) = set ps"
    by (induction ps) auto
  then show ?thesis by (simp add: from_iter_def)
qed

lemma wf_from_iter [simp, wf_intros]: "wf_ranges (from_iter ps)"
  by (simp add: from_iter_def)

lemma range_set_empty_iff: "wf_ranges rs \<Longrightarrow> range_set rs = {} \<longleftrightarrow> rs = []"
  by (cases rs) (auto simp: range_set_Cons)

lemma is_empty_iff: "wf_ranges rs \<Longrightarrow> is_empty rs \<longleftrightarrow> range_set rs = {}"
  by (simp add: is_empty_def range_set_empty_iff)

lemma intersection_fst:
  "r \<in> set (intersection as bs) \<Longrightarrow> (\<exists>a\<in>set as. fst a \<le> fst r) \<and> (\<exists>b\<in>set bs. fst b \<le> fst r)"
  by (induction as bs rule: intersection.induct) (auto split: if_splits)

lemma range_set_intersection:
  "wf_ranges as \<Longrightarrow> wf_ranges bs \<Longrightarrow> range_set (intersection as bs) = range_set as \<inter> range_set bs"
proof (induction as bs rule: intersection.induct)
  case (1 a0 a1 as b0 b1 bs)
  have hd: "range_set (if max a0 b0 \<le> min a1 b1 then [(max a0 b0, min a1 b1)] else []) = {a0..a1} \<inter> {b0..b1}"
    by auto
  show ?case
  proof (cases "a1 < b1")
    case True
    have "{a0..a1} \<inter> range_set bs = {}"
      using wf_tail_greater [OF "1.prems"(2)] True by fastforce
    then show ?thesis using 1 True hd by auto
  next
    case False
    have "{b0..b1} \<inter> range_set as = {}"
      using wf_tail_greater [OF "1.prems"(1)] False by fastforce
    then show ?thesis using 1 False hd by auto
  qed
qed auto

lemma wf_intersection [wf_intros]: "wf_ranges as \<Longrightarrow> wf_ranges bs \<Longrightarrow> wf_ranges (intersection as bs)"
proof (induction as bs rule: intersection.induct)
  case (1 a0 a1 as b0 b1 bs)
  let ?hd = "if max a0 b0 \<le> min a1 b1 then [(max a0 b0, min a1 b1)] else []"
  show ?case
  proof (cases "a1 < b1")
    case True
    have "before (max a0 b0, min a1 b1) r" if "r \<in> set (intersection as ((b0, b1) # bs))" for r
      using intersection_fst [OF that] "1.prems"(1) True
      by (fastforce simp: before_def word_le_nat_alt min_def)
    then show ?thesis using 1 True by (auto simp: wf_append)
  next
    case False
    have "before (max a0 b0, min a1 b1) r" if "r \<in> set (intersection ((a0, a1) # as) bs)" for r
      using intersection_fst [OF that] "1.prems"(2) False
      by (fastforce simp: before_def word_le_nat_alt min_def)
    then show ?thesis using 1 False by (auto simp: wf_append)
  qed
qed auto

text \<open>What is left of a range that ends at \<open>l\<close> once the inner loop stopped at \<open>from\<close>.\<close>

definition leftover :: "u64 option \<Rightarrow> u64 \<Rightarrow> ranges" where
  "leftover from l = (case from of None \<Rightarrow> [] | Some f \<Rightarrow> [(f, l)])"

lemma leftover_simps [simp]: "leftover None l = []" "leftover (Some f) l = [(f, l)]"
  by (simp_all add: leftover_def)

lemma next_after:
  "(case checked_add b 1 of None \<Rightarrow> None | Some n \<Rightarrow> if n \<le> l then Some n else None) =
     (if b < l then Some (b + 1) else None)"
proof (cases "b = u64_max")
  case True
  then show ?thesis
    using leD [OF u64_le_max [of l]] by (simp add: checked_add_one)
next
  case False
  then have "b < u64_max" by (simp add: order.not_eq_order_implies_strict)
  then show ?thesis using False by (simp add: checked_add_one succ_le_iff)
qed

definition inner_spec :: "u64 option \<Rightarrow> u64 \<Rightarrow> ranges \<Rightarrow> ranges \<Rightarrow> u64 option \<Rightarrow> ranges \<Rightarrow> bool" where
  "inner_spec from l bs out from' rest \<longleftrightarrow>
     range_set (out @ leftover from' l) = range_set (leftover from l) - range_set bs \<and>
     wf_ranges (out @ leftover from' l) \<and>
     (\<forall>r\<in>set (out @ leftover from' l). (\<exists>f. from = Some f \<and> f \<le> fst r) \<and> snd r \<le> l) \<and>
     wf_ranges rest \<and> (\<forall>x>l. x \<in> range_set rest \<longleftrightarrow> x \<in> range_set bs)"

lemma inner_spec_elem:
  "inner_spec from l bs out from' rest \<Longrightarrow> r \<in> set (out @ leftover from' l) \<Longrightarrow>
     (\<exists>f. from = Some f \<and> f \<le> fst r) \<and> snd r \<le> l"
  unfolding inner_spec_def by blast

lemma inner_spec_skip:
  assumes "wf_ranges ((b0, b1) # bs)" "b1 < f" "f \<le> l" "inner_spec (Some f) l bs out from' rest"
  shows "inner_spec (Some f) l ((b0, b1) # bs) out from' rest"
proof -
  have "{f..l} \<inter> {b0..b1} = {}" using assms(2) by auto
  moreover have "x \<notin> {b0..b1}" if "x > l" for x using that assms(2,3) by auto
  ultimately show ?thesis using assms(4) by (auto simp: inner_spec_def)
qed

lemma inner_spec_past:
  assumes "wf_ranges ((b0, b1) # bs)" "b0 > l" "f \<le> l"
  shows "inner_spec (Some f) l ((b0, b1) # bs) [] (Some f) ((b0, b1) # bs)"
proof -
  have "{f..l} \<inter> range_set ((b0, b1) # bs) = {}"
    using assms wf_tail_greater [OF assms(1)] by fastforce
  then have "{f..l} - range_set ((b0, b1) # bs) = {f..l}" by blast
  then show ?thesis using assms by (simp add: inner_spec_def)
qed

text \<open>The part of the range before the hole that \<open>(b0, b1)\<close> cuts.\<close>

definition before_hole :: "u64 \<Rightarrow> u64 \<Rightarrow> ranges" where
  "before_hole f b0 = (if b0 > f then [(f, b0 - 1)] else [])"

lemma range_set_before_hole: "range_set (before_hole f b0) = {f..<b0}"
  by (auto simp: before_hole_def le_pred_iff [of f b0])

lemma before_hole_elems: "r \<in> set (before_hole f b0) \<Longrightarrow> fst r = f \<and> snd r < b0 \<and> f \<le> snd r \<and> Suc (unat (snd r)) = unat b0"
  by (auto simp: before_hole_def le_pred_iff [of f b0] unat_pred_greater [of f b0] split: if_splits
      intro!: le_pred_iff [THEN iffD1, OF _ order_refl])

lemma wf_before_hole: "wf_ranges (before_hole f b0)"
  by (auto simp: before_hole_def le_pred_iff [of f b0])

lemma inner_spec_last:
  assumes "wf_ranges ((b0, b1) # bs)" "\<not> b1 < f" "\<not> b0 > l" "b1 > l" "f \<le> l"
  shows "inner_spec (Some f) l ((b0, b1) # bs) (before_hole f b0) None ((b0, b1) # bs)"
proof -
  have "{f..<b0} = {f..l} - range_set ((b0, b1) # bs)"
    using assms wf_tail_greater [OF assms(1)] by fastforce
  then show ?thesis
    using assms(1,3,5) before_hole_elems [of _ f b0]
    by (fastforce simp: inner_spec_def range_set_before_hole wf_before_hole)
qed

lemma inner_spec_hole:
  assumes wf: "wf_ranges ((b0, b1) # bs)" and f: "\<not> b1 < f" "\<not> b0 > l" "\<not> b1 > l" "f \<le> l"
    and inner: "inner_spec (if b1 < l then Some (b1 + 1) else None) l bs out from' rest"
  shows "inner_spec (Some f) l ((b0, b1) # bs) (before_hole f b0 @ out) from' rest"
proof -
  let ?o = "out @ leftover from' l"
  have past: "b1 < x" if "x \<in> range_set bs" for x
    using wf_tail_greater [OF wf that] by simp
  have rest: "range_set (leftover (if b1 < l then Some (b1 + 1) else None) l) = {b1<..l}"
    by (cases "b1 < l") (simp_all add: set_eq_iff succ_le_iff)
  have hole: "({f..<b0} \<union> ({b1<..l} - range_set bs)) = {f..l} - range_set ((b0, b1) # bs)"
    using wf f by (auto simp: not_less dest!: past)
  have after: "b1 < l \<and> b1 + 1 \<le> fst r \<and> snd r \<le> l" if "r \<in> set ?o" for r
    using inner_spec_elem [OF inner that] by (auto split: if_splits)
  have ord: "before r r'" if "r \<in> set (before_hole f b0)" "r' \<in> set ?o" for r r'
    using before_hole_elems [OF that(1)] after [OF that(2)] wf unat_succ_less [of b1 l]
    by (auto simp: before_def word_le_nat_alt)
  have "f \<le> fst r" if "r \<in> set ?o" for r
    using after [OF that] f(1) succ_le_iff [of b1 l "fst r"] by auto
  moreover have "wf_ranges (before_hole f b0 @ ?o)"
    using inner ord by (auto simp: inner_spec_def wf_append wf_before_hole)
  moreover have "x \<in> range_set ((b0, b1) # bs) \<longleftrightarrow> x \<in> range_set bs" if "x > l" for x using that f by auto
  moreover have "f \<le> fst r \<and> snd r \<le> l" if "r \<in> set (before_hole f b0)" for r
    using before_hole_elems [OF that] f(2) by auto
  moreover have "range_set (before_hole f b0 @ ?o) = {f..l} - range_set ((b0, b1) # bs)"
    using inner hole rest unfolding inner_spec_def by (simp add: range_set_before_hole Un_assoc)
  ultimately show ?thesis
    using inner after unfolding inner_spec_def by (simp add: ball_Un del: range_set_Cons)
qed

lemma difference_inner_spec:
  "wf_ranges bs \<Longrightarrow> \<forall>f. from = Some f \<longrightarrow> f \<le> l \<Longrightarrow> difference_inner from l bs = (out, from', rest) \<Longrightarrow>
     inner_spec from l bs out from' rest"
proof (induction "from" l bs arbitrary: out from' rest rule: difference_inner.induct)
  case (1 f l b0 b1 bs)
  consider "b1 < f" | "\<not> b1 < f" "b0 > l" | "\<not> b1 < f" "\<not> b0 > l" "b1 > l" | "\<not> b1 < f" "\<not> b0 > l" "\<not> b1 > l"
    by blast
  then show ?case
  proof cases
    case 1
    then show ?thesis using "1.IH"(1) "1.prems" by (auto intro: inner_spec_skip)
  next
    case 2
    then show ?thesis using "1.prems" by (auto intro: inner_spec_past)
  next
    case 3
    then have "\<not> b1 < l" by auto
    then show ?thesis
      using 3 "1.prems" inner_spec_last [OF "1.prems"(1) 3]
      by (auto simp: Let_def next_after before_hole_def)
  next
    case 4
    let ?from = "if b1 < l then Some (b1 + 1) else None"
    obtain o' f' r' where in': "difference_inner ?from l bs = (o', f', r')"
      by (cases "difference_inner ?from l bs")
    have "\<forall>g. ?from = Some g \<longrightarrow> g \<le> l" by (auto simp: succ_le_iff)
    then have "inner_spec ?from l bs o' f' r'"
      using "1.IH"(2) [OF 4(1,2) refl refl 4(3)] "1.prems" in' by (simp add: next_after)
    then show ?thesis
      using 4 in' "1.prems" inner_spec_hole [of b0 b1 bs f l o' f' r']
      by (simp add: Let_def next_after before_hole_def [symmetric] split: if_splits)
  qed
qed (auto simp: inner_spec_def leftover_def split: option.splits)

lemma difference_spec:
  "wf_ranges as \<Longrightarrow> wf_ranges bs \<Longrightarrow>
     wf_ranges (difference as bs) \<and> range_set (difference as bs) = range_set as - range_set bs \<and>
     (\<forall>r\<in>set (difference as bs). \<exists>a\<in>set as. fst a \<le> fst r)"
proof (induction as bs rule: difference.induct)
  case (2 f l as bs)
  obtain out from' rest where inn: "difference_inner (Some f) l bs = (out, from', rest)"
    by (cases "difference_inner (Some f) l bs")
  have spec: "inner_spec (Some f) l bs out from' rest"
    using difference_inner_spec [OF "2.prems"(2) _ inn] "2.prems"(1) by simp
  have IH: "wf_ranges (difference as rest)" "range_set (difference as rest) = range_set as - range_set rest"
    "\<forall>r\<in>set (difference as rest). \<exists>a\<in>set as. fst a \<le> fst r"
    using "2.IH" [OF inn [symmetric] refl] "2.prems" spec by (auto simp: inner_spec_def)
  have diff: "difference ((f, l) # as) bs = (out @ leftover from' l) @ difference as rest"
    using inn by (simp add: leftover_def)
  have "range_set as - range_set rest = range_set as - range_set bs"
    using spec wf_tail_greater [OF "2.prems"(1)] by (fastforce simp: inner_spec_def)
  moreover have "before r r'"
    if r: "r \<in> set (out @ leftover from' l)" and r': "r' \<in> set (difference as rest)" for r r'
  proof -
    obtain a where "a \<in> set as" "fst a \<le> fst r'" using IH(3) r' by blast
    then have "Suc (unat l) < unat (fst r')"
      using "2.prems"(1) by (auto simp: before_def word_le_nat_alt intro: less_le_trans)
    moreover have "snd r \<le> l" using inner_spec_elem [OF spec r] by simp
    ultimately show ?thesis by (simp add: before_def word_le_nat_alt)
  qed
  ultimately show ?case
    using spec IH unfolding diff by (auto simp: inner_spec_def wf_append)
qed simp

lemma wf_difference [wf_intros]: "wf_ranges as \<Longrightarrow> wf_ranges bs \<Longrightarrow> wf_ranges (difference as bs)"
  using difference_spec by blast

lemma range_set_difference:
  "wf_ranges as \<Longrightarrow> wf_ranges bs \<Longrightarrow> range_set (difference as bs) = range_set as - range_set bs"
  using difference_spec by blast

section \<open>Lookups\<close>

lemma contains_iff: "wf_ranges rs \<Longrightarrow> contains rs p \<longleftrightarrow> p \<in> range_set rs"
proof (induction rs)
  case (Cons r rs)
  obtain f l where r: "r = (f, l)" by (cases r)
  show ?case
  proof (cases "l < p")
    case True
    then show ?thesis using Cons r by (auto simp: contains_def Let_def)
  next
    case False
    then have "p \<notin> range_set rs"
      using wf_tail_greater [OF Cons.prems] r by auto
    then show ?thesis using False r by (auto simp: contains_def)
  qed
qed (simp add: contains_def)

lemma set_positions: "set (positions f l) = {f..l}"
proof -
  have "x \<in> word_of_nat ` {unat f..<Suc (unat l)}" if "f \<le> x" "x \<le> l" for x
    using that by (intro image_eqI [of _ _ "unat x"]) (auto simp: word_le_nat_alt)
  moreover have "f \<le> word_of_nat n \<and> word_of_nat n \<le> l" if "unat f \<le> n" "n \<le> unat l" for n
  proof -
    have "n < 2 ^ 64" using that(2) u64_unat_lt [of l] by simp
    then have "unat (word_of_nat n :: u64) = n" by (simp add: unat_of_nat)
    then show ?thesis using that by (simp add: word_le_nat_alt)
  qed
  ultimately show ?thesis
    unfolding positions_def set_map set_upt by (auto simp: less_Suc_eq_le)
qed

lemma set_iter: "set (iter rs) = range_set rs"
  by (induction rs) (auto simp: iter_def set_positions)

lemma first_of_least:
  assumes "wf_ranges rs"
  shows "first_of rs = None \<longleftrightarrow> range_set rs = {}"
    and "first_of rs = Some p \<Longrightarrow> p \<in> range_set rs \<and> (\<forall>q\<in>range_set rs. p \<le> q)"
  using assms wf_tail_greater [of "hd rs" "tl rs"]
  by (cases rs; fastforce simp: first_of_def range_set_Cons)+

lemma first_of_Some: "wf_ranges rs \<Longrightarrow> range_set rs \<noteq> {} \<Longrightarrow> \<exists>p. first_of rs = Some p"
  by (cases rs) (auto simp: first_of_def)

lemma last_of_greatest:
  assumes "wf_ranges rs" "last_of rs = Some p"
  shows "p \<in> range_set rs \<and> (\<forall>q\<in>range_set rs. q \<le> p)"
proof (cases rs rule: rev_cases)
  case Nil
  then show ?thesis using assms(2) by (simp add: last_of_def)
next
  case (snoc xs r)
  have "q \<le> snd r" if q: "q \<in> range_set xs" for q
  proof -
    obtain x where x: "x \<in> set xs" "q \<le> snd x" using q unfolding range_set_iff by blast
    then have "snd x < fst r" "fst r \<le> snd r"
      using assms(1) snoc by (auto simp: wf_append intro: before_less)
    then show ?thesis using x by simp
  qed
  then show ?thesis
    using assms snoc by (auto simp: last_of_def wf_append range_set_Cons)
qed

text \<open>The ranges of a set are unique: the derived \<open>PartialEq\<close> compares the sets.\<close>

lemma hd_range_unique:
  assumes "wf_ranges ((f, l) # as)" "wf_ranges ((f', l') # bs)"
    "range_set ((f, l) # as) = range_set ((f', l') # bs)"
  shows "f = f' \<and> \<not> l < l'"
proof -
  let ?R = "range_set ((f, l) # as)"
  have "f \<in> ?R \<and> (\<forall>q\<in>?R. f \<le> q)"
    by (rule first_of_least(2) [OF assms(1)]) (simp add: first_of_def)
  moreover have "f' \<in> ?R \<and> (\<forall>q\<in>?R. f' \<le> q)"
    unfolding assms(3) by (rule first_of_least(2) [OF assms(2)]) (simp add: first_of_def)
  ultimately have f: "f = f'" by (meson antisym)
  have False if "l < l'"
  proof -
    have "f \<le> l" using assms(1) by simp
    then have "f' \<le> l + 1" using f succ_le_iff [OF that, of "l + 1"] by simp
    then have "l + 1 \<in> range_set ((f', l') # bs)" using succ_le_iff [OF that, of l'] that by simp
    then have "l + 1 \<in> range_set ((f, l) # as)" using assms(3) by simp
    moreover have "l < l + 1" using succ_le_iff [OF that, of "l + 1"] by simp
    ultimately have "l + 1 \<in> range_set as" by auto
    then obtain r where "r \<in> set as" "fst r \<le> l + 1" unfolding range_set_iff by blast
    then show False
      using assms(1) unat_succ_less [OF that] by (auto simp: before_def word_le_nat_alt)
  qed
  then show ?thesis using f by blast
qed

lemma wf_ranges_canonical:
  "wf_ranges as \<Longrightarrow> wf_ranges bs \<Longrightarrow> range_set as = range_set bs \<Longrightarrow> as = bs"
proof (induction as arbitrary: bs)
  case Nil
  then show ?case using range_set_empty_iff by fastforce
next
  case (Cons a as)
  obtain f l where a: "a = (f, l)" by (cases a)
  obtain f' l' bs' where b: "bs = (f', l') # bs'"
    using Cons.prems range_set_empty_iff [OF Cons.prems(1)] by (cases bs) auto
  have eq: "f = f' \<and> l = l'"
    using hd_range_unique [of f l as f' l' bs'] hd_range_unique [of f' l' bs' f l as] Cons.prems a b
    by auto
  have "{f..l} \<inter> range_set as = {}" "{f..l} \<inter> range_set bs' = {}"
    using wf_tail_greater [of a as] wf_tail_greater [of "(f', l')" bs'] Cons.prems a b eq by fastforce+
  then have "range_set as = range_set bs'"
    using Cons.prems(3) a b eq by auto
  then show ?case using Cons a b eq by auto
qed

section \<open>The interface\<close>

text \<open>
  What the components above rely on: a representation of sets of positions with intervals, the set
  operations, the emptiness test and the least element.
\<close>

locale position_set =
  fixes invar :: "'r \<Rightarrow> bool"
    and elems :: "'r \<Rightarrow> 'p :: linorder set"
    and interval :: "'p \<Rightarrow> 'p \<Rightarrow> 'r"
    and un :: "'r \<Rightarrow> 'r \<Rightarrow> 'r"
    and inter :: "'r \<Rightarrow> 'r \<Rightarrow> 'r"
    and diff :: "'r \<Rightarrow> 'r \<Rightarrow> 'r"
    and none :: "'r \<Rightarrow> bool"
    and least :: "'r \<Rightarrow> 'p option"
  assumes invar_interval: "invar (interval a b)"
    and elems_interval: "elems (interval a b) = {a..b}"
    and invar_un: "invar r \<Longrightarrow> invar s \<Longrightarrow> invar (un r s)"
    and elems_un: "invar r \<Longrightarrow> invar s \<Longrightarrow> elems (un r s) = elems r \<union> elems s"
    and invar_inter: "invar r \<Longrightarrow> invar s \<Longrightarrow> invar (inter r s)"
    and elems_inter: "invar r \<Longrightarrow> invar s \<Longrightarrow> elems (inter r s) = elems r \<inter> elems s"
    and invar_diff: "invar r \<Longrightarrow> invar s \<Longrightarrow> invar (diff r s)"
    and elems_diff: "invar r \<Longrightarrow> invar s \<Longrightarrow> elems (diff r s) = elems r - elems s"
    and none_iff: "invar r \<Longrightarrow> none r \<longleftrightarrow> elems r = {}"
    and least_None: "invar r \<Longrightarrow> least r = None \<longleftrightarrow> elems r = {}"
    and least_Some: "invar r \<Longrightarrow> least r = Some p \<Longrightarrow> p \<in> elems r \<and> (\<forall>q\<in>elems r. p \<le> q)"
begin

lemma within_iff: "invar r \<Longrightarrow> none (diff (interval a b) r) \<longleftrightarrow> {a..b} \<subseteq> elems r"
  by (auto simp: none_iff invar_diff invar_interval elems_diff elems_interval)

lemma outstanding:
  assumes "invar h" "invar l"
  shows "invar (diff (diff (interval a b) h) l)"
    and "elems (diff (diff (interval a b) h) l) = {a..b} - elems h - elems l"
  using assms by (simp_all add: invar_diff invar_interval elems_diff elems_interval)

lemma least_outstanding:
  assumes "invar h" "invar l" "least (diff (diff (interval a b) h) l) = Some p"
  shows "a \<le> p \<and> p \<le> b \<and> p \<notin> elems h \<and> p \<notin> elems l"
    and "a \<le> q \<Longrightarrow> q < p \<Longrightarrow> q \<in> elems h \<union> elems l"
proof -
  let ?d = "diff (diff (interval a b) h) l"
  have p: "p \<in> elems ?d" "\<forall>q\<in>elems ?d. p \<le> q"
    using least_Some [OF outstanding(1) [OF assms(1,2)] assms(3)] by auto
  then show "a \<le> p \<and> p \<le> b \<and> p \<notin> elems h \<and> p \<notin> elems l"
    using outstanding(2) [OF assms(1,2)] by auto
  show "q \<in> elems h \<union> elems l" if "a \<le> q" "q < p"
  proof -
    have "p \<le> b" using p(1) outstanding(2) [OF assms(1,2)] by auto
    moreover have "q \<notin> elems ?d" using p(2) that(2) by (auto dest: leD)
    ultimately show ?thesis using that outstanding(2) [OF assms(1,2), of a b] by auto
  qed
qed

end

interpretation pos: position_set wf_ranges range_set range_of union_of intersection difference is_empty first_of
  by unfold_locales
    (auto simp: wf_intersection range_set_intersection wf_difference range_set_difference is_empty_iff
      first_of_least(1) dest: first_of_least(2))

section \<open>Counting and enumerating\<close>

lemma distinct_positions: "distinct (positions f l)"
proof -
  have "inj_on (word_of_nat :: nat \<Rightarrow> u64) {unat f..<Suc (unat l)}"
  proof (rule inj_on_inverseI [where g = unat])
    fix n assume "n \<in> {unat f..<Suc (unat l)}"
    then have "n < 2 ^ 64" using u64_unat_lt [of l] by simp
    then show "unat (word_of_nat n :: u64) = n" by (simp add: unat_of_nat)
  qed
  then show ?thesis unfolding positions_def distinct_map set_upt by simp
qed

lemma sorted_positions: "sorted_wrt (<) (positions f l)"
proof -
  have "sorted_wrt (\<lambda>a b. word_of_nat a < (word_of_nat b :: u64)) [unat f..<Suc (unat l)]"
  proof (rule sorted_wrt_mono_rel [of _ "(<)"])
    fix a b assume "a \<in> set [unat f..<Suc (unat l)]" "b \<in> set [unat f..<Suc (unat l)]" "a < b"
    moreover have "unat l < 2 ^ 64" by (rule u64_unat_lt)
    ultimately have "a < 2 ^ 64" "b < 2 ^ 64" by (simp_all del: upt_Suc)
    with \<open>a < b\<close> show "word_of_nat a < (word_of_nat b :: u64)" by (simp add: word_less_nat_alt unat_of_nat)
  qed (rule strict_sorted_iff [THEN iffD2], simp del: upt_Suc)
  then show ?thesis by (simp add: positions_def sorted_wrt_map del: upt_Suc)
qed

lemma sorted_iter: "wf_ranges rs \<Longrightarrow> sorted_wrt (<) (iter rs)"
proof (induction rs)
  case (Cons r rs)
  have "x < y" if "x \<in> {fst r..snd r}" "y \<in> range_set rs" for x y
    using that wf_tail_greater [OF Cons.prems, of y] by auto
  moreover have "iter (r # rs) = positions (fst r) (snd r) @ iter rs" by (simp add: iter_def case_prod_beta)
  ultimately show ?case using Cons by (simp add: sorted_wrt_append sorted_positions set_positions set_iter)
qed (simp add: iter_def)

lemma length_iter: "wf_ranges rs \<Longrightarrow> length (iter rs) = card (range_set rs)"
  using distinct_card [of "iter rs"] strict_sorted_iff [of "iter rs"] by (simp add: sorted_iter set_iter)

lemma range_set_insert_at [simp]: "range_set (insert_at p rs) = insert p (range_set rs)"
  by (auto simp: insert_at_def)

lemma wf_insert_at [simp, wf_intros]: "wf_ranges (insert_at p rs)"
  by (simp add: insert_at_def)

lemma wf_through [wf_intros]: "wf_ranges rs \<Longrightarrow> wf_ranges (through rs l)"
  by (simp add: through_def wf_intersection)

lemma range_set_through: "wf_ranges rs \<Longrightarrow> range_set (through rs l) = {p \<in> range_set rs. p \<le> l}"
  by (auto simp: through_def range_set_intersection)

lemma card_interval: "card {f..l :: u64} = Suc (unat l) - unat f"
  using distinct_card [OF distinct_positions [of f l]]
  unfolding set_positions by (simp add: positions_def del: upt_Suc)

lemma unat_len: "wf_ranges rs \<Longrightarrow> unat (len rs) = card (range_set rs) mod 2 ^ 64"
proof (induction rs)
  case (Cons r rs)
  obtain f l where r: "r = (f, l)" by (cases r)
  have disj: "{f..l} \<inter> range_set rs = {}"
    using wf_tail_greater [OF Cons.prems] r by fastforce
  have fl: "unat f \<le> unat l" using Cons.prems r by (simp add: word_le_nat_alt)
  then have "card (range_set (r # rs)) = Suc (unat l - unat f) + card (range_set rs)"
    using disj r by (simp add: card_Un_disjoint card_interval Suc_diff_le)
  moreover have "unat (len (r # rs)) = (Suc (unat l - unat f) + unat (len rs)) mod 2 ^ 64"
    using r fl by (simp add: len_def unat_word_ariths unat_sub_if' mod_simps)
  ultimately show ?case using Cons by (simp add: mod_add_right_eq del: add_Suc)
qed (simp add: len_def)

section \<open>Properties\<close>

text \<open>
  C38. Each set operation of the position sets computes the set operation of its name, and its result
  is again sorted, disjoint and non-adjacent.
\<close>

theorem set_operations_exact:
  assumes "wf_ranges a" and "wf_ranges b"
  shows "range_set (union_of a b) = range_set a \<union> range_set b \<and> wf_ranges (union_of a b) \<and>
    range_set (intersection a b) = range_set a \<inter> range_set b \<and> wf_ranges (intersection a b) \<and>
    range_set (difference a b) = range_set a - range_set b \<and> wf_ranges (difference a b) \<and>
    range_set (insert_at p a) = insert p (range_set a) \<and> wf_ranges (insert_at p a) \<and>
    range_set (remove_at p a) = range_set a - {p} \<and> wf_ranges (remove_at p a) \<and>
    range_set (through a p) = {q \<in> range_set a. q \<le> p} \<and> wf_ranges (through a p) \<and>
    (contains a p \<longleftrightarrow> p \<in> range_set a) \<and> (is_empty a \<longleftrightarrow> range_set a = {})"
  using assms
  by (auto simp: insert_at_def remove_at_def through_def wf_intersection range_set_intersection
      wf_difference range_set_difference contains_iff is_empty_iff)

theorem set_operations_exact_witness:
  "range_set (difference [(1, 5), (9, 12)] [(3, 3), (10, 20)]) =
     range_set [(1, 5), (9, 12)] - range_set [(3, 3), (10, 20)]"
proof -
  have "wf_ranges [(1, 5), (9, 12)]" and "wf_ranges [(3, 3), (10, 20)]"
    by (simp_all add: before_def)
  then show ?thesis using set_operations_exact [of "[(1, 5), (9, 12)]" "[(3, 3), (10, 20)]"] by blast
qed

text \<open>
  A peer's ranges, whatever they are, decode to a normal form of the same set, and two decoded
  values are equal exactly when they are the same set: the derived equality compares sets.
\<close>

theorem deserialize_canonical:
  "wf_ranges (deserialize rs) \<and> range_set (deserialize rs) = range_set rs \<and>
     (deserialize rs = deserialize rs' \<longleftrightarrow> range_set rs = range_set rs')"
proof -
  have "range_set (deserialize rs) = range_set rs" and "range_set (deserialize rs') = range_set rs'"
    and "wf_ranges (deserialize rs)" and "wf_ranges (deserialize rs')"
    by (simp_all add: deserialize_def)
  then show ?thesis using wf_ranges_canonical [of "deserialize rs" "deserialize rs'"] by metis
qed

text \<open>
  C40. \<open>len\<close> counts the positions modulo \<open>2 ^ 64\<close>: exactly, but for the set of all positions, which
  it counts as 0.
\<close>

theorem len_counts:
  assumes "wf_ranges rs"
  shows "unat (len rs) = card (range_set rs) mod 2 ^ 64 \<and> (range_set rs \<noteq> UNIV \<longrightarrow> unat (len rs) = card (range_set rs))"
proof -
  have "card (range_set rs) < 2 ^ 64" if "range_set rs \<noteq> UNIV"
    using psubset_card_mono [of UNIV "range_set rs"] that by (simp add: psubset_eq card_word)
  then show ?thesis using unat_len [OF assms] by auto
qed

theorem len_counts_witness: "unat (len [(1, 10), (13, 50)]) = card (range_set [(1, 10), (13, 50)]) mod 2 ^ 64"
proof -
  have "wf_ranges [(1, 10), (13, 50)]" by (simp add: before_def)
  then show ?thesis using len_counts by blast
qed

end
