(* ===== verification/Crypto.thy ===== *)
theory Crypto
  imports Prelude
begin

text \<open>
  The cryptography the code calls (the crates \<open>sha2\<close>, \<open>ed25519-dalek\<close>, \<open>p256\<close>,
  \<open>chacha20poly1305\<close>) as a parameter: a record of functions that the definitions take as their first
  argument. The record's laws are the documented behaviour the code relies on, each named, and are
  hypotheses of the theorems that need them. That a hash function collides nowhere is never a
  hypothesis: where the code relies on it, the theorem exhibits a concrete colliding pair instead.
  \<open>toy_crypto\<close> is an instance with the laws, for the witnesses.
\<close>

record crypto =
  sha256 :: "bytes \<Rightarrow> bytes"
  ed_key :: "bytes \<Rightarrow> bool"
  ed_weak :: "bytes \<Rightarrow> bool"
  ed_public :: "bytes \<Rightarrow> bytes"
  ed_sign :: "bytes \<Rightarrow> bytes \<Rightarrow> bytes"
  ed_verify :: "bytes \<Rightarrow> bytes \<Rightarrow> bytes \<Rightarrow> bool"
  p256_verify :: "bytes \<Rightarrow> bytes \<Rightarrow> bytes \<Rightarrow> bool"
  aead_seal :: "bytes \<Rightarrow> bytes \<Rightarrow> bytes \<Rightarrow> bytes"
  aead_open :: "bytes \<Rightarrow> bytes \<Rightarrow> bytes \<Rightarrow> bytes option"
  aead_seal_ad :: "bytes \<Rightarrow> bytes \<Rightarrow> bytes \<Rightarrow> bytes \<Rightarrow> bytes"
  aead_open_ad :: "bytes \<Rightarrow> bytes \<Rightarrow> bytes \<Rightarrow> bytes \<Rightarrow> bytes option"

text \<open>A digest is 32 bytes.\<close>

definition digest_law :: "crypto \<Rightarrow> bool" where
  "digest_law C \<longleftrightarrow> (\<forall>m. length (sha256 C m) = 32)"

text \<open>A signing key's verifying key parses, and verifies the 64 bytes its key signs a message with.\<close>

definition sign_law :: "crypto \<Rightarrow> bytes \<Rightarrow> bool" where
  "sign_law C sk \<longleftrightarrow> ed_key C (ed_public C sk) \<and> length (ed_public C sk) = 32 \<and>
     (\<forall>m. length (ed_sign C sk m) = 64 \<and> ed_verify C (ed_public C sk) m (ed_sign C sk m))"

text \<open>What is sealed under a key and a nonce opens under both, and is 16 bytes longer.\<close>

definition aead_law :: "crypto \<Rightarrow> bool" where
  "aead_law C \<longleftrightarrow> (\<forall>key nonce plain. aead_open C key nonce (aead_seal C key nonce plain) = Some plain \<and>
     length (aead_seal C key nonce plain) = length plain + 16)"

text \<open>The same with associated data, which both sides name.\<close>

definition aead_ad_law :: "crypto \<Rightarrow> bool" where
  "aead_ad_law C \<longleftrightarrow> (\<forall>key nonce ad plain. aead_open_ad C key nonce ad (aead_seal_ad C key nonce ad plain) = Some plain \<and>
     length (aead_seal_ad C key nonce ad plain) = length plain + 16)"

definition toy_crypto :: crypto where
  "toy_crypto =
    \<lparr> sha256 = (\<lambda>m. take 32 (m @ replicate 32 0)),
      ed_key = (\<lambda>k. length k = 32),
      ed_weak = (\<lambda>k. False),
      ed_public = (\<lambda>sk. take 32 (sk @ replicate 32 0)),
      ed_sign = (\<lambda>sk m. take 64 (take 32 (sk @ replicate 32 0) @ m @ replicate 32 0)),
      ed_verify = (\<lambda>pk m s. s = take 64 (pk @ m @ replicate 32 0)),
      p256_verify = (\<lambda>pk m s. False),
      aead_seal = (\<lambda>key nonce plain. plain @ replicate 16 0),
      aead_open = (\<lambda>key nonce sealed. Some (take (length sealed - 16) sealed)),
      aead_seal_ad = (\<lambda>key nonce ad plain. plain @ replicate 16 0),
      aead_open_ad = (\<lambda>key nonce ad sealed. Some (take (length sealed - 16) sealed)) \<rparr>"

lemma toy_digest_law: "digest_law toy_crypto"
  by (auto simp: digest_law_def toy_crypto_def min_def)

lemma toy_sign_law: "sign_law toy_crypto sk"
  by (auto simp: sign_law_def toy_crypto_def min_def)

lemma toy_aead_law: "aead_law toy_crypto"
  by (simp add: aead_law_def toy_crypto_def)

lemma toy_aead_ad_law: "aead_ad_law toy_crypto"
  by (simp add: aead_ad_law_def toy_crypto_def)

end
