(* ===== verification/Wire.thy ===== *)
theory Wire
  imports Crypto
begin

text \<open>
  The byte formats: the entries of a group's log and what their signatures cover
  (\<open>crates/proto/src/entry.rs\<close>), the length-prefixed frames of every stream
  (\<open>crates/proto/src/frame.rs\<close>), and the limits, bounded decoding and refusals of the membership
  routes (\<open>crates/proto/src/membership.rs\<close>). \<open>serde_json\<close> and \<open>base64\<close> are parameters: \<open>to_vec\<close>,
  \<open>from_slice\<close>, \<open>encode64\<close>, \<open>decode64\<close>. A stream is the bytes still to come, then its end.
\<close>

section \<open>Bytes\<close>

text \<open>The bytes of a string literal of the source.\<close>

definition lit :: "string \<Rightarrow> bytes" where
  "lit s = map of_char s"

lemma length_lit [simp]: "length (lit s) = length s"
  by (simp add: lit_def)

text \<open>\<open>to_be_bytes\<close> and \<open>from_be_bytes\<close> at \<open>k\<close> bytes; a larger number is cut to its low bytes, as by \<open>as u32\<close>.\<close>

primrec to_be :: "nat \<Rightarrow> nat \<Rightarrow> bytes" where
  "to_be 0 n = []"
| "to_be (Suc k) n = to_be k (n div 256) @ [word_of_nat n]"

definition from_be :: "bytes \<Rightarrow> nat" where
  "from_be bs = foldl (\<lambda>n b. n * 256 + unat b) 0 bs"

lemma length_to_be [simp]: "length (to_be k n) = k"
  by (induction k arbitrary: n) simp_all

lemma from_be_snoc [simp]: "from_be (bs @ [b]) = from_be bs * 256 + unat b"
  by (simp add: from_be_def)

lemma from_to_be: "from_be (to_be k n) = n mod 256 ^ k"
proof (induction k arbitrary: n)
  case 0
  then show ?case by (simp add: from_be_def)
next
  case (Suc k)
  have "unat (word_of_nat n :: u8) = n mod 256" by (simp add: unat_of_nat)
  then show ?case using Suc by (simp add: mod_mult2_eq mult.commute)
qed

lemma from_be_less: "from_be bs < 256 ^ length bs"
proof (induction bs rule: rev_induct)
  case (snoc b bs)
  then have "Suc (from_be bs) * 256 \<le> 256 ^ length bs * 256" by (metis Suc_leI mult_le_mono1)
  moreover have "unat b < 256" using unsigned_less [of b] by simp
  ultimately show ?case by simp
qed (simp add: from_be_def)

lemma to_from_be: "to_be (length bs) (from_be bs) = bs"
proof (induction bs rule: rev_induct)
  case (snoc b bs)
  have b: "unat b < 256" using unsigned_less [of b] by simp
  then have "unat (word_of_nat (from_be (bs @ [b])) :: u8) = unat b"
    unfolding unat_of_nat from_be_snoc by simp
  then have "word_of_nat (from_be (bs @ [b])) = b" by (metis unsigned_word_eqI)
  then show ?case using snoc b by (simp add: from_be_snoc del: of_nat_add of_nat_mult)
qed simp

lemma to_be_inject: "n < 256 ^ k \<Longrightarrow> m < 256 ^ k \<Longrightarrow> to_be k n = to_be k m \<longleftrightarrow> n = m"
  by (metis from_to_be mod_less)

section \<open>Entries\<close>

datatype entry_error = EmptyEntry | UnknownKind u8 | Truncated | LeftOver

record entry =
  commit :: bytes
  sig :: bytes

definition COMMIT :: u8 where
  "COMMIT = 1"

definition COMMIT_SIGNED :: bytes where
  "COMMIT_SIGNED = lit ''letmeknow commit v2'' @ [0]"

definition WELCOME_SIGNED :: bytes where
  "WELCOME_SIGNED = lit ''letmeknow welcome v2'' @ [0]"

definition commit_signed :: "bytes \<Rightarrow> bytes" where
  "commit_signed c = COMMIT_SIGNED @ c"

definition welcome_signed :: "crypto \<Rightarrow> bytes \<Rightarrow> bytes \<Rightarrow> bytes \<Rightarrow> bytes" where
  "welcome_signed C e c welcome = WELCOME_SIGNED @ sha256 C e @ sha256 C c @ welcome"

definition entry_encode :: "entry \<Rightarrow> bytes" where
  "entry_encode e = [COMMIT] @ to_be 4 (length (commit e)) @ commit e @ sig e"

text \<open>The closure \<open>take\<close>: the next \<open>n\<close> bytes, and what is left.\<close>

definition take_bytes :: "nat \<Rightarrow> bytes \<Rightarrow> entry_error + bytes \<times> bytes" where
  "take_bytes n rest = rbind (ensure (n \<le> length rest) Truncated) (\<lambda>_. Inr (take n rest, drop n rest))"

definition entry_parse :: "bytes \<Rightarrow> entry_error + entry" where
  "entry_parse bs =
     (case bs of
        [] \<Rightarrow> Inl EmptyEntry
      | kind # rest \<Rightarrow>
          rbind (ensure (kind = COMMIT) (UnknownKind kind)) (\<lambda>_.
          rbind (take_bytes 4 rest) (\<lambda>(len, rest).
          rbind (take_bytes (from_be len) rest) (\<lambda>(c, rest).
          rbind (take_bytes 64 rest) (\<lambda>(s, rest).
          rbind (ensure (rest = []) LeftOver) (\<lambda>_. Inr \<lparr> commit = c, sig = s \<rparr>))))))"

lemma take_bytes_Inr_iff [result_simps]:
  "take_bytes n bs = Inr (a, b) \<longleftrightarrow> bs = a @ b \<and> length a = n"
  by (auto simp: take_bytes_def ensure_def)

lemma entry_parse_Inr_iff:
  "entry_parse bs = Inr e \<longleftrightarrow>
     (\<exists>len. length len = 4 \<and> from_be len = length (commit e) \<and> length (sig e) = 64 \<and>
        bs = [COMMIT] @ len @ commit e @ sig e)"
  by (cases bs; cases e) (auto simp: entry_parse_def result_simps split: prod.splits)

text \<open>
  Parsing accepts exactly the encodings: bytes parse to an entry just when they are its encoding,
  its signature is 64 bytes and its commit fits the 32-bit length. So every entry has one encoding, and
  the hash of a log's bytes is a hash of its entries.
\<close>

theorem entry_parse_exact:
  "entry_parse bs = Inr e \<longleftrightarrow> bs = entry_encode e \<and> length (sig e) = 64 \<and> length (commit e) < 2 ^ 32"
proof -
  have "from_be len = n \<and> length len = 4 \<longleftrightarrow> len = to_be 4 n \<and> n < 256 ^ 4" for len n
    using from_be_less [of len] to_from_be [of len] from_to_be [of 4 n] by auto
  then show ?thesis
    unfolding entry_parse_Inr_iff entry_encode_def by auto
qed

section \<open>Frames\<close>

definition MAX_FRAME :: nat where
  "MAX_FRAME = 32 * 2 ^ 20"

datatype frame_error = Eof | TooLarge nat | Malformed

definition frame_encode :: "('v \<Rightarrow> bytes) \<Rightarrow> 'v \<Rightarrow> bytes" where
  "frame_encode to_vec value = (let body = to_vec value in to_be 4 (length body) @ body)"

text \<open>The frame's body, and the bytes of the stream after it.\<close>

definition read_body :: "bytes \<Rightarrow> frame_error + bytes \<times> bytes" where
  "read_body r =
     (if length r < 4 then Inl Eof
      else
        (let len = from_be (take 4 r); r = drop 4 r
         in rbind (ensure (len \<le> MAX_FRAME) (TooLarge len)) (\<lambda>_.
            if length r < len then Inl Eof else Inr (take len r, drop len r))))"

definition frame_read :: "(bytes \<Rightarrow> 'v option) \<Rightarrow> bytes \<Rightarrow> frame_error + 'v \<times> bytes" where
  "frame_read from_slice r =
     rbind (read_body r) (\<lambda>(body, r). rbind (context_of (from_slice body) Malformed) (\<lambda>v. Inr (v, r)))"

lemma read_body_shorter: "read_body r = Inr (body, r') \<Longrightarrow> length r' < length r"
  by (auto simp: read_body_def Let_def result_simps split: if_splits)

function read_known :: "(bytes \<Rightarrow> 'v option) \<Rightarrow> bytes \<Rightarrow> frame_error + 'v \<times> bytes" where
  "read_known from_slice r =
     (case read_body r of
        Inl e \<Rightarrow> Inl e
      | Inr (body, r') \<Rightarrow>
          (case from_slice body of Some v \<Rightarrow> Inr (v, r') | None \<Rightarrow> read_known from_slice r'))"
  by pat_completeness auto
termination
  by (relation "measure (\<lambda>(_, r). length r)") (auto dest: read_body_shorter)

declare read_known.simps [simp del]

lemma read_body_encode:
  assumes "length (to_vec v) \<le> MAX_FRAME"
  shows "read_body (frame_encode to_vec v @ r) = Inr (to_vec v, r)"
proof -
  have "length (to_vec v) < 256 ^ 4" using assms by (simp add: MAX_FRAME_def)
  then have "from_be (to_be 4 (length (to_vec v))) = length (to_vec v)" by (simp add: from_to_be)
  then show ?thesis using assms by (simp add: read_body_def frame_encode_def Let_def)
qed

lemma read_known_skips:
  assumes "\<forall>v\<in>set vs. length (to_vec v) \<le> MAX_FRAME \<and> from_slice (to_vec v) = None"
  shows "read_known from_slice (concat (map (frame_encode to_vec) vs) @ r) = read_known from_slice r"
  using assms
proof (induction vs)
  case (Cons v vs)
  then show ?case
    using read_body_encode [of to_vec v]
    by (simp add: read_known.simps [of from_slice "frame_encode to_vec v @ _"])
qed simp

text \<open>
  A reader of known frames skips every frame it cannot parse and returns the first it can, leaving
  the stream right after it: the frames written before and after are neither merged nor lost. It
  relies on the writer's frames being within the limit and on \<open>serde_json\<close> reading back what it wrote.
\<close>

theorem read_known_first_known:
  assumes "\<forall>v\<in>set skipped. length (to_vec v) \<le> MAX_FRAME \<and> from_slice (to_vec v) = None"
    and "length (to_vec w) \<le> MAX_FRAME" and "from_slice (to_vec w) = Some x"
  shows "read_known from_slice (concat (map (frame_encode to_vec) skipped) @ frame_encode to_vec w @ r) = Inr (x, r)"
  using assms read_body_encode [of to_vec w r]
  by (simp add: read_known_skips read_known.simps [of from_slice "frame_encode to_vec w @ r"])

theorem read_known_first_known_witness:
  "read_known (\<lambda>b. if length b = 2 then Some (hd b) else None)
     (concat (map (frame_encode id) [[7, 7, 7], []]) @ frame_encode id [5, 6] @ [1]) = Inr (5, [1])"
  by (rule read_known_first_known) (simp_all add: MAX_FRAME_def)

section \<open>Limits of the membership routes\<close>

definition MAX_BODY :: nat where "MAX_BODY = 4 * 2 ^ 20"
definition MAX_ENTRY :: nat where "MAX_ENTRY = 2 ^ 20"
definition APPEND_ROWS :: nat where "APPEND_ROWS = 64"
definition APPEND_BYTES :: nat where "APPEND_BYTES = 2 * 2 ^ 20"
definition PAGE_ROWS :: nat where "PAGE_ROWS = 1024"
definition HEAD_LOGS :: nat where "HEAD_LOGS = 256"
definition PAGE_OVERHEAD :: nat where "PAGE_OVERHEAD = 512"
definition EXPIRED_DAYS :: nat where "EXPIRED_DAYS = 30"
definition MAX_RETENTION_DAYS :: nat where "MAX_RETENTION_DAYS = 25"
definition STALE :: nat where "STALE = (EXPIRED_DAYS - 2) * 86400000"

lemmas limit_defs = MAX_BODY_def MAX_ENTRY_def APPEND_ROWS_def APPEND_BYTES_def PAGE_ROWS_def
  HEAD_LOGS_def PAGE_OVERHEAD_def

definition div_ceil :: "nat \<Rightarrow> nat \<Rightarrow> nat" where
  "div_ceil a b = (a + b - 1) div b"

datatype decode_error = ByteLimit | Invalid64 | Not32 | RowLimit | AppendLimit | PageLimit | BadSignature

definition decode_bytes :: "(bytes \<Rightarrow> bytes option) \<Rightarrow> nat \<Rightarrow> bytes \<Rightarrow> decode_error + bytes" where
  "decode_bytes decode64 mx text =
     (if length text > div_ceil (mx * 4) 3 then Inl ByteLimit
      else rbind (context_of (decode64 text) Invalid64) (\<lambda>bs.
        if length bs > mx then Inl ByteLimit else Inr bs))"

definition fixed32 :: "(bytes \<Rightarrow> bytes option) \<Rightarrow> bytes \<Rightarrow> decode_error + bytes" where
  "fixed32 decode64 text =
     rbind (decode_bytes decode64 32 text) (\<lambda>bs. rbind (ensure (length bs = 32) Not32) (\<lambda>_. Inr bs))"

definition signature_bytes :: "(bytes \<Rightarrow> bytes option) \<Rightarrow> bytes \<Rightarrow> decode_error + bytes" where
  "signature_bytes decode64 text =
     rbind (decode_bytes decode64 64 text) (\<lambda>bs. rbind (ensure (length bs = 64) BadSignature) (\<lambda>_. Inr bs))"

text \<open>
  \<open>visit_seq\<close> over the elements still to come, \<open>items\<close> taken so far: an element past the limit ends
  the decoding before it is decoded.
\<close>

fun bounded :: "('j \<Rightarrow> decode_error + 'a) \<Rightarrow> nat \<Rightarrow> 'a list \<Rightarrow> 'j list \<Rightarrow> decode_error + 'a list" where
  "bounded element mx items [] = Inr items"
| "bounded element mx items (j # js) =
     (if length items < mx
      then rbind (element j) (\<lambda>item. bounded element mx (items @ [item]) js)
      else Inl RowLimit)"

definition encoded_entry_bytes :: "bytes \<Rightarrow> nat" where
  "encoded_entry_bytes e = div_ceil (length e * 4) 3 + 3"

definition valid_append :: "bytes list \<Rightarrow> bool" where
  "valid_append entries \<longleftrightarrow>
     1 \<le> length entries \<and> length entries \<le> APPEND_ROWS \<and>
     (\<forall>e\<in>set entries. e \<noteq> [] \<and> length e \<le> MAX_ENTRY) \<and>
     sum_list (map length entries) \<le> APPEND_BYTES"

definition encoded_page_bytes :: "bytes list \<Rightarrow> nat" where
  "encoded_page_bytes entries = PAGE_OVERHEAD + sum_list (map encoded_entry_bytes entries)"

definition valid_page :: "bytes list \<Rightarrow> bool" where
  "valid_page entries \<longleftrightarrow>
     length entries \<le> PAGE_ROWS \<and> (\<forall>e\<in>set entries. e \<noteq> [] \<and> length e \<le> MAX_ENTRY) \<and>
     encoded_page_bytes entries \<le> MAX_BODY"

definition append_entries :: "(bytes \<Rightarrow> bytes option) \<Rightarrow> bytes list \<Rightarrow> decode_error + bytes list" where
  "append_entries decode64 texts =
     rbind (bounded (decode_bytes decode64 MAX_ENTRY) APPEND_ROWS [] texts) (\<lambda>entries.
       if valid_append entries then Inr entries else Inl AppendLimit)"

definition page_entries :: "(bytes \<Rightarrow> bytes option) \<Rightarrow> bytes list \<Rightarrow> decode_error + bytes list" where
  "page_entries decode64 texts =
     rbind (bounded (decode_bytes decode64 MAX_ENTRY) PAGE_ROWS [] texts) (\<lambda>entries.
       if valid_page entries then Inr entries else Inl PageLimit)"

definition bounded_logs :: "('j \<Rightarrow> decode_error + 'a) \<Rightarrow> 'j list \<Rightarrow> decode_error + 'a list" where
  "bounded_logs element js = bounded element HEAD_LOGS [] js"

lemma bounded_Inr_iff:
  "bounded el mx items js = Inr out \<longleftrightarrow>
     (\<exists>xs. out = items @ xs \<and> list_all2 (\<lambda>j x. el j = Inr x) js xs \<and>
        (js \<noteq> [] \<longrightarrow> length items + length js \<le> mx))"
proof (induction js arbitrary: items)
  case (Cons j js)
  show ?case
    by (cases "el j") (auto simp: Cons list_all2_Cons1 rbind_def Suc_le_eq)
qed auto

lemma bounded_checked_iff:
  assumes "\<And>es. P es \<Longrightarrow> length es \<le> mx"
  shows "rbind (bounded el mx [] js) (\<lambda>es. if P es then Inr es else Inl err) = Inr es \<longleftrightarrow>
    list_all2 (\<lambda>j x. el j = Inr x) js es \<and> P es"
proof -
  have "(if P x then Inr x else Inl err) = Inr es \<longleftrightarrow> P es \<and> x = es" for x by auto
  moreover have "length js \<le> mx" if "list_all2 (\<lambda>j x. el j = Inr x) js es" "P es"
    using assms [OF that(2)] list_all2_lengthD [OF that(1)] by simp
  ultimately show ?thesis unfolding rbind_Inr_iff bounded_Inr_iff by auto
qed

lemma encoded_entry_le: "3 * encoded_entry_bytes e \<le> 4 * length e + 11"
  by (simp add: encoded_entry_bytes_def div_ceil_def)

lemma encoded_sum_le: "3 * sum_list (map encoded_entry_bytes es) \<le> 4 * sum_list (map length es) + 11 * length es"
proof (induction es)
  case (Cons e es)
  then show ?case using encoded_entry_le [of e] by simp
qed simp

text \<open>
  The limits agree: whatever an append may hold, one page can carry, so an accepted entry can
  always be read back; and an append's entries encode within the body limit of the route.
\<close>

theorem valid_append_fits_a_page:
  assumes "valid_append entries"
  shows "valid_page entries \<and> encoded_page_bytes entries < MAX_BODY"
proof -
  have "3 * encoded_page_bytes entries \<le> 3 * PAGE_OVERHEAD + 4 * APPEND_BYTES + 11 * APPEND_ROWS"
    using assms encoded_sum_le [of entries] by (simp add: valid_append_def encoded_page_bytes_def)
  also have "\<dots> < 3 * MAX_BODY" by (simp add: limit_defs)
  finally show ?thesis using assms by (simp add: valid_append_def valid_page_def limit_defs)
qed

theorem valid_append_fits_a_page_witness: "valid_page [[1, 2], [3]] \<and> encoded_page_bytes [[1, 2], [3]] < MAX_BODY"
  by (rule valid_append_fits_a_page) (simp add: valid_append_def limit_defs)

text \<open>
  Decoding an append or a page yields exactly the decoded entries, in order, and only when they are
  within the limits; more elements than the limit are refused whatever they hold.
\<close>

theorem decoded_entries_are_valid:
  "(append_entries decode64 texts = Inr es \<longleftrightarrow>
      list_all2 (\<lambda>t e. decode_bytes decode64 MAX_ENTRY t = Inr e) texts es \<and> valid_append es) \<and>
   (page_entries decode64 texts = Inr es \<longleftrightarrow>
      list_all2 (\<lambda>t e. decode_bytes decode64 MAX_ENTRY t = Inr e) texts es \<and> valid_page es)"
  unfolding append_entries_def page_entries_def
  by (intro conjI bounded_checked_iff) (simp_all add: valid_append_def valid_page_def)

section \<open>Refusals\<close>

datatype refusal = Policy | Size | Rate | Busy | Quota

fun refusal_code :: "refusal \<Rightarrow> bytes" where
  "refusal_code Policy = lit ''policy''"
| "refusal_code Size = lit ''size''"
| "refusal_code Rate = lit ''rate''"
| "refusal_code Busy = lit ''busy''"
| "refusal_code Quota = lit ''quota''"

definition from_code :: "bytes \<Rightarrow> refusal option" where
  "from_code code = List.find (\<lambda>r. refusal_code r = code) [Policy, Size, Rate, Busy, Quota]"

definition refusal_message :: "crypto \<Rightarrow> refusal \<Rightarrow> bytes \<Rightarrow> bytes" where
  "refusal_message C refusal request = lit ''letmeknow refusal v1'' @ [0] @ refusal_code refusal @ sha256 C request"

definition expiry_message :: "bytes \<Rightarrow> bytes" where
  "expiry_message log_ref = lit ''letmeknow expired v1'' @ [0] @ log_ref"

lemma refusal_code_eq_iff: "refusal_code r = refusal_code r' \<longleftrightarrow> r = r'"
  by (cases r; cases r') (simp_all add: lit_def)

lemma from_code_iff: "from_code code = Some r \<longleftrightarrow> refusal_code r = code"
  by (cases r) (auto simp: from_code_def refusal_code_eq_iff [symmetric] split: if_splits)

end
