(* ===== verification/Clock.thy ===== *)
theory Clock
  imports Prelude
begin

text \<open>
  The clock of every timestamp and its correction by the membership service's
  (\<open>crates/proto/src/clock.rs\<close>). The system's clock is a parameter: its readings are arguments. The
  global \<open>READING\<close> is the state. An \<open>i64\<close> is a 64-bit word read with \<open>sint\<close>; its subtraction wraps,
  as in a release build.
\<close>

type_synonym i64 = "64 word"

text \<open>The round trip, the service's offset, and when the reading came.\<close>

type_synonym reading = "(u64 \<times> i64 \<times> u64) option"

definition KEEP :: u64 where
  "KEEP = 10 * 60 * 1000"

definition MAX_OFFSET :: nat where
  "MAX_OFFSET = 7 * 86400000"

definition trip_of :: "u64 \<Rightarrow> u64 \<Rightarrow> u64" where
  "trip_of sent received = sat_sub received sent"

definition offset_of :: "u64 \<Rightarrow> u64 \<Rightarrow> u64 \<Rightarrow> i64" where
  "offset_of sent received service = service - (sent + trip_of sent received div 2)"

definition unsigned_abs :: "i64 \<Rightarrow> nat" where
  "unsigned_abs i = nat \<bar>sint i\<bar>"

definition heard :: "reading \<Rightarrow> u64 \<Rightarrow> u64 \<Rightarrow> u64 \<Rightarrow> reading" where
  "heard kept sent received service =
     (let trip = trip_of sent received; offset = offset_of sent received service
      in if unsigned_abs offset > MAX_OFFSET then kept
         else if (case kept of None \<Rightarrow> True
                  | Some (best, _, at) \<Rightarrow> trip \<le> best \<or> sat_sub received at > KEEP)
         then Some (trip, offset, received)
         else kept)"

definition saturating_add_signed :: "u64 \<Rightarrow> i64 \<Rightarrow> u64" where
  "saturating_add_signed a i =
     (let r = uint a + sint i
      in if r < 0 then 0 else if r < 2 ^ 64 then word_of_int r else u64_max)"

definition corrected :: "reading \<Rightarrow> u64 \<Rightarrow> u64" where
  "corrected kept now =
     saturating_add_signed now (case kept of None \<Rightarrow> 0 | Some (_, offset, _) \<Rightarrow> offset)"

text \<open>The readings taken in a run, one after another.\<close>

definition heard_all :: "(u64 \<times> u64 \<times> u64) list \<Rightarrow> reading" where
  "heard_all hs = foldl (\<lambda>kept (sent, received, service). heard kept sent received service) None hs"

section \<open>Bounds\<close>

definition within_offset :: "reading \<Rightarrow> bool" where
  "within_offset kept = (case kept of None \<Rightarrow> True | Some (_, offset, _) \<Rightarrow> unsigned_abs offset \<le> MAX_OFFSET)"

lemma within_heard [wf_intros]: "within_offset kept \<Longrightarrow> within_offset (heard kept sent received service)"
  by (auto simp: within_offset_def heard_def Let_def split: option.splits)

lemma within_heard_all: "within_offset (heard_all hs)"
  by (induction hs rule: rev_induct)
    (auto simp: heard_all_def within_heard case_prod_beta, simp add: within_offset_def)

lemma uint_u64_max: "uint u64_max = 2 ^ 64 - 1"
  by (simp add: u64_max_def unsigned_minus_1_eq_mask mask_eq_exp_minus_1)

lemma uint_word_of_int_small: "0 \<le> r \<Longrightarrow> r < 2 ^ 64 \<Longrightarrow> uint (word_of_int r :: u64) = r"
  by (simp add: uint_word_of_int)

lemma sint_word_of_int_small: "- (2 ^ 63) \<le> r \<Longrightarrow> r < 2 ^ 63 \<Longrightarrow> sint (word_of_int r :: i64) = r"
  by (simp add: signed_of_int signed_take_bit_int_eq_self)

lemma saturating_add_signed_near: "\<bar>uint (saturating_add_signed a i) - uint a\<bar> \<le> \<bar>sint i\<bar>"
proof -
  have a: "0 \<le> uint a" "uint a < 2 ^ 64" using unsigned_less [of a] by simp_all
  consider "uint a + sint i < 0" | "0 \<le> uint a + sint i" "uint a + sint i < 2 ^ 64"
    | "2 ^ 64 \<le> uint a + sint i" by linarith
  then show ?thesis
  proof cases
    case 2
    then show ?thesis
      using uint_word_of_int_small [OF 2] by (simp add: saturating_add_signed_def del: of_int_add)
  qed (use a in \<open>auto simp: saturating_add_signed_def uint_u64_max\<close>)
qed

text \<open>
  C39. Whatever readings a service answers with, in whatever order, the corrected time stays within 7
  days of this clock: a service cannot move the times members see by years.
\<close>

theorem corrected_within_a_week:
  "\<bar>uint (corrected (heard_all hs) now) - uint now\<bar> \<le> 7 * 24 * 60 * 60 * 1000"
proof -
  let ?offset = "case heard_all hs of None \<Rightarrow> 0 | Some (_, offset, _) \<Rightarrow> offset"
  have "\<bar>sint ?offset\<bar> \<le> int MAX_OFFSET"
    using within_heard_all [of hs]
    by (auto simp: within_offset_def unsigned_abs_def split: option.splits)
  then show ?thesis
    using saturating_add_signed_near [of now ?offset] by (simp add: corrected_def MAX_OFFSET_def)
qed

section \<open>Accuracy\<close>

lemma uint_trip: "sent \<le> received \<Longrightarrow> uint (trip_of sent received) = uint received - uint sent"
  by (simp add: trip_of_def sat_sub_def uint_sub_lem [symmetric] word_le_def)

lemma sint_offset:
  assumes "sent \<le> received" "uint received < 2 ^ 63" "uint service < 2 ^ 63"
  shows "sint (offset_of sent received service) =
    uint service - (uint sent + (uint received - uint sent) div 2)"
proof -
  let ?m = "uint sent + (uint received - uint sent) div 2"
  have m: "0 \<le> ?m" "?m < 2 ^ 63" using assms by (auto simp: word_le_def)
  have "uint (trip_of sent received div 2) = (uint received - uint sent) div 2"
    using assms by (simp add: uint_div uint_trip)
  then have "offset_of sent received service = word_of_int (uint service - ?m)"
    unfolding offset_of_def by (metis (no_types) word_of_int_uint wi_hom_add wi_hom_sub)
  moreover have "- (2 ^ 63) \<le> uint service - ?m" "uint service - ?m < 2 ^ 63"
    using m assms(3) uint_ge_0 [of service] by linarith+
  ultimately show ?thesis using sint_word_of_int_small by metis
qed

lemma midpoint_near:
  fixes s t r :: int
  assumes "s \<le> t" "t \<le> r"
  shows "2 * \<bar>t - (s + (r - s) div 2)\<bar> \<le> r - s + 1"
proof -
  define q where "q = (r - s) div 2"
  have "2 * q \<le> r - s" "r - s \<le> 2 * q + 1" unfolding q_def by presburger+
  then show ?thesis unfolding q_def [symmetric] using assms by (simp add: abs_if)
qed

text \<open>
  A reading is as good as its round trip: when the service read its clock, which stands \<open>d\<close>
  milliseconds from this one, at some moment between the request and its answer, the offset taken is
  within half the round trip (rounded up) of \<open>d\<close>, and it replaces a kept reading only when its trip is
  no longer or the kept one is older than 10 minutes. The times are before the year 292 million, so
  that they fit an \<open>i64\<close>.
\<close>

theorem heard_accurate:
  assumes "sent \<le> t" and "t \<le> received" and "uint received < 2 ^ 63" and "uint service < 2 ^ 63"
    and "uint service = uint t + d"
  shows "heard kept sent received service = kept \<or>
    (\<exists>offset. heard kept sent received service = Some (received - sent, offset, received) \<and>
      2 * \<bar>sint offset - d\<bar> \<le> uint received - uint sent + 1 \<and>
      (\<forall>best off at. kept = Some (best, off, at) \<longrightarrow> received - sent \<le> best \<or> sat_sub received at > KEEP))"
proof -
  have sr: "sent \<le> received" using assms by simp
  have "2 * \<bar>uint t - (uint sent + (uint received - uint sent) div 2)\<bar> \<le> uint received - uint sent + 1"
    using assms(1,2) by (simp add: word_le_def midpoint_near)
  moreover have "sint (offset_of sent received service) - d =
      uint t - (uint sent + (uint received - uint sent) div 2)"
    using sint_offset [OF sr assms(3,4)] assms(5) by simp
  ultimately have "2 * \<bar>sint (offset_of sent received service) - d\<bar> \<le> uint received - uint sent + 1"
    by simp
  then show ?thesis
    using sr by (auto simp: heard_def Let_def trip_of_def sat_sub_def split: option.splits)
qed

theorem heard_accurate_witness:
  "heard None 1000 1400 11250 = None \<or>
    (\<exists>offset. heard None 1000 1400 11250 = Some (1400 - 1000, offset, 1400) \<and>
      2 * \<bar>sint offset - 10000\<bar> \<le> uint (1400 :: u64) - uint (1000 :: u64) + 1 \<and>
      (\<forall>best off at. (None :: reading) = Some (best, off, at) \<longrightarrow> 1400 - 1000 \<le> best \<or> sat_sub 1400 at > KEEP))"
  by (rule heard_accurate [where t = 1250]) simp_all

end
