(* ===== verification/Links.thy ===== *)
theory Links
  imports Wire
begin

text \<open>
  A service's domain and directory (\<open>crates/proto/src/directory.rs\<close>) and invite links
  (\<open>crates/proto/src/links.rs\<close>). A Rust string is the list of its UTF-8 bytes. The crates \<open>url\<close> and
  \<open>base64\<close> are parameters: \<open>is_domain\<close> says whether \<open>Host::parse\<close> reads a host as a domain,
  \<open>encode64\<close> and \<open>decode64\<close> are the unpadded URL-safe engine; \<open>serde_json\<close> is \<open>from_slice\<close>.
\<close>

section \<open>Strings\<close>

text \<open>\<open>str::split\<close> at a one-byte separator, and \<open>str::split_once\<close>.\<close>

fun split_on :: "u8 \<Rightarrow> bytes \<Rightarrow> bytes list" where
  "split_on c [] = [[]]"
| "split_on c (b # bs) =
     (if b = c then [] # split_on c bs
      else (case split_on c bs of [] \<Rightarrow> [[b]] | f # fs \<Rightarrow> (b # f) # fs))"

definition split_once :: "u8 \<Rightarrow> bytes \<Rightarrow> (bytes \<times> bytes) option" where
  "split_once c s =
     (let left = takeWhile (\<lambda>b. b \<noteq> c) s
      in if length left < length s then Some (left, drop (Suc (length left)) s) else None)"

fun join_with :: "u8 \<Rightarrow> bytes list \<Rightarrow> bytes" where
  "join_with c [] = []"
| "join_with c [x] = x"
| "join_with c (x # xs) = x @ c # join_with c xs"

text \<open>\<open>u16::from_str\<close>: an optional plus sign, then at least one digit, each step within \<open>u16\<close>.\<close>

fun u16_digits :: "nat \<Rightarrow> bytes \<Rightarrow> nat option" where
  "u16_digits n [] = Some n"
| "u16_digits n (b # bs) =
     (if 48 \<le> b \<and> b \<le> 57
      then (let m = n * 10 + (unat b - 48) in if m < 2 ^ 16 then u16_digits m bs else None)
      else None)"

definition parse_u16 :: "bytes \<Rightarrow> nat option" where
  "parse_u16 p =
     (let digits = (if p \<noteq> [] \<and> hd p = 43 then tl p else p)
      in if digits = [] then None else u16_digits 0 digits)"

text \<open>\<open>to_string\<close> of a number.\<close>

fun decimal :: "nat \<Rightarrow> bytes" where
  "decimal n = (if n < 10 then [word_of_nat (48 + n)] else decimal (n div 10) @ [word_of_nat (48 + n mod 10)])"

declare decimal.simps [simp del]

text \<open>\<open>String::from_utf8\<close>: whether bytes are UTF-8 (the well-formed sequences of the Unicode standard).\<close>

definition continuation :: "u8 \<Rightarrow> bool" where
  "continuation b \<longleftrightarrow> 0x80 \<le> b \<and> b \<le> 0xBF"

fun utf8 :: "bytes \<Rightarrow> bool" where
  "utf8 [] = True"
| "utf8 (a # bs) =
     (if a < 0x80 then utf8 bs
      else case bs of
        b # cs \<Rightarrow>
          if 0xC2 \<le> a \<and> a \<le> 0xDF then continuation b \<and> utf8 cs
          else (case cs of
            c # ds \<Rightarrow>
              if 0xE0 \<le> a \<and> a \<le> 0xEF
              then continuation b \<and> continuation c \<and> (a = 0xE0 \<longrightarrow> 0xA0 \<le> b) \<and> (a = 0xED \<longrightarrow> b \<le> 0x9F) \<and> utf8 ds
              else (case ds of
                d # es \<Rightarrow> 0xF0 \<le> a \<and> a \<le> 0xF4 \<and> continuation b \<and> continuation c \<and> continuation d \<and>
                  (a = 0xF0 \<longrightarrow> 0x90 \<le> b) \<and> (a = 0xF4 \<longrightarrow> b \<le> 0x8F) \<and> utf8 es
              | [] \<Rightarrow> False)
          | [] \<Rightarrow> False)
      | [] \<Rightarrow> False)"

lemma utf8_ascii: "\<forall>b\<in>set bs. b < 0x80 \<Longrightarrow> utf8 bs"
  by (induction bs) simp_all

lemma split_on_neq_Nil [simp]: "split_on c bs \<noteq> []"
  by (induction bs) (auto split: list.splits)

lemma split_on_free: "c \<notin> set x \<Longrightarrow> split_on c x = [x]"
  by (induction x) auto

lemma split_on_append: "c \<notin> set x \<Longrightarrow> split_on c (x @ c # bs) = x # split_on c bs"
  by (induction x) auto

lemma split_on_join: "xs \<noteq> [] \<Longrightarrow> \<forall>x\<in>set xs. c \<notin> set x \<Longrightarrow> split_on c (join_with c xs) = xs"
  by (induction c xs rule: join_with.induct) (auto simp: split_on_free split_on_append)

lemma join_split_on: "join_with c (split_on c bs) = bs"
proof (induction bs)
  case (Cons b bs)
  obtain f fs where "split_on c bs = f # fs" by (cases "split_on c bs") auto
  then show ?case using Cons by (cases fs) auto
qed simp

lemma split_once_append: "c \<notin> set x \<Longrightarrow> split_once c (x @ c # y) = Some (x, y)"
proof -
  assume "c \<notin> set x"
  then have "takeWhile (\<lambda>b. b \<noteq> c) (x @ c # y) = x" by (induction x) auto
  then show ?thesis by (simp add: split_once_def)
qed

lemma split_once_None_iff: "split_once c s = None \<longleftrightarrow> c \<notin> set s"
proof -
  have "length (takeWhile (\<lambda>b. b \<noteq> c) s) < length s \<longleftrightarrow> c \<in> set s" by (induction s) auto
  then show ?thesis by (simp add: split_once_def Let_def)
qed

lemma split_once_SomeD: "split_once c s = Some (x, y) \<Longrightarrow> s = x @ c # y \<and> c \<notin> set x"
proof (induction s arbitrary: x)
  case (Cons b s)
  then show ?case by (cases "b = c") (auto simp: split_once_def Let_def split: if_splits)
qed (simp add: split_once_def)

section \<open>Decimal numbers\<close>

lemma unat_digit: "n < 10 \<Longrightarrow> unat (word_of_nat (48 + n) :: u8) = 48 + n"
  unfolding unat_of_nat by simp

lemma u16_digits_append:
  "u16_digits n (xs @ ys) = (case u16_digits n xs of None \<Rightarrow> None | Some m \<Rightarrow> u16_digits m ys)"
  by (induction xs arbitrary: n) (auto simp: Let_def)

lemma u16_digits_digit: "d < 10 \<Longrightarrow> n * 10 + d < 2 ^ 16 \<Longrightarrow> u16_digits n [word_of_nat (48 + d)] = Some (n * 10 + d)"
  using unat_digit [of d] by (simp add: word_le_nat_alt del: of_nat_add)

lemma u16_digits_decimal: "n < 2 ^ 16 \<Longrightarrow> u16_digits 0 (decimal n) = Some n"
proof (induction n rule: decimal.induct)
  case (1 n)
  then show ?case
    using u16_digits_digit [of n 0] u16_digits_digit [of "n mod 10" "n div 10"]
    by (simp add: decimal.simps [of n] u16_digits_append del: of_nat_add u16_digits.simps(2))
qed

lemma decimal_digits: "b \<in> set (decimal n) \<Longrightarrow> 48 \<le> b \<and> b \<le> 57"
proof (induction n rule: decimal.induct)
  case (1 n)
  have "48 \<le> (word_of_nat (48 + d) :: u8) \<and> (word_of_nat (48 + d) :: u8) \<le> 57" if "d < 10" for d
    using unat_digit [OF that] that by (simp add: word_le_nat_alt del: of_nat_add)
  then show ?case
    using 1 by (auto simp: decimal.simps [of n] simp del: of_nat_add split: if_splits)
qed

lemma decimal_neq_Nil [simp]: "decimal n \<noteq> []"
  by (simp add: decimal.simps [of n])

lemma u16_digits_less: "u16_digits n p = Some m \<Longrightarrow> n < 2 ^ 16 \<Longrightarrow> m < 2 ^ 16"
  by (induction p arbitrary: n) (auto simp: Let_def split: if_splits)

lemma parse_u16_decimal: "n < 2 ^ 16 \<Longrightarrow> parse_u16 (decimal n) = Some n"
  using decimal_digits [of "hd (decimal n)" n] u16_digits_decimal [of n]
  by (auto simp: parse_u16_def)

lemma parse_u16_less: "parse_u16 p = Some n \<Longrightarrow> n < 2 ^ 16"
  by (auto simp: parse_u16_def Let_def dest: u16_digits_less split: if_splits)

section \<open>Domains and directories\<close>

datatype link_error = BadDomain | NoFragment | OtherVersion | NoSecret | NoDomain | Not64 | SecretLength
  | NotUtf8 | KeyLength | NoMember

definition label_ok :: "bytes \<Rightarrow> bool" where
  "label_ok l \<longleftrightarrow> l \<noteq> [] \<and> length l \<le> 63 \<and> hd l \<noteq> 45 \<and> last l \<noteq> 45 \<and>
     (\<forall>b\<in>set l. (97 \<le> b \<and> b \<le> 122) \<or> (48 \<le> b \<and> b \<le> 57) \<or> b = 45)"

definition port_ok :: "bytes option \<Rightarrow> bool" where
  "port_ok port =
     (case port of None \<Rightarrow> True
      | Some p \<Rightarrow> (case parse_u16 p of None \<Rightarrow> False | Some n \<Rightarrow> decimal n = p \<and> n \<noteq> 0 \<and> n \<noteq> 443))"

definition check_domain :: "(bytes \<Rightarrow> bool) \<Rightarrow> bytes \<Rightarrow> link_error + unit" where
  "check_domain is_domain domain =
     (let (host, port) = (case split_once 58 domain of None \<Rightarrow> (domain, None) | Some (h, p) \<Rightarrow> (h, Some p));
          labels = split_on 46 host
      in ensure (length host \<le> 253 \<and> list_all label_ok labels \<and> is_domain host \<and> port_ok port) BadDomain)"

definition MAX_BYTES :: nat where
  "MAX_BYTES = 64 * 2 ^ 10"

text \<open>The key of a directory, at most 64 KB of JSON.\<close>

definition directory_parse :: "(bytes \<Rightarrow> bytes option) \<Rightarrow> bytes \<Rightarrow> bytes option" where
  "directory_parse from_slice body = (if length body \<le> MAX_BYTES then from_slice body else None)"

definition directory_url :: "bytes \<Rightarrow> bytes" where
  "directory_url domain = lit ''https://'' @ domain @ lit ''/.well-known/letmeknow.json''"

definition relay_url :: "bytes \<Rightarrow> bytes" where
  "relay_url domain = lit ''https://'' @ domain"

definition deserialize_domain :: "(bytes \<Rightarrow> bool) \<Rightarrow> bytes \<Rightarrow> link_error + bytes" where
  "deserialize_domain is_domain domain = rbind (check_domain is_domain domain) (\<lambda>_. Inr domain)"

lemma port_ok_iff:
  "port_ok port \<longleftrightarrow> (case port of None \<Rightarrow> True | Some p \<Rightarrow> \<exists>n. 0 < n \<and> n < 2 ^ 16 \<and> n \<noteq> 443 \<and> p = decimal n)"
proof (cases port)
  case (Some p)
  have "port_ok (Some p) \<longleftrightarrow> (\<exists>n. parse_u16 p = Some n \<and> decimal n = p \<and> n \<noteq> 0 \<and> n \<noteq> 443)"
    by (simp add: port_ok_def split: option.splits)
  then show ?thesis using Some parse_u16_decimal parse_u16_less by (simp, blast)
qed (simp add: port_ok_def)

lemma label_ok_byte: "label_ok l \<Longrightarrow> b \<in> set l \<Longrightarrow> b < 0x80 \<and> b \<noteq> 46 \<and> b \<noteq> 58"
  by (auto simp: label_ok_def word_less_nat_alt word_le_nat_alt)

lemma label_ok_sep_free: "list_all label_ok ls \<Longrightarrow> l \<in> set ls \<Longrightarrow> 46 \<notin> set l \<and> 58 \<notin> set l"
  using label_ok_byte by (fastforce simp: list_all_iff)

lemma set_join_with: "set (join_with c xs) \<subseteq> insert c (\<Union>x\<in>set xs. set x)"
  by (induction c xs rule: join_with.induct) auto

lemma host_colon_free: "list_all label_ok ls \<Longrightarrow> 58 \<notin> set (join_with 46 ls)"
  using set_join_with [of 46 ls] label_ok_sep_free by fastforce

definition domain_text :: "bytes list \<Rightarrow> nat option \<Rightarrow> bytes" where
  "domain_text labels port = join_with 46 labels @ (case port of None \<Rightarrow> [] | Some n \<Rightarrow> 58 # decimal n)"

lemma check_domain_text:
  assumes ls: "labels \<noteq> []" "list_all label_ok labels"
    and ok: "length (join_with 46 labels) \<le> 253" "is_domain (join_with 46 labels)"
    and port: "\<forall>n. port = Some n \<longrightarrow> 0 < n \<and> n < 2 ^ 16 \<and> n \<noteq> 443"
  shows "check_domain is_domain (domain_text labels port) = Inr ()"
proof -
  have sp: "split_on 46 (join_with 46 labels) = labels"
    using ls label_ok_sep_free by (intro split_on_join) auto
  show ?thesis
  proof (cases port)
    case None
    then have "split_once 58 (domain_text labels port) = None"
      using host_colon_free [OF ls(2)] by (simp add: split_once_None_iff domain_text_def)
    then show ?thesis using None sp ls ok by (simp add: check_domain_def domain_text_def port_ok_def)
  next
    case (Some n)
    then have "split_once 58 (domain_text labels port) = Some (join_with 46 labels, decimal n)"
      using host_colon_free [OF ls(2)] by (simp add: split_once_append domain_text_def)
    moreover have "port_ok (Some (decimal n))" using Some port by (simp add: port_ok_def parse_u16_decimal)
    ultimately show ?thesis using Some sp ls ok by (simp add: check_domain_def)
  qed
qed

lemma check_domain_shape:
  assumes "check_domain is_domain d = Inr ()"
  shows "\<exists>labels port. d = domain_text labels port \<and> labels \<noteq> [] \<and> list_all label_ok labels \<and>
    length (join_with 46 labels) \<le> 253 \<and> is_domain (join_with 46 labels) \<and>
    (\<forall>n. port = Some n \<longrightarrow> 0 < n \<and> n < 2 ^ 16 \<and> n \<noteq> 443)"
proof (cases "split_once 58 d")
  case None
  then show ?thesis
    using assms by (intro exI [of _ "split_on 46 d"] exI [of _ None])
      (simp add: check_domain_def ensure_Inr_iff domain_text_def join_split_on)
next
  case (Some hp)
  obtain h p where hp: "hp = (h, p)" by (cases hp)
  then obtain n where "0 < n" "n < 2 ^ 16" "n \<noteq> 443" "p = decimal n"
    using assms Some by (auto simp: check_domain_def ensure_Inr_iff port_ok_iff)
  then show ?thesis
    using assms Some hp split_once_SomeD [of 58 d h p]
    by (intro exI [of _ "split_on 46 h"] exI [of _ "Some n"])
      (simp add: check_domain_def ensure_Inr_iff domain_text_def join_split_on)
qed

text \<open>
  The check of a domain accepts exactly the canonical spellings: labels of 1 to 63 lowercase
  letters, digits and inner hyphens joined by dots, at most 253 bytes and a domain to the URL parser,
  and either no port or a colon and the decimal numeral of a port in 1 to 65535 other than 443.
\<close>

theorem check_domain_exact:
  "check_domain is_domain d = Inr () \<longleftrightarrow>
    (\<exists>labels port. d = domain_text labels port \<and> labels \<noteq> [] \<and> list_all label_ok labels \<and>
      length (join_with 46 labels) \<le> 253 \<and> is_domain (join_with 46 labels) \<and>
      (case port of None \<Rightarrow> True | Some n \<Rightarrow> n \<in> {1..65535} - {443}))"
proof -
  have "(case port of None \<Rightarrow> True | Some n \<Rightarrow> n \<in> {1..65535} - {443}) \<longleftrightarrow>
      (\<forall>n. port = Some n \<longrightarrow> 0 < n \<and> n < 2 ^ 16 \<and> n \<noteq> 443)" for port :: "nat option"
    by (auto split: option.splits)
  then show ?thesis using check_domain_shape [of is_domain d] check_domain_text [of _ is_domain] by metis
qed

lemma check_domain_ascii: "check_domain is_domain d = Inr () \<Longrightarrow> \<forall>b\<in>set d. b < 0x80"
proof -
  assume "check_domain is_domain d = Inr ()"
  then obtain labels port where d: "d = domain_text labels port" and ok: "list_all label_ok labels"
    using check_domain_shape by blast
  have "\<forall>b\<in>set (join_with 46 labels). b < 0x80"
    using set_join_with [of 46 labels] ok label_ok_byte by (fastforce simp: list_all_iff)
  moreover have "b < 0x80" if "b \<in> set (decimal n)" for b n
    using decimal_digits [OF that] by (auto simp: word_less_nat_alt word_le_nat_alt)
  ultimately show ?thesis unfolding d domain_text_def by (auto split: option.splits)
qed

section \<open>Invite links\<close>

definition INVITE_PREFIX :: bytes where
  "INVITE_PREFIX = lit ''https://letmeknow.dev/i#''"

record invite =
  inv_secret :: bytes
  inv_domain :: bytes
  inv_members :: "(bytes \<times> bytes) list"

definition invite_link :: "(bytes \<Rightarrow> bytes) \<Rightarrow> invite \<Rightarrow> bytes" where
  "invite_link encode64 i =
     foldl (\<lambda>link (key, home).
         link @ [46] @ encode64 (key @ (if home = inv_domain i then [] else home)))
       (INVITE_PREFIX @ lit ''14.'' @ encode64 (inv_secret i) @ [46] @ encode64 (inv_domain i)) (inv_members i)"

definition from_utf8 :: "bytes \<Rightarrow> link_error + bytes" where
  "from_utf8 bs = rbind (ensure (utf8 bs) NotUtf8) (\<lambda>_. Inr bs)"

definition invite_member ::
  "(bytes \<Rightarrow> bool) \<Rightarrow> (bytes \<Rightarrow> bytes option) \<Rightarrow> bytes \<Rightarrow> bytes \<Rightarrow> link_error + bytes \<times> bytes" where
  "invite_member is_domain decode64 domain f =
     rbind (context_of (decode64 f) Not64) (\<lambda>bs.
     rbind (ensure (32 \<le> length bs) KeyLength) (\<lambda>_.
     (let key = take 32 bs; home = drop 32 bs
      in rbind (if home = [] then Inr domain else from_utf8 home) (\<lambda>home.
         rbind (check_domain is_domain home) (\<lambda>_. Inr (key, home))))))"

text \<open>\<open>map(..).collect::<Result<Vec<_>>>()\<close>: the first error, or all the values.\<close>

fun collect :: "('a \<Rightarrow> 'e + 'b) \<Rightarrow> 'a list \<Rightarrow> 'e + 'b list" where
  "collect f [] = Inr []"
| "collect f (x # xs) = rbind (f x) (\<lambda>y. rbind (collect f xs) (\<lambda>ys. Inr (y # ys)))"

definition invite_parse :: "(bytes \<Rightarrow> bool) \<Rightarrow> (bytes \<Rightarrow> bytes option) \<Rightarrow> bytes \<Rightarrow> link_error + invite" where
  "invite_parse is_domain decode64 link =
     rbind (context_of (split_once 35 link) NoFragment) (\<lambda>(_, fragment).
     (let parts = split_on 46 fragment
      in rbind (ensure (hd parts = lit ''14'') OtherVersion) (\<lambda>_.
         rbind (ensure (length parts > 1) NoSecret) (\<lambda>_.
         rbind (context_of (decode64 (parts ! 1)) Not64) (\<lambda>secret.
         rbind (ensure (length secret = 16) SecretLength) (\<lambda>_.
         rbind (ensure (length parts > 2) NoDomain) (\<lambda>_.
         rbind (context_of (decode64 (parts ! 2)) Not64) (\<lambda>domain.
         rbind (from_utf8 domain) (\<lambda>domain.
         rbind (check_domain is_domain domain) (\<lambda>_.
         rbind (collect (invite_member is_domain decode64 domain) (drop 3 parts)) (\<lambda>members.
         rbind (ensure (members \<noteq> []) NoMember) (\<lambda>_.
           Inr \<lparr> inv_secret = secret, inv_domain = domain, inv_members = members \<rparr>))))))))))))"

text \<open>The parts of a link an invite is written as.\<close>

definition member_text :: "(bytes \<Rightarrow> bytes) \<Rightarrow> bytes \<Rightarrow> bytes \<times> bytes \<Rightarrow> bytes" where
  "member_text encode64 domain m = encode64 (fst m @ (if snd m = domain then [] else snd m))"

lemma invite_link_join:
  "invite_link encode64 i = INVITE_PREFIX @ join_with 46
     (lit ''14'' # encode64 (inv_secret i) # encode64 (inv_domain i) # map (member_text encode64 (inv_domain i)) (inv_members i))"
proof -
  have snoc: "join_with c (xs @ [x]) = join_with c xs @ c # x" if "xs \<noteq> []" for c x xs
    using that by (induction c xs rule: join_with.induct) auto
  let ?push = "\<lambda>link m. link @ [46] @ member_text encode64 (inv_domain i) m"
  have push: "(\<lambda>link (key, home). link @ [46] @ encode64 (key @ (if home = inv_domain i then [] else home))) = ?push"
    by (auto simp: fun_eq_iff member_text_def)
  have "foldl ?push (p @ join_with 46 xs) ms = p @ join_with 46 (xs @ map (member_text encode64 (inv_domain i)) ms)"
    if "xs \<noteq> []" for p xs ms
    using that
  proof (induction ms arbitrary: xs)
    case (Cons m ms)
    then show ?case
      using Cons.IH [of "xs @ [member_text encode64 (inv_domain i) m]"] by (simp add: snoc)
  qed simp
  from this [of "[lit ''14'', encode64 (inv_secret i), encode64 (inv_domain i)]" INVITE_PREFIX "inv_members i"]
  show ?thesis unfolding invite_link_def push by (simp add: lit_def)
qed

lemma collect_map:
  "(\<And>x. x \<in> set xs \<Longrightarrow> f (g x) = Inr x) \<Longrightarrow> collect f (map g xs) = Inr xs"
  by (induction xs) simp_all

lemma from_utf8_domain: "check_domain is_domain d = Inr () \<Longrightarrow> from_utf8 d = Inr d"
  by (simp add: from_utf8_def utf8_ascii check_domain_ascii)

lemma check_domain_neq_Nil: "check_domain is_domain d = Inr () \<Longrightarrow> d \<noteq> []"
  by (auto simp: check_domain_def split_once_def ensure_def label_ok_def)

definition invite_ok :: "(bytes \<Rightarrow> bool) \<Rightarrow> invite \<Rightarrow> bool" where
  "invite_ok is_domain i \<longleftrightarrow> length (inv_secret i) = 16 \<and> check_domain is_domain (inv_domain i) = Inr () \<and>
     inv_members i \<noteq> [] \<and>
     (\<forall>(key, home)\<in>set (inv_members i). length key = 32 \<and> check_domain is_domain home = Inr ())"

lemma invite_member_text:
  assumes "\<forall>b. decode64 (encode64 b) = Some b" and "length key = 32"
    and "check_domain is_domain domain = Inr ()" and "check_domain is_domain home = Inr ()"
  shows "invite_member is_domain decode64 domain (member_text encode64 domain (key, home)) = Inr (key, home)"
  using assms check_domain_neq_Nil [OF assms(4)]
  by (cases "home = domain") (simp_all add: invite_member_def member_text_def from_utf8_domain)

text \<open>
  An invite link parses back to its invite: the secret, the domain and every member with its home,
  the group's domain restored where the link leaves it out. The hypotheses on base64 are that decoding
  inverts encoding and that its alphabet has no dot.
\<close>

theorem invite_round_trip:
  assumes enc: "\<forall>b. decode64 (encode64 b) = Some b" "\<forall>b. 46 \<notin> set (encode64 b)"
    and ok: "invite_ok is_domain i"
  shows "invite_parse is_domain decode64 (invite_link encode64 i) = Inr i"
proof -
  let ?parts = "lit ''14'' # encode64 (inv_secret i) # encode64 (inv_domain i) #
    map (member_text encode64 (inv_domain i)) (inv_members i)"
  have "invite_link encode64 i = lit ''https://letmeknow.dev/i'' @ 35 # join_with 46 ?parts"
    by (simp add: invite_link_join INVITE_PREFIX_def lit_def del: join_with.simps)
  then have "split_once 35 (invite_link encode64 i) = Some (lit ''https://letmeknow.dev/i'', join_with 46 ?parts)"
    using split_once_append [of 35 "lit ''https://letmeknow.dev/i''" "join_with 46 ?parts"] by (simp add: lit_def del: join_with.simps)
  moreover have "split_on 46 (join_with 46 ?parts) = ?parts"
    using enc(2) by (intro split_on_join) (auto simp: member_text_def lit_def)
  moreover have "collect (invite_member is_domain decode64 (inv_domain i))
      (map (member_text encode64 (inv_domain i)) (inv_members i)) = Inr (inv_members i)"
    using ok enc(1) by (intro collect_map) (auto simp: invite_ok_def intro!: invite_member_text)
  moreover have "from_utf8 (inv_domain i) = Inr (inv_domain i)"
    using ok from_utf8_domain by (auto simp: invite_ok_def)
  ultimately show ?thesis
    using ok enc(1) by (simp add: invite_parse_def invite_ok_def)
qed

text \<open>A toy encoding that spells a dot otherwise, for the witness.\<close>

definition toy_encode64 :: "bytes \<Rightarrow> bytes" where
  "toy_encode64 bs = concat (map (\<lambda>b. if b = 46 then [0, 0] else [1, b]) bs)"

fun toy_decode64 :: "bytes \<Rightarrow> bytes option" where
  "toy_decode64 [] = Some []"
| "toy_decode64 (x # y # r) = map_option (Cons (if x = 0 then 46 else y)) (toy_decode64 r)"
| "toy_decode64 [x] = None"

lemma toy_decode_encode: "toy_decode64 (toy_encode64 bs) = Some bs"
  by (induction bs) (simp_all add: toy_encode64_def)

lemma toy_encode_dot_free: "46 \<notin> set (toy_encode64 bs)"
  by (auto simp: toy_encode64_def split: if_splits)

theorem invite_round_trip_witness:
  "let i = \<lparr> inv_secret = replicate 16 7, inv_domain = lit ''a-b.example:78'',
       inv_members = [(replicate 32 1, lit ''a-b.example:78''), (replicate 32 2, lit ''h.example'')] \<rparr>
   in invite_parse (\<lambda>_. True) toy_decode64 (invite_link toy_encode64 i) = Inr i"
proof -
  have "check_domain (\<lambda>_. True) (lit ''a-b.example:78'') = Inr ()"
    and "check_domain (\<lambda>_. True) (lit ''h.example'') = Inr ()"
    by (simp_all add: check_domain_def split_once_def lit_def label_ok_def port_ok_def parse_u16_def decimal.simps)
  then show ?thesis
    unfolding Let_def
    by (intro invite_round_trip) (simp_all add: toy_decode_encode toy_encode_dot_free invite_ok_def)
qed

end
