(* ===== verification/Chain.thy ===== *)
theory Chain
  imports Wire
begin

text \<open>
  A log's hash chain and the heads a membership service signs over it (\<open>crates/proto/src/head.rs\<close>,
  the answers of \<open>crates/proto/src/membership.rs\<close>), and a member's check of what a service sends
  (\<open>Frontier\<close>, \<open>crates/membership/src/chain.rs\<close>). The theorems say what an accepted page proves: the
  chain binds a log's entries, or two concrete messages with one digest are at hand.
\<close>

section \<open>Hashes and heads\<close>

definition reference_of :: "crypto \<Rightarrow> bytes \<Rightarrow> bytes \<Rightarrow> bytes" where
  "reference_of C service capability = sha256 C (lit ''letmeknow log reference v1'' @ [0] @ service @ capability)"

definition sealing :: "crypto \<Rightarrow> bytes \<Rightarrow> bytes" where
  "sealing C capability = sha256 C (lit ''letmeknow log sealing v1'' @ [0] @ capability)"

definition start :: "crypto \<Rightarrow> bytes \<Rightarrow> bytes \<Rightarrow> bytes" where
  "start C service log_ref = sha256 C (lit ''letmeknow log v2'' @ [0] @ service @ log_ref)"

definition nxt :: "crypto \<Rightarrow> bytes \<Rightarrow> bytes \<Rightarrow> bytes" where
  "nxt C prev e = sha256 C (prev @ sha256 C e)"

record head =
  h_log_ref :: bytes
  h_length :: u64
  h_hash :: bytes
  h_time :: u64
  h_sig :: bytes

definition head_signed :: "bytes \<Rightarrow> bytes \<Rightarrow> u64 \<Rightarrow> bytes \<Rightarrow> u64 \<Rightarrow> bytes" where
  "head_signed service log_ref len hash time =
     lit ''letmeknow head v2'' @ [0] @ service @ log_ref @ to_be 8 (unat len) @ hash @ to_be 8 (unat time)"

definition head_sign :: "crypto \<Rightarrow> bytes \<Rightarrow> bytes \<Rightarrow> u64 \<Rightarrow> bytes \<Rightarrow> u64 \<Rightarrow> head" where
  "head_sign C key log_ref len hash time =
     \<lparr> h_log_ref = log_ref, h_length = len, h_hash = hash, h_time = time,
       h_sig = ed_sign C key (head_signed (ed_public C key) log_ref len hash time) \<rparr>"

definition head_verify :: "crypto \<Rightarrow> bytes \<Rightarrow> head \<Rightarrow> bool" where
  "head_verify C key h \<longleftrightarrow> length (h_sig h) = 64 \<and>
     ed_verify C key (head_signed key (h_log_ref h) (h_length h) (h_hash h) (h_time h)) (h_sig h)"

record page =
  p_after :: u64
  p_entries :: "bytes list"
  p_head :: head

record expiry =
  e_log_ref :: bytes
  e_sig :: bytes

definition expiry_verify :: "crypto \<Rightarrow> bytes \<Rightarrow> expiry \<Rightarrow> bool" where
  "expiry_verify C key e \<longleftrightarrow> length (e_sig e) = 64 \<and> ed_verify C key (expiry_message (e_log_ref e)) (e_sig e)"

section \<open>The frontier\<close>

datatype proof_error = WrongLog | Forged | InvalidProof | Contradiction head head

record frontier =
  f_service :: bytes
  f_log_ref :: bytes
  f_length :: u64
  f_hash :: bytes
  f_head :: "head option"

definition frontier_empty :: "crypto \<Rightarrow> bytes \<Rightarrow> bytes \<Rightarrow> frontier" where
  "frontier_empty C service log_ref =
     \<lparr> f_service = service, f_log_ref = log_ref, f_length = 0, f_hash = start C service log_ref, f_head = None \<rparr>"

definition check :: "crypto \<Rightarrow> frontier \<Rightarrow> head \<Rightarrow> bytes option \<Rightarrow> proof_error + unit" where
  "check C f h hash_at =
     rbind (ensure (h_log_ref h = f_log_ref f) WrongLog) (\<lambda>_.
     rbind (ensure (ed_key C (f_service f)) WrongLog) (\<lambda>_.
     rbind (ensure (head_verify C (f_service f) h) Forged) (\<lambda>_.
     (let hash = (if h_length h = f_length f then Some (f_hash f)
                  else if h_length h < f_length f then hash_at else None)
      in if (case hash of None \<Rightarrow> False | Some x \<Rightarrow> h_hash h \<noteq> x)
         then (case f_head f of Some ours \<Rightarrow> Inl (Contradiction ours h) | None \<Rightarrow> Inl InvalidProof)
         else if h_length h = 0
         then ensure (h_hash h = start C (f_service f) (f_log_ref f)) InvalidProof
         else Inr ()))))"

definition from_head :: "crypto \<Rightarrow> bytes \<Rightarrow> bytes \<Rightarrow> head \<Rightarrow> proof_error + frontier" where
  "from_head C service log_ref h =
     (let f = frontier_empty C service log_ref
      in rbind (check C f h None) (\<lambda>_. Inr (f\<lparr>f_length := h_length h, f_hash := h_hash h, f_head := Some h\<rparr>)))"

definition verify_page :: "crypto \<Rightarrow> frontier \<Rightarrow> page \<Rightarrow> proof_error + page" where
  "verify_page C f p =
     rbind (check C f (p_head p) None) (\<lambda>_.
     rbind (ensure (p_after p = f_length f \<and> valid_page (p_entries p)) InvalidProof) (\<lambda>_.
     rbind (ensure (checked_add (p_after p) (word_of_nat (length (p_entries p))) = Some (h_length (p_head p)))
       InvalidProof) (\<lambda>_.
     (let hash = foldl (nxt C) (f_hash f) (p_entries p)
      in rbind (ensure (hash = h_hash (p_head p)) InvalidProof) (\<lambda>_. Inr p)))))"

section \<open>The chain binds its entries\<close>

abbreviation chain :: "crypto \<Rightarrow> bytes \<Rightarrow> bytes list \<Rightarrow> bytes" where
  "chain C \<equiv> foldl (nxt C)"

definition collides :: "crypto \<Rightarrow> (bytes \<times> bytes) option \<Rightarrow> bool" where
  "collides C r = (case r of None \<Rightarrow> False | Some (a, b) \<Rightarrow> a \<noteq> b \<and> sha256 C a = sha256 C b)"

text \<open>Two different messages with one digest, from two chains of one length that end in one hash.\<close>

fun find_collision :: "crypto \<Rightarrow> bytes \<Rightarrow> bytes list \<Rightarrow> bytes \<Rightarrow> bytes list \<Rightarrow> (bytes \<times> bytes) option" where
  "find_collision C h (e # es) h' (e' # es') =
     (let p = h @ sha256 C e; p' = h' @ sha256 C e'
      in if sha256 C p = sha256 C p' \<and> p \<noteq> p' then Some (p, p')
         else if sha256 C e = sha256 C e' \<and> e \<noteq> e' then Some (e, e')
         else find_collision C (nxt C h e) es (nxt C h' e') es')"
| "find_collision C h _ h' _ = None"

lemma chain_binds:
  assumes "digest_law C" and "length es = length es'" and "length h = length h'"
    and "chain C h es = chain C h' es'"
  shows "h = h' \<and> es = es' \<or> collides C (find_collision C h es h' es')"
  using assms(2-4)
proof (induction es es' arbitrary: h h' rule: list_induct2)
  case (Cons e es e' es')
  have len: "length (nxt C a b) = 32" for a b using assms(1) by (simp add: nxt_def digest_law_def)
  have "nxt C h e = nxt C h' e' \<and> es = es' \<or> collides C (find_collision C (nxt C h e) es (nxt C h' e') es')"
    using Cons.IH Cons.prems len by simp
  then show ?case
    using Cons.prems(1) by (auto simp: collides_def nxt_def Let_def)
qed simp

text \<open>
  C15. The chain binds the log: two logs of one service and reference with as many entries and one
  final hash hold the same entries, or the computed pair of different messages has one SHA-256 digest.
\<close>

theorem chain_binds_entries:
  assumes "digest_law C" and "length es = length es'"
    and "chain C (start C service log_ref) es = chain C (start C service log_ref) es'"
  shows "es = es' \<or> collides C (find_collision C (start C service log_ref) es (start C service log_ref) es')"
  using chain_binds [OF assms(1,2) _ assms(3)] by simp

theorem chain_binds_entries_witness:
  "[[1], [2]] = [[1], [2 :: u8]] \<or> collides toy_crypto (find_collision toy_crypto (start toy_crypto [] []) [[1], [2]]
     (start toy_crypto [] []) [[1], [2]])"
  using chain_binds_entries [OF toy_digest_law, of "[[1], [2]]" "[[1], [2]]" "[]" "[]"] by simp

section \<open>What a check proves\<close>

lemma check_Inr_iff:
  "check C f h hash_at = Inr () \<longleftrightarrow>
     h_log_ref h = f_log_ref f \<and> ed_key C (f_service f) \<and> head_verify C (f_service f) h \<and>
     (h_length h = f_length f \<longrightarrow> h_hash h = f_hash f) \<and>
     (h_length h < f_length f \<longrightarrow> (\<forall>x. hash_at = Some x \<longrightarrow> h_hash h = x)) \<and>
     (h_length h = 0 \<longrightarrow> h_hash h = start C (f_service f) (f_log_ref f))"
  unfolding check_def Let_def
  by (auto simp: rbind_Inr_iff ensure_Inr_iff split: if_splits option.splits)

lemma verify_page_Inr_iff:
  "verify_page C f p = Inr q \<longleftrightarrow>
     q = p \<and> check C f (p_head p) None = Inr () \<and> p_after p = f_length f \<and> valid_page (p_entries p) \<and>
     checked_add (p_after p) (word_of_nat (length (p_entries p))) = Some (h_length (p_head p)) \<and>
     chain C (f_hash f) (p_entries p) = h_hash (p_head p)"
  by (auto simp: verify_page_def rbind_Inr_iff ensure_Inr_iff)

text \<open>A frontier that stands at the end of \<open>es\<close>, by a head its service signed.\<close>

definition frontier_at :: "crypto \<Rightarrow> frontier \<Rightarrow> bytes list \<Rightarrow> bool" where
  "frontier_at C f es \<longleftrightarrow>
     unat (f_length f) = length es \<and> f_hash f = chain C (start C (f_service f) (f_log_ref f)) es \<and>
     (\<forall>h. f_head f = Some h \<longrightarrow> h_log_ref h = f_log_ref f \<and> head_verify C (f_service f) h \<and>
        h_length h = f_length f \<and> h_hash h = f_hash f)"

definition follow :: "frontier \<Rightarrow> page \<Rightarrow> frontier" where
  "follow f p = f\<lparr>f_length := h_length (p_head p), f_hash := h_hash (p_head p), f_head := Some (p_head p)\<rparr>"

lemma unat_of_length:
  assumes "checked_add a (word_of_nat n) = Some b" and "n < 2 ^ 64"
  shows "unat b = unat a + n"
proof -
  have n: "unat (word_of_nat n :: u64) = n" using assms(2) by (simp add: unat_of_nat)
  then show ?thesis
    using assms(1) by (auto simp: checked_add_def unat_word_ariths split: if_splits)
qed

lemma verify_page_follow:
  assumes "frontier_at C f es" and "verify_page C f p = Inr q"
  shows "frontier_at C (follow f p) (es @ p_entries p)"
proof -
  have p: "check C f (p_head p) None = Inr ()" "valid_page (p_entries p)" "p_after p = f_length f"
    "checked_add (p_after p) (word_of_nat (length (p_entries p))) = Some (h_length (p_head p))"
    "chain C (f_hash f) (p_entries p) = h_hash (p_head p)"
    using assms(2) unfolding verify_page_Inr_iff by blast+
  have "length (p_entries p) < 2 ^ 64" using p(2) by (simp add: valid_page_def limit_defs)
  then have "unat (h_length (p_head p)) = length es + length (p_entries p)"
    using unat_of_length [OF p(4)] p(3) assms(1) by (simp add: frontier_at_def)
  then show ?thesis
    using assms(1) p(1,5) by (auto simp: frontier_at_def follow_def check_Inr_iff)
qed

text \<open>
  C14. A page accepted at a frontier extends exactly the log the frontier stands for: the new head is
  signed by the log's service and is the head of the old entries followed by the page's.
\<close>

theorem accepted_page_extends_log:
  assumes "frontier_at C f es" and "verify_page C f p = Inr q"
  shows "q = p \<and> frontier_at C (follow f p) (es @ p_entries p) \<and>
    head_verify C (f_service f) (p_head p) \<and> h_log_ref (p_head p) = f_log_ref f \<and>
    unat (h_length (p_head p)) = length es + length (p_entries p) \<and>
    h_hash (p_head p) = chain C (start C (f_service f) (f_log_ref f)) (es @ p_entries p)"
  using verify_page_follow [OF assms] assms(2) by (auto simp: frontier_at_def follow_def verify_page_Inr_iff)

definition toy_page :: page where
  "toy_page = \<lparr> p_after = 0, p_entries = [[1, 2], [3]],
     p_head = head_sign toy_crypto [] [] 2
       (chain toy_crypto (start toy_crypto (ed_public toy_crypto []) []) [[1, 2], [3]]) 5 \<rparr>"

theorem accepted_page_extends_log_witness:
  "unat (h_length (p_head toy_page)) = length ([] :: bytes list) + length (p_entries toy_page)"
proof -
  let ?f = "frontier_empty toy_crypto (ed_public toy_crypto []) []"
  have "frontier_at toy_crypto ?f []" by (simp add: frontier_at_def frontier_empty_def)
  moreover have "verify_page toy_crypto ?f toy_page = Inr toy_page"
    using toy_sign_law [of "[]"]
    by (auto simp: verify_page_Inr_iff check_Inr_iff frontier_empty_def toy_page_def head_sign_def
        head_verify_def sign_law_def valid_page_def limit_defs encoded_page_bytes_def encoded_entry_bytes_def
        div_ceil_def checked_add_def)
  ultimately show ?thesis using accepted_page_extends_log by blast
qed

text \<open>
  C13. A contradiction is proof against the service: the two heads it carries are both signed by the
  service for this log, and no log has both: from any entries that agree with both heads a colliding
  pair is computed. (\<open>hash_at\<close> is the caller's own path's hash, as the code asks.)
\<close>

theorem contradiction_convicts:
  assumes law: "digest_law C" and at: "frontier_at C f es"
    and path: "\<forall>x. hash_at = Some x \<longrightarrow>
      unat (h_length h) \<le> length es \<longrightarrow> x = chain C (start C (f_service f) (f_log_ref f)) (take (unat (h_length h)) es)"
    and err: "check C f h hash_at = Inl (Contradiction ours theirs)"
  shows "theirs = h \<and> f_head f = Some ours \<and>
    head_verify C (f_service f) ours \<and> head_verify C (f_service f) theirs \<and>
    h_log_ref ours = f_log_ref f \<and> h_log_ref theirs = f_log_ref f \<and>
    (\<forall>log. length log = unat (h_length ours) \<and>
       h_hash ours = chain C (start C (f_service f) (f_log_ref f)) log \<and>
       h_hash theirs = chain C (start C (f_service f) (f_log_ref f)) (take (unat (h_length theirs)) log) \<longrightarrow>
       collides C (find_collision C (start C (f_service f) (f_log_ref f)) log (start C (f_service f) (f_log_ref f)) es))"
proof -
  let ?s = "start C (f_service f) (f_log_ref f)"
  have sigs: "theirs = h" "f_head f = Some ours" "head_verify C (f_service f) h" "h_log_ref h = f_log_ref f"
    using err unfolding check_def Let_def
    by (auto simp: rbind_def ensure_def split: if_splits option.splits sum.splits)
  have ours: "head_verify C (f_service f) ours" "h_log_ref ours = f_log_ref f" "h_length ours = f_length f"
    "h_hash ours = f_hash f" using at sigs(2) by (simp_all add: frontier_at_def)
  have hash: "unat (h_length h) \<le> length es" "h_hash h \<noteq> chain C ?s (take (unat (h_length h)) es)"
    using err at path unfolding check_def Let_def
    by (auto simp: rbind_def ensure_def frontier_at_def word_less_nat_alt split: if_splits option.splits sum.splits)
  have "collides C (find_collision C ?s log ?s es)"
    if log: "length log = unat (h_length ours)" "h_hash ours = chain C ?s log"
      "h_hash theirs = chain C ?s (take (unat (h_length theirs)) log)" for log
  proof -
    have "log \<noteq> es" using hash(2) log(3) sigs(1) by auto
    then show ?thesis
      using chain_binds [OF law, of log es ?s ?s] log at ours by (auto simp: frontier_at_def)
  qed
  then show ?thesis using sigs ours by auto
qed

theorem contradiction_convicts_witness:
  "let service = ed_public toy_crypto []; log_start = start toy_crypto service [];
       ours = head_sign toy_crypto [] [] 1 (chain toy_crypto log_start [[1]]) 5;
       theirs = head_sign toy_crypto [] [] 1 (9 # replicate 31 9) 6;
       f = \<lparr> f_service = service, f_log_ref = [], f_length = 1, f_hash = chain toy_crypto log_start [[1]],
              f_head = Some ours \<rparr>
   in check toy_crypto f theirs None = Inl (Contradiction ours theirs) \<and>
      head_verify toy_crypto service ours \<and> head_verify toy_crypto service theirs"
proof -
  define service where "service = ed_public toy_crypto []"
  define hash where "hash = chain toy_crypto (start toy_crypto service []) [[1]]"
  define ours where "ours = head_sign toy_crypto [] [] 1 hash 5"
  define theirs where "theirs = head_sign toy_crypto [] [] 1 (9 # replicate 31 9) 6"
  define f where "f = \<lparr> f_service = service, f_log_ref = [], f_length = 1, f_hash = hash, f_head = Some ours \<rparr>"
  have signed: "head_verify toy_crypto service (head_sign toy_crypto [] [] n x t)" for n x t
    using toy_sign_law [of "[]"] by (simp add: head_verify_def head_sign_def service_def sign_law_def)
  have "hash \<noteq> 9 # replicate 31 9"
    by (simp add: hash_def nxt_def start_def toy_crypto_def service_def lit_def)
  then have err: "check toy_crypto f theirs None = Inl (Contradiction ours theirs)"
    using signed toy_sign_law [of "[]"]
    by (simp add: check_def f_def theirs_def ours_def head_sign_def service_def sign_law_def)
  have "frontier_at toy_crypto f [[1]]"
    using signed by (simp add: frontier_at_def f_def ours_def hash_def head_sign_def)
  from contradiction_convicts [OF toy_digest_law this _ err]
  show ?thesis using err by (simp add: Let_def f_def service_def ours_def theirs_def hash_def)
qed

end
