(* ===== verification/Store.thy ===== *)
theory Store
  imports Chain "HOL-Library.AList" "HOL-Library.Multiset"
begin

text \<open>
  The membership service's durable store (\<open>crates/membership/src/store.rs\<close>). The four SQLite tables
  are association lists: a lookup is \<open>map_of\<close>, an insert fails on a key that is there, as a primary key
  makes it, and an integer past \<open>i64\<close> fails to bind. The order in which a query without \<open>ORDER BY\<close> scans
  its rows is SQLite's: the parameter \<open>pick\<close> chooses each next row, so a theorem for every \<open>pick\<close> holds
  for every scan order. A transaction is a function from tables to tables or an error, which leaves the
  tables as they were. The clock's readings, the nonces of the seals and the size of the database's files
  are arguments. Creating and opening the files (\<open>initialize\<close>, \<open>open\<close>) is not modelled.
\<close>

section \<open>State\<close>

datatype store_error = Refused bytes | ExpiredLog bytes | Corrupt | SqlConflict | SqlRange

definition MARK_LOGS :: nat where "MARK_LOGS = 1024"
definition EXPIRE_ROWS :: nat where "EXPIRE_ROWS = 1024"
definition EXPIRE_BYTES :: nat where "EXPIRE_BYTES = 4 * 2 ^ 20"
definition DAY_MS :: nat where "DAY_MS = 86400000"

record store =
  s_key :: bytes
  s_disk :: nat
  anchors :: "(bytes \<times> nat \<times> bytes) list"
  expired :: "(bytes \<times> nat) list"
  doomed :: "bytes list"
  records :: "((bytes \<times> nat) \<times> bytes) list"

record log =
  l_reference :: bytes
  l_key :: bytes

text \<open>The rows a query scans, in the order \<open>pick\<close> chooses.\<close>

function scan :: "('a list \<Rightarrow> nat) \<Rightarrow> 'a list \<Rightarrow> 'a list" where
  "scan pick xs =
     (if xs = [] then []
      else (let i = pick xs mod length xs in xs ! i # scan pick (take i xs @ drop (Suc i) xs)))"
  by pat_completeness auto
termination
proof (relation "measure (\<lambda>(_, xs). length xs)", goal_cases)
  case (2 pick xs i)
  then have "i < length xs" by simp
  then show ?case by auto
qed simp

declare scan.simps [simp del]

lemma mset_scan [simp]: "mset (scan pick xs) = mset xs"
proof (induction pick xs rule: scan.induct)
  case (1 pick xs)
  show ?case
  proof (cases "xs = []")
    case False
    let ?i = "pick xs mod length xs"
    have "?i < length xs" using False by simp
    then have "mset xs = add_mset (xs ! ?i) (mset (take ?i xs @ drop (Suc ?i) xs))"
      using id_take_nth_drop [of ?i xs] by (metis mset.simps(2) mset_append union_mset_add_mset_right)
    then show ?thesis
      using 1 [OF False refl] False by (simp add: scan.simps [of pick xs] Let_def)
  qed (simp add: scan.simps)
qed

lemma set_scan [simp]: "set (scan pick xs) = set xs"
  by (metis mset_scan set_mset_mset)

lemma distinct_scan [simp]: "distinct (scan pick xs) = distinct xs"
  by (metis mset_scan mset_eq_imp_distinct_iff)

lemma length_scan [simp]: "length (scan pick xs) = length xs"
  by (metis mset_scan size_mset)

section \<open>Sealed rows\<close>

definition seal_row :: "crypto \<Rightarrow> bytes \<Rightarrow> bytes \<Rightarrow> bytes \<Rightarrow> bytes" where
  "seal_row C nonce key plain = nonce @ aead_seal C key nonce plain"

definition open_row :: "crypto \<Rightarrow> bytes \<Rightarrow> bytes \<Rightarrow> store_error + bytes" where
  "open_row C key sealed =
     (if length sealed < 24 then Inl Corrupt
      else context_of (aead_open C key (take 24 sealed) (drop 24 sealed)) Corrupt)"

text \<open>A record's entry and the head hash after it; a plaintext without a hash panics.\<close>

definition record_of :: "crypto \<Rightarrow> bytes \<Rightarrow> bytes \<Rightarrow> store_error + bytes \<times> bytes" where
  "record_of C key sealed =
     rbind (open_row C key sealed) (\<lambda>plain.
     rbind (ensure (32 \<le> length plain) Corrupt) (\<lambda>_.
       Inr (take (length plain - 32) plain, drop (length plain - 32) plain)))"

definition tip :: "crypto \<Rightarrow> store \<Rightarrow> log \<Rightarrow> store_error + (nat \<times> bytes) option" where
  "tip C st l =
     (case map_of (anchors st) (l_reference l) of
        None \<Rightarrow> if map_of (expired st) (l_reference l) \<noteq> None then Inl (ExpiredLog (l_reference l)) else Inr None
      | Some (_, sealed) \<Rightarrow>
          rbind (open_row C (l_key l) sealed) (\<lambda>state.
          rbind (ensure (length state = 40) Corrupt) (\<lambda>_. Inr (Some (from_be (take 8 state), drop 8 state)))))"

definition log_for :: "crypto \<Rightarrow> store \<Rightarrow> bytes \<Rightarrow> log" where
  "log_for C st capability =
     \<lparr> l_reference = reference_of C (ed_public C (s_key st)) capability, l_key = sealing C capability \<rparr>"

definition store_sign :: "crypto \<Rightarrow> store \<Rightarrow> bytes \<Rightarrow> nat \<Rightarrow> bytes \<Rightarrow> u64 \<Rightarrow> head" where
  "store_sign C st log_ref len hash now = head_sign C (s_key st) log_ref (word_of_nat len) hash now"

definition log_state :: "crypto \<Rightarrow> store \<Rightarrow> log \<Rightarrow> store_error + nat \<times> bytes" where
  "log_state C st l =
     rbind (tip C st l) (\<lambda>t. Inr (case t of Some s \<Rightarrow> s
       | None \<Rightarrow> (0, start C (ed_public C (s_key st)) (l_reference l))))"

definition records_log :: "crypto \<Rightarrow> store \<Rightarrow> log \<Rightarrow> store_error + bool" where
  "records_log C st l = rbind (tip C st l) (\<lambda>t. Inr (t \<noteq> None))"

section \<open>Append and read\<close>

text \<open>Binding a \<open>u64\<close>, and an insert under a primary key.\<close>

definition sql_int :: "nat \<Rightarrow> store_error + nat" where
  "sql_int n = (if n < 2 ^ 63 then Inr n else Inl SqlRange)"

definition insert_row :: "'k \<Rightarrow> 'v \<Rightarrow> ('k \<times> 'v) list \<Rightarrow> store_error + ('k \<times> 'v) list" where
  "insert_row k v rows = (if map_of rows k = None then Inr ((k, v) # rows) else Inl SqlConflict)"

text \<open>The loop over the entries: the records inserted, and the hash after the last.\<close>

fun append_rows ::
  "crypto \<Rightarrow> (nat \<Rightarrow> bytes) \<Rightarrow> log \<Rightarrow> nat \<Rightarrow> bytes \<Rightarrow> bytes list \<Rightarrow> ((bytes \<times> nat) \<times> bytes) list \<Rightarrow>
     store_error + ((bytes \<times> nat) \<times> bytes) list \<times> bytes" where
  "append_rows C nonce l pos hash [] rows = Inr (rows, hash)"
| "append_rows C nonce l pos hash (e # es) rows =
     (let hash = nxt C hash e; sealed = seal_row C (nonce pos) (l_key l) (e @ hash)
      in rbind (sql_int (pos + 1)) (\<lambda>p.
         rbind (insert_row (l_reference l, p) sealed rows) (\<lambda>rows.
           append_rows C nonce l (pos + 1) hash es rows)))"

definition upsert_anchor :: "bytes \<Rightarrow> nat \<Rightarrow> bytes \<Rightarrow> (bytes \<times> nat \<times> bytes) list \<Rightarrow> (bytes \<times> nat \<times> bytes) list" where
  "upsert_anchor reference now sealed as =
     (case map_of as reference of
        None \<Rightarrow> AList.update reference (now, sealed) as
      | Some (at, _) \<Rightarrow> AList.update reference (at, sealed) as)"

text \<open>\<open>nonce i\<close> is the fresh nonce of the record at \<open>i + 1\<close>, \<open>state_nonce\<close> that of the log's state.\<close>

definition store_append ::
  "crypto \<Rightarrow> store \<Rightarrow> (nat \<Rightarrow> bytes) \<Rightarrow> bytes \<Rightarrow> nat \<Rightarrow> nat \<Rightarrow> u64 \<Rightarrow> log \<Rightarrow> bytes list \<Rightarrow> store_error + head \<times> store" where
  "store_append C st nonce state_nonce used now signed_at l entries =
     rbind (ensure (valid_append entries) (Refused (lit ''size''))) (\<lambda>_.
     (let bytes = sum_list (map length entries)
      in rbind (log_state C st l) (\<lambda>(len, hash).
         rbind (ensure (used + bytes \<le> s_disk st) (Refused (lit ''quota''))) (\<lambda>_.
         (let end = len + length entries
          in rbind (append_rows C nonce l len hash entries (records st)) (\<lambda>(rows, hash).
             (let state = seal_row C state_nonce (l_key l) (to_be 8 end @ hash)
              in rbind (sql_int now) (\<lambda>now.
                 Inr (store_sign C st (l_reference l) end hash signed_at,
                   st\<lparr>records := rows, anchors := upsert_anchor (l_reference l) now state (anchors st)\<rparr>))))))))) "

text \<open>\<open>READ_RECORDS\<close>: the sealed records of a log after a position, in order.\<close>

definition read_records :: "store \<Rightarrow> bytes \<Rightarrow> nat \<Rightarrow> nat \<Rightarrow> bytes list" where
  "read_records st reference after limit =
     map snd (take limit (sort_key (\<lambda>((_, position), _). position)
       (filter (\<lambda>((ref, position), _). ref = reference \<and> position > after) (records st))))"

fun read_rows :: "crypto \<Rightarrow> bytes \<Rightarrow> nat \<Rightarrow> bytes \<Rightarrow> bytes list \<Rightarrow> store_error + bytes list \<times> bytes" where
  "read_rows C key encoded hash [] = Inr ([], hash)"
| "read_rows C key encoded hash (row # rows) =
     rbind (record_of C key row) (\<lambda>(entry, next_hash).
     (let size = encoded_entry_bytes entry
      in if encoded + size > MAX_BODY then Inr ([], hash)
         else rbind (read_rows C key (encoded + size) next_hash rows) (\<lambda>(entries, hash). Inr (entry # entries, hash))))"

definition store_read :: "crypto \<Rightarrow> store \<Rightarrow> u64 \<Rightarrow> log \<Rightarrow> nat \<Rightarrow> store_error + page" where
  "store_read C st signed_at l after =
     rbind (log_state C st l) (\<lambda>(len, hash).
     rbind (ensure (after \<le> len) (Refused (lit ''policy''))) (\<lambda>_.
     rbind (sql_int after) (\<lambda>after.
     rbind (read_rows C (l_key l) PAGE_OVERHEAD hash (read_records st (l_reference l) after PAGE_ROWS)) (\<lambda>(entries, hash).
       Inr \<lparr> p_after = word_of_nat after, p_entries = entries,
              p_head = store_sign C st (l_reference l) (after + length entries) hash signed_at \<rparr>))))"

fun moved :: "crypto \<Rightarrow> store \<Rightarrow> u64 \<Rightarrow> (log \<times> nat) list \<Rightarrow> store_error + head list \<times> bytes list" where
  "moved C st signed_at [] = Inr ([], [])"
| "moved C st signed_at ((l, len) # logs) =
     (case log_state C st l of
        Inr (held, hash) \<Rightarrow>
          rbind (moved C st signed_at logs) (\<lambda>(heads, gone).
            Inr (if held \<noteq> len then (store_sign C st (l_reference l) held hash signed_at # heads, gone) else (heads, gone)))
      | Inl (ExpiredLog r) \<Rightarrow>
          rbind (moved C st signed_at logs) (\<lambda>(heads, gone). Inr (heads, l_reference l # gone))
      | Inl e \<Rightarrow> Inl e)"

section \<open>Expiry\<close>

definition doomed_records :: "store \<Rightarrow> bytes \<Rightarrow> nat \<Rightarrow> (nat \<times> nat) list" where
  "doomed_records st reference limit =
     take limit (sort_key fst (map (\<lambda>((_, position), sealed). (position, length sealed))
       (filter (\<lambda>((ref, _), _). ref = reference) (records st))))"

text \<open>The inner loop of \<open>reap\<close>: \<open>None\<close> when the pass's bytes are used up.\<close>

fun reap_batch :: "store \<Rightarrow> bytes \<Rightarrow> (nat \<times> nat) list \<Rightarrow> nat \<Rightarrow> nat \<Rightarrow> store \<times> (nat \<times> nat) option" where
  "reap_batch st reference [] rows bytes = (st, Some (rows, bytes))"
| "reap_batch st reference ((position, sz) # batch) rows bytes =
     (if bytes + sz > EXPIRE_BYTES then (st, None)
      else reap_batch (st\<lparr>records := AList.delete (reference, position) (records st)\<rparr>) reference batch (rows + 1) (bytes + sz))"

lemma reap_batch_fields [simp]:
  "anchors (fst (reap_batch st r b n m)) = anchors st"
  "expired (fst (reap_batch st r b n m)) = expired st"
  "doomed (fst (reap_batch st r b n m)) = doomed st"
  by (induction st r b n m rule: reap_batch.induct) simp_all

lemma length_delete_le: "length (AList.delete k al) \<le> length al"
  by (simp add: AList.length_delete_le)

lemma length_delete_less: "k \<in> fst ` set al \<Longrightarrow> length (AList.delete k al) < length al"
proof -
  assume "k \<in> fst ` set al"
  then obtain v where "(k, v) \<in> set al" by auto
  then show ?thesis unfolding AList.delete_eq by (rule length_filter_less) simp
qed

lemma reap_batch_records_le: "length (records (fst (reap_batch st r b n m))) \<le> length (records st)"
proof (induction st r b n m rule: reap_batch.induct)
  case (2 st r p s b n m)
  then show ?case using length_delete_le [of "(r, p)" "records st"] by auto
qed simp

lemma doomed_records_mem:
  "(p, s) \<in> set (doomed_records st r n) \<Longrightarrow> \<exists>sealed. ((r, p), sealed) \<in> set (records st) \<and> s = length sealed"
  unfolding doomed_records_def by (auto dest!: in_set_takeD)

lemma reap_batch_progress:
  assumes "doomed_records st r k = ps # batch" and "reap_batch st r (ps # batch) n m = (st', Some x)"
  shows "length (records st') < length (records st)"
proof -
  obtain p s where ps: "ps = (p, s)" by (cases ps)
  have "(r, p) \<in> fst ` set (records st)"
    using doomed_records_mem [of p s st r k] assms(1) ps by force
  moreover have "st' = fst (reap_batch (st\<lparr>records := AList.delete (r, p) (records st)\<rparr>) r batch (n + 1) (m + s))"
    using assms(2) ps by (auto split: if_splits)
  ultimately show ?thesis
    using reap_batch_records_le [of "st\<lparr>records := AList.delete (r, p) (records st)\<rparr>" r batch "n + 1" "m + s"]
      length_delete_less [of "(r, p)" "records st"] by simp
qed

definition next_doomed :: "(bytes list \<Rightarrow> nat) \<Rightarrow> store \<Rightarrow> bytes option" where
  "next_doomed pick st = (case scan pick (doomed st) of [] \<Rightarrow> None | r # _ \<Rightarrow> Some r)"

lemma next_doomed_mem: "next_doomed pick st = Some r \<Longrightarrow> r \<in> set (doomed st)"
  unfolding next_doomed_def by (metis list.case_eq_if list.set_sel(1) option.discI option.inject set_scan)

lemma next_doomed_None: "next_doomed pick st = None \<longleftrightarrow> doomed st = []"
  unfolding next_doomed_def by (metis length_0_conv length_scan list.case_eq_if option.discI)

function reap :: "(bytes list \<Rightarrow> nat) \<Rightarrow> store \<Rightarrow> nat \<Rightarrow> nat \<Rightarrow> store \<times> bool" where
  "reap pick st rows bytes =
     (if rows = EXPIRE_ROWS then (st, True)
      else case next_doomed pick st of
        None \<Rightarrow> (st, False)
      | Some reference \<Rightarrow>
          (case doomed_records st reference (EXPIRE_ROWS - rows) of
             [] \<Rightarrow> reap pick (st\<lparr>doomed := removeAll reference (doomed st)\<rparr>) rows bytes
           | b # batch \<Rightarrow>
               (case reap_batch st reference (b # batch) rows bytes of
                  (st', None) \<Rightarrow> (st', True)
                | (st', Some (rows', bytes')) \<Rightarrow> reap pick st' rows' bytes')))"
  by pat_completeness auto
termination
proof (relation "measure (\<lambda>(_, st, _, _). length (doomed st) + length (records st))", goal_cases)
  case (2 pick st rows bytes reference)
  then show ?case using next_doomed_mem [of pick st reference] by (simp add: length_removeAll_less)
next
  case (3 pick st rows bytes reference b batch st' x y rows' bytes')
  then have run: "reap_batch st reference (b # batch) rows bytes = (st', Some y)" by simp
  have "length (records st') < length (records st)" using reap_batch_progress [OF 3(3) run] .
  moreover have "doomed st' = doomed st" using reap_batch_fields(3) [of st reference "b # batch" rows bytes] run by simp
  ultimately show ?case by simp
qed simp

declare reap.simps [simp del]

text \<open>The loop over the logs to let go.\<close>

fun let_go_logs :: "nat \<Rightarrow> bytes list \<Rightarrow> store \<Rightarrow> store_error + store" where
  "let_go_logs now [] st = Inr st"
| "let_go_logs now (r # rs) st =
     rbind (insert_row r now (expired st)) (\<lambda>gone.
     rbind (if r \<in> set (doomed st) then Inl SqlConflict else Inr (r # doomed st)) (\<lambda>dead.
       let_go_logs now rs (st\<lparr>anchors := AList.delete r (anchors st), expired := gone, doomed := dead\<rparr>)))"

definition forgotten_logs :: "(bytes list \<Rightarrow> nat) \<Rightarrow> store \<Rightarrow> nat \<Rightarrow> bytes list" where
  "forgotten_logs pick st before =
     take MARK_LOGS (scan pick (map fst (filter (\<lambda>(r, at). at < before \<and> r \<notin> set (doomed st)) (expired st))))"

definition expiring_logs :: "(bytes list \<Rightarrow> nat) \<Rightarrow> store \<Rightarrow> nat \<Rightarrow> bytes list" where
  "expiring_logs pick st before =
     take MARK_LOGS (scan pick (map fst (filter (\<lambda>(r, at, _). at < before) (anchors st))))"

definition store_expire :: "(bytes list \<Rightarrow> nat) \<Rightarrow> store \<Rightarrow> nat \<Rightarrow> nat \<Rightarrow> store_error + bool \<times> store" where
  "store_expire pick st now before =
     (let forgotten = forgotten_logs pick st (now - EXPIRED_DAYS * DAY_MS);
          st = st\<lparr>expired := filter (\<lambda>(r, _). r \<notin> set forgotten) (expired st)\<rparr>;
          logs = expiring_logs pick st before
      in rbind (let_go_logs now logs st) (\<lambda>st.
         (case reap pick st 0 0 of (st, left) \<Rightarrow>
            Inr (left \<or> length logs = MARK_LOGS \<or> length forgotten = MARK_LOGS, st))))"

end
