(* ===== verification/Store_Spec.thy ===== *)
theory Store_Spec
  imports Store
begin

text \<open>
  What the store promises: a log is a list of entries that an append extends and a read gives back page
  by page, each page acceptable to a member's frontier, and expiry removes whole old logs, in bounded
  passes, and nothing else. \<open>log_holds\<close> relates the tables to a log's entries; \<open>wf_store\<close> is the
  invariant of the tables.
\<close>

section \<open>The abstraction\<close>

definition store_start :: "crypto \<Rightarrow> store \<Rightarrow> log \<Rightarrow> bytes" where
  "store_start C st l = start C (ed_public C (s_key st)) (l_reference l)"

definition anchored :: "crypto \<Rightarrow> store \<Rightarrow> log \<Rightarrow> bytes list \<Rightarrow> bool" where
  "anchored C st l es \<longleftrightarrow>
     (\<exists>at sealed. map_of (anchors st) (l_reference l) = Some (at, sealed) \<and>
        open_row C (l_key l) sealed = Inr (to_be 8 (length es) @ chain C (store_start C st l) es))"

definition recorded :: "crypto \<Rightarrow> store \<Rightarrow> log \<Rightarrow> bytes list \<Rightarrow> bool" where
  "recorded C st l es \<longleftrightarrow>
     (\<forall>p. map_of (records st) (l_reference l, p) \<noteq> None \<longleftrightarrow> 1 \<le> p \<and> p \<le> length es) \<and>
     (\<forall>i<length es. record_of C (l_key l) (the (map_of (records st) (l_reference l, Suc i))) =
        Inr (es ! i, chain C (store_start C st l) (take (Suc i) es)))"

definition log_holds :: "crypto \<Rightarrow> store \<Rightarrow> log \<Rightarrow> bytes list \<Rightarrow> bool" where
  "log_holds C st l es \<longleftrightarrow>
     (if es = [] then map_of (anchors st) (l_reference l) = None \<and> map_of (expired st) (l_reference l) = None
      else anchored C st l es) \<and>
     recorded C st l es \<and> length es < 2 ^ 63 \<and> (\<forall>e\<in>set es. e \<noteq> [] \<and> length e \<le> MAX_ENTRY)"

definition wf_store :: "store \<Rightarrow> bool" where
  "wf_store st \<longleftrightarrow>
     distinct (map fst (anchors st)) \<and> distinct (map fst (expired st)) \<and> distinct (doomed st) \<and>
     distinct (map fst (records st)) \<and>
     set (doomed st) \<subseteq> fst ` set (expired st) \<and> fst ` set (anchors st) \<inter> fst ` set (expired st) = {} \<and>
     (\<forall>row\<in>set (records st). fst (fst row) \<in> fst ` set (anchors st) \<union> set (doomed st) \<and>
        length (snd row) \<le> EXPIRE_BYTES)"

definition same_log :: "store \<Rightarrow> store \<Rightarrow> bytes \<Rightarrow> bool" where
  "same_log st st' r \<longleftrightarrow>
     map_of (anchors st') r = map_of (anchors st) r \<and> map_of (expired st') r = map_of (expired st) r \<and>
     (\<forall>p. map_of (records st') (r, p) = map_of (records st) (r, p))"

lemma log_holds_same: "same_log st st' (l_reference l) \<Longrightarrow> s_key st' = s_key st \<Longrightarrow>
    log_holds C st' l es = log_holds C st l es"
  by (simp add: same_log_def log_holds_def anchored_def recorded_def store_start_def)

lemma live_not_expired: "wf_store st \<Longrightarrow> map_of (anchors st) r = Some x \<Longrightarrow> map_of (expired st) r = None"
proof -
  assume wf: "wf_store st" and "map_of (anchors st) r = Some x"
  then have "r \<in> fst ` set (anchors st)" by (force dest: map_of_SomeD)
  then have "r \<notin> fst ` set (expired st)" using wf unfolding wf_store_def by blast
  then show ?thesis by (simp add: map_of_eq_None_iff)
qed

section \<open>Rows\<close>

lemma open_seal_row: "aead_law C \<Longrightarrow> length nonce = 24 \<Longrightarrow> open_row C key (seal_row C nonce key plain) = Inr plain"
  by (simp add: open_row_def seal_row_def aead_law_def)

lemma length_nxt: "digest_law C \<Longrightarrow> length (nxt C h e) = 32"
  by (simp add: nxt_def digest_law_def)

lemma length_chain: "digest_law C \<Longrightarrow> length h = 32 \<Longrightarrow> length (chain C h es) = 32"
  by (induction es arbitrary: h) (simp_all add: length_nxt)

lemma length_start: "digest_law C \<Longrightarrow> length (start C s r) = 32"
  by (simp add: start_def digest_law_def)

lemma record_seal_row:
  "aead_law C \<Longrightarrow> length nonce = 24 \<Longrightarrow> length hash = 32 \<Longrightarrow>
     record_of C key (seal_row C nonce key (e @ hash)) = Inr (e, hash)"
  by (simp add: record_of_def open_seal_row)

lemma tip_holds:
  assumes "log_holds C st l es" and "digest_law C"
  shows "tip C st l = Inr (if es = [] then None else Some (length es, chain C (store_start C st l) es))"
proof (cases "es = []")
  case False
  have "length (chain C (store_start C st l) es) = 32"
    using assms(2) by (simp add: length_chain length_start store_start_def)
  moreover have "length es < 256 ^ 8" using assms(1) by (simp add: log_holds_def)
  ultimately show ?thesis
    using assms(1) False by (auto simp: tip_def log_holds_def anchored_def from_to_be)
qed (use assms in \<open>simp add: tip_def log_holds_def\<close>)

lemma log_state_holds:
  "log_holds C st l es \<Longrightarrow> digest_law C \<Longrightarrow> log_state C st l = Inr (length es, chain C (store_start C st l) es)"
  by (simp add: log_state_def tip_holds store_start_def)

section \<open>Append\<close>

text \<open>The sealed record of the entry at position \<open>p\<close>, of entries appended after \<open>pos\<close>.\<close>

definition row_at :: "crypto \<Rightarrow> (nat \<Rightarrow> bytes) \<Rightarrow> log \<Rightarrow> nat \<Rightarrow> bytes \<Rightarrow> bytes list \<Rightarrow> nat \<Rightarrow> bytes" where
  "row_at C nonce l pos hash es p =
     seal_row C (nonce (p - 1)) (l_key l) (es ! (p - Suc pos) @ chain C hash (take (p - pos) es))"

definition free_after :: "((bytes \<times> nat) \<times> bytes) list \<Rightarrow> bytes \<Rightarrow> nat \<Rightarrow> bool" where
  "free_after rows r pos \<longleftrightarrow> (\<forall>p>pos. map_of rows (r, p) = None)"

lemma append_rows_spec:
  assumes "free_after rows (l_reference l) pos" and "pos + length es < 2 ^ 63"
  shows "\<exists>rows'. append_rows C nonce l pos hash es rows = Inr (rows', chain C hash es) \<and>
    (\<forall>r p. map_of rows' (r, p) =
      (if r = l_reference l \<and> pos < p \<and> p \<le> pos + length es then Some (row_at C nonce l pos hash es p)
       else map_of rows (r, p)))"
  using assms
proof (induction es arbitrary: pos hash rows)
  case (Cons e es)
  let ?row = "seal_row C (nonce pos) (l_key l) (e @ nxt C hash e)"
  let ?rows = "((l_reference l, Suc pos), ?row) # rows"
  have ins: "insert_row (l_reference l, Suc pos) ?row rows = Inr ?rows"
    using Cons.prems by (simp add: insert_row_def free_after_def)
  have "free_after ?rows (l_reference l) (Suc pos)" using Cons.prems by (simp add: free_after_def)
  then obtain rows' where rows': "append_rows C nonce l (Suc pos) (nxt C hash e) es ?rows = Inr (rows', chain C (nxt C hash e) es)"
    "\<And>r p. map_of rows' (r, p) =
      (if r = l_reference l \<and> Suc pos < p \<and> p \<le> Suc pos + length es then Some (row_at C nonce l (Suc pos) (nxt C hash e) es p)
       else map_of ?rows (r, p))"
    using Cons.IH [of ?rows "Suc pos" "nxt C hash e"] Cons.prems(2) by auto
  have first: "row_at C nonce l pos hash (e # es) (Suc pos) = ?row"
    by (simp add: row_at_def)
  have later: "row_at C nonce l pos hash (e # es) p = row_at C nonce l (Suc pos) (nxt C hash e) es p" if "Suc pos < p" for p
    using that by (simp add: row_at_def nth_Cons' take_Cons' Suc_diff_Suc)
  have "map_of rows' (r, p) =
      (if r = l_reference l \<and> pos < p \<and> p \<le> pos + length (e # es) then Some (row_at C nonce l pos hash (e # es) p)
       else map_of rows (r, p))" for r p
    using first later [of p] by (cases "p = Suc pos") (auto simp: rows'(2))
  moreover have "append_rows C nonce l pos hash (e # es) rows = Inr (rows', chain C hash (e # es))"
    using ins rows'(1) Cons.prems(2) by (simp add: Let_def sql_int_def)
  ultimately show ?case by blast
qed auto

lemma append_rows_keys:
  assumes "append_rows C nonce l pos hash es rows = Inr (rows', h)" and "distinct (map fst rows)"
    and "aead_law C" "digest_law C" "\<forall>i. length (nonce i) = 24" "\<forall>e\<in>set es. length e \<le> MAX_ENTRY"
  shows "distinct (map fst rows') \<and>
    (\<forall>row\<in>set rows'. row \<in> set rows \<or> fst (fst row) = l_reference l \<and> length (snd row) \<le> EXPIRE_BYTES)"
  using assms(1,2,6)
proof (induction es arbitrary: pos hash rows)
  case (Cons e es)
  let ?row = "seal_row C (nonce pos) (l_key l) (e @ nxt C hash e)"
  have fresh: "map_of rows (l_reference l, Suc pos) = None" and
    rest: "append_rows C nonce l (Suc pos) (nxt C hash e) es (((l_reference l, Suc pos), ?row) # rows) = Inr (rows', h)"
    using Cons.prems(1) by (auto simp: Let_def rbind_Inr_iff insert_row_def sql_int_def split: if_splits)
  have "length ?row \<le> EXPIRE_BYTES"
    using assms(3-5) Cons.prems(3)
    by (simp add: seal_row_def aead_law_def length_nxt MAX_ENTRY_def EXPIRE_BYTES_def)
  moreover have "distinct (map fst (((l_reference l, Suc pos), ?row) # rows))"
    using fresh Cons.prems(2) by (simp add: map_of_eq_None_iff)
  ultimately show ?case using Cons.IH [OF rest] Cons.prems(3) by auto
qed auto

lemma chain_append_take:
  "chain C h (es @ take n fs) = chain C (chain C h es) (take n fs)"
  by simp

definition append_laws :: "crypto \<Rightarrow> (nat \<Rightarrow> bytes) \<Rightarrow> bytes \<Rightarrow> bool" where
  "append_laws C nonce state_nonce \<longleftrightarrow>
     digest_law C \<and> aead_law C \<and> (\<forall>i. length (nonce i) = 24) \<and> length state_nonce = 24"

lemma recorded_append:
  assumes laws: "append_laws C nonce n0" and rec: "recorded C st l es"
    and keys: "l_reference l' = l_reference l" "l_key l' = l_key l" "s_key st' = s_key st"
    and rows: "\<And>p. map_of (records st') (l_reference l, p) =
      (if length es < p \<and> p \<le> length es + length fs
       then Some (row_at C nonce l (length es) (chain C (store_start C st l) es) fs p)
       else map_of (records st) (l_reference l, p))"
  shows "recorded C st' l (es @ fs)"
proof -
  have start: "store_start C st' l = store_start C st l" using keys by (simp add: store_start_def)
  have hash: "length (chain C (store_start C st l) xs) = 32" for xs
    using laws by (simp add: append_laws_def store_start_def length_start length_chain)
  have "record_of C (l_key l) (the (map_of (records st') (l_reference l, Suc i))) =
      Inr ((es @ fs) ! i, chain C (store_start C st l) (take (Suc i) (es @ fs)))" if "i < length (es @ fs)" for i
  proof (cases "i < length es")
    case True
    then show ?thesis using rec rows [of "Suc i"] by (simp add: recorded_def nth_append)
  next
    case False
    let ?n = "i - length es"
    have i: "Suc i - length es = Suc ?n" "Suc i - Suc (length es) = ?n" using False by auto
    have "record_of C (l_key l) (row_at C nonce l (length es) (chain C (store_start C st l) es) fs (Suc i)) =
        Inr (fs ! ?n, chain C (store_start C st l) (es @ take (Suc ?n) fs))"
      unfolding row_at_def i chain_append_take
      using laws hash [of "es @ take (Suc ?n) fs"] by (simp add: record_seal_row append_laws_def)
    then show ?thesis using False that rows [of "Suc i"] i by (simp add: nth_append)
  qed
  moreover have "map_of (records st') (l_reference l, p) \<noteq> None \<longleftrightarrow> 1 \<le> p \<and> p \<le> length (es @ fs)" for p
    using rec rows [of p] unfolding recorded_def by (cases "p \<le> length es") auto
  ultimately show ?thesis unfolding recorded_def start by blast
qed

lemma store_append_ok:
  assumes laws: "append_laws C nonce n0" and holds: "log_holds C st l es"
    and ok: "valid_append fs" "used + sum_list (map length fs) \<le> s_disk st" "length es + length fs < 2 ^ 63" "now < 2 ^ 63"
  shows "\<exists>st'. store_append C st nonce n0 used now t l fs =
      Inr (store_sign C st (l_reference l) (length es + length fs) (chain C (store_start C st l) (es @ fs)) t, st') \<and>
    log_holds C st' l (es @ fs) \<and> (\<forall>r. r \<noteq> l_reference l \<longrightarrow> same_log st st' r) \<and> s_key st' = s_key st \<and>
    (wf_store st \<longrightarrow> wf_store st')"
proof -
  let ?h = "chain C (store_start C st l) es"
  have dl: "digest_law C" "aead_law C" "\<forall>i. length (nonce i) = 24" "length n0 = 24"
    using laws by (simp_all add: append_laws_def)
  have rec: "recorded C st l es" using holds by (simp add: log_holds_def)
  then have "free_after (records st) (l_reference l) (length es)"
    unfolding recorded_def free_after_def by (metis not_le)
  then obtain rows where rows: "append_rows C nonce l (length es) ?h fs (records st) = Inr (rows, chain C ?h fs)"
    "\<And>r p. map_of rows (r, p) =
      (if r = l_reference l \<and> length es < p \<and> p \<le> length es + length fs then Some (row_at C nonce l (length es) ?h fs p)
       else map_of (records st) (r, p))"
    using append_rows_spec [OF _ ok(3)] by blast
  define sealed where "sealed = seal_row C n0 (l_key l) (to_be 8 (length es + length fs) @ chain C ?h fs)"
  define st' where "st' = st\<lparr>records := rows, anchors := upsert_anchor (l_reference l) now sealed (anchors st)\<rparr>"
  have run: "store_append C st nonce n0 used now t l fs =
      Inr (store_sign C st (l_reference l) (length es + length fs) (chain C (store_start C st l) (es @ fs)) t, st')"
    using ok rows(1) log_state_holds [OF holds dl(1)] by (simp add: store_append_def st'_def sealed_def sql_int_def Let_def)
  have "recorded C st' l (es @ fs)"
    by (rule recorded_append [OF laws rec refl refl]) (simp_all add: st'_def rows(2))
  moreover have "anchored C st' l (es @ fs)"
    using dl open_seal_row [OF dl(2,4)]
    by (auto simp: anchored_def st'_def upsert_anchor_def sealed_def update_conv' store_start_def split: option.splits)
  ultimately have "log_holds C st' l (es @ fs)"
    using holds ok by (auto simp: log_holds_def valid_append_def)
  moreover have "\<forall>r. r \<noteq> l_reference l \<longrightarrow> same_log st st' r"
    by (auto simp: same_log_def st'_def rows(2) upsert_anchor_def update_conv' split: option.splits)
  moreover have "wf_store st'" if wf: "wf_store st"
  proof -
    have "map_of (expired st) (l_reference l) = None"
      using holds live_not_expired [OF wf, of "l_reference l"] unfolding log_holds_def anchored_def
      by (cases "es = []") auto
    then have live: "l_reference l \<notin> fst ` set (expired st)" by (simp add: map_of_eq_None_iff)
    have keys: "fst ` set (anchors st') = insert (l_reference l) (fst ` set (anchors st))"
      "distinct (map fst (anchors st'))"
      using wf by (auto simp: st'_def upsert_anchor_def dom_update distinct_update wf_store_def split: option.splits)
    have new: "distinct (map fst rows) \<and>
      (\<forall>row\<in>set rows. row \<in> set (records st) \<or> fst (fst row) = l_reference l \<and> length (snd row) \<le> EXPIRE_BYTES)"
      using append_rows_keys [OF rows(1) _ dl(2,1,3)] wf ok(1) by (simp add: wf_store_def valid_append_def)
    have "fst (fst row) \<in> fst ` set (anchors st') \<union> set (doomed st) \<and> length (snd row) \<le> EXPIRE_BYTES" if "row \<in> set rows" for row
      using new that wf unfolding wf_store_def keys(1) by blast
    then show ?thesis
      using wf live keys new unfolding wf_store_def by (simp add: st'_def)
  qed
  ultimately show ?thesis using run by (auto simp: st'_def)
qed

lemma append_rows_range:
  assumes "free_after rows (l_reference l) pos" and "2 ^ 63 \<le> pos + length es" and "pos < 2 ^ 63"
  shows "append_rows C nonce l pos hash es rows = Inl SqlRange"
  using assms
proof (induction es arbitrary: pos hash rows)
  case (Cons e es)
  let ?row = "seal_row C (nonce pos) (l_key l) (e @ nxt C hash e)"
  have ins: "insert_row (l_reference l, Suc pos) ?row rows = Inr (((l_reference l, Suc pos), ?row) # rows)"
    using Cons.prems by (simp add: insert_row_def free_after_def)
  have "free_after (((l_reference l, Suc pos), ?row) # rows) (l_reference l) (Suc pos)"
    using Cons.prems by (simp add: free_after_def)
  then show ?case
    using Cons.IH [of "((l_reference l, Suc pos), ?row) # rows" "Suc pos"] Cons.prems ins
    by (auto simp: Let_def sql_int_def)
qed simp

text \<open>The errors of an append, in the order the code checks; none changes the tables.\<close>

lemma store_append_errors:
  assumes "append_laws C nonce n0" and holds: "log_holds C st l es"
    and err: "store_append C st nonce n0 used now t l fs = Inl e"
  shows "if \<not> valid_append fs then e = Refused (lit ''size'')
     else if s_disk st < used + sum_list (map length fs) then e = Refused (lit ''quota'')
     else e = SqlRange \<and> (2 ^ 63 \<le> length es + length fs \<or> 2 ^ 63 \<le> now)"
proof (cases "valid_append fs \<and> used + sum_list (map length fs) \<le> s_disk st")
  case True
  have st: "log_state C st l = Inr (length es, chain C (store_start C st l) es)"
    using assms(1) holds by (simp add: log_state_holds append_laws_def)
  have rec: "recorded C st l es" "length es < 2 ^ 63" using holds by (simp_all add: log_holds_def)
  then have free: "free_after (records st) (l_reference l) (length es)"
    unfolding recorded_def free_after_def by (metis not_le)
  have "2 ^ 63 \<le> length es + length fs \<or> 2 ^ 63 \<le> now"
    using store_append_ok [OF assms(1) holds] True err by (metis Inl_Inr_False not_le)
  moreover have "e = SqlRange"
  proof (cases "2 ^ 63 \<le> length es + length fs")
    case big: True
    then show ?thesis
      using True st err append_rows_range [OF free big rec(2)] by (simp add: store_append_def Let_def)
  next
    case False
    then show ?thesis
      using True st err append_rows_spec [OF free, of fs C nonce "chain C (store_start C st l) es"]
      by (auto simp: store_append_def Let_def sql_int_def split: if_splits)
  qed
  ultimately show ?thesis using True by simp
next
  case False
  then show ?thesis
    using assms(1) err log_state_holds [OF holds]
    by (auto simp: store_append_def append_laws_def Let_def)
qed

lemma store_append_succeeds:
  assumes "append_laws C nonce n0" and holds: "log_holds C st l es"
    and ok: "store_append C st nonce n0 used now t l fs = Inr r"
  shows "valid_append fs \<and> used + sum_list (map length fs) \<le> s_disk st \<and> length es + length fs < 2 ^ 63 \<and> now < 2 ^ 63"
proof -
  have st: "log_state C st l = Inr (length es, chain C (store_start C st l) es)"
    using assms(1) holds by (simp add: log_state_holds append_laws_def)
  have rec: "recorded C st l es" "length es < 2 ^ 63" using holds by (simp_all add: log_holds_def)
  then have free: "free_after (records st) (l_reference l) (length es)"
    unfolding recorded_def free_after_def by (metis not_le)
  have "length es + length fs < 2 ^ 63"
    using append_rows_range [OF free _ rec(2), of fs C nonce "chain C (store_start C st l) es"] ok st
    by (cases "2 ^ 63 \<le> length es + length fs") (auto simp: store_append_def Let_def rbind_Inr_iff)
  then show ?thesis
    using ok st by (auto simp: store_append_def Let_def rbind_Inr_iff ensure_Inr_iff sql_int_def split: if_splits)
qed

text \<open>
  C9. An append extends its log and touches no other. In a store whose tables hold the log \<open>es\<close>, an
  append of \<open>fs\<close> either fails, with the error of the first limit it passes and the tables as they were,
  or stores exactly \<open>es @ fs\<close>, signed over the chain of both, leaves every other log's rows alone and
  keeps the tables' invariant.
\<close>

theorem append_extends_log:
  assumes "append_laws C nonce state_nonce" and "wf_store st" and "log_holds C st l es"
  shows "case store_append C st nonce state_nonce used now t l fs of
      Inr (h, st') \<Rightarrow>
        valid_append fs \<and> log_holds C st' l (es @ fs) \<and> wf_store st' \<and> (\<forall>r. r \<noteq> l_reference l \<longrightarrow> same_log st st' r) \<and>
        h = store_sign C st (l_reference l) (length (es @ fs)) (chain C (store_start C st l) (es @ fs)) t
    | Inl e \<Rightarrow>
        if \<not> valid_append fs then e = Refused (lit ''size'')
        else if s_disk st < used + sum_list (map length fs) then e = Refused (lit ''quota'')
        else e = SqlRange \<and> (2 ^ 63 \<le> length es + length fs \<or> 2 ^ 63 \<le> now)"
proof (cases "valid_append fs \<and> used + sum_list (map length fs) \<le> s_disk st \<and> length es + length fs < 2 ^ 63 \<and> now < 2 ^ 63")
  case True
  then obtain st' where "store_append C st nonce state_nonce used now t l fs =
      Inr (store_sign C st (l_reference l) (length es + length fs) (chain C (store_start C st l) (es @ fs)) t, st')"
    "log_holds C st' l (es @ fs)" "\<forall>r. r \<noteq> l_reference l \<longrightarrow> same_log st st' r" "wf_store st'"
    using store_append_ok [OF assms(1,3), of fs used now t] assms(2) by blast
  then show ?thesis using True by simp
next
  case False
  show ?thesis
  proof (cases "store_append C st nonce state_nonce used now t l fs")
    case (Inl e)
    then show ?thesis using store_append_errors [OF assms(1,3) Inl] by simp
  next
    case (Inr r)
    then show ?thesis using False store_append_succeeds [OF assms(1,3) Inr] by simp
  qed
qed

definition empty_store :: store where
  "empty_store = \<lparr> s_key = [], s_disk = 1000, anchors = [], expired = [], doomed = [], records = [] \<rparr>"

definition toy_log :: log where
  "toy_log = \<lparr> l_reference = [4], l_key = [5] \<rparr>"

lemma empty_store_wf: "wf_store empty_store"
  by (simp add: wf_store_def empty_store_def)

lemma empty_store_holds: "log_holds C empty_store l []"
  by (simp add: log_holds_def recorded_def empty_store_def)

lemma toy_append_laws: "append_laws toy_crypto (\<lambda>_. replicate 24 0) (replicate 24 0)"
  by (simp add: append_laws_def toy_digest_law toy_aead_law)

theorem append_extends_log_witness:
  "case store_append toy_crypto empty_store (\<lambda>_. replicate 24 0) (replicate 24 0) 0 5 7 toy_log [[1, 2], [3]] of
     Inr (h, st') \<Rightarrow> log_holds toy_crypto st' toy_log [[1, 2], [3]] \<and> wf_store st' | Inl e \<Rightarrow> False"
  using append_extends_log [OF toy_append_laws empty_store_wf empty_store_holds, where l = toy_log and used = 0 and now = 5 and t = 7 and fs = "[[1, 2], [3]]"]
  by (auto simp: valid_append_def limit_defs empty_store_def split: sum.splits prod.splits)

section \<open>Read\<close>

text \<open>The entries a page takes: the longest prefix whose encoding fits the body after \<open>encoded\<close> bytes.\<close>

fun fit :: "nat \<Rightarrow> bytes list \<Rightarrow> bytes list" where
  "fit encoded [] = []"
| "fit encoded (e # es) =
     (if encoded + encoded_entry_bytes e > MAX_BODY then [] else e # fit (encoded + encoded_entry_bytes e) es)"

lemma fit_prefix: "\<exists>rest. es = fit encoded es @ rest"
  by (induction encoded es rule: fit.induct) auto

lemma fit_shorter: "length (fit encoded es) \<le> length es" and set_fit: "set (fit encoded es) \<subseteq> set es"
  by (induction encoded es rule: fit.induct) auto

lemma fit_bytes: "encoded \<le> MAX_BODY \<Longrightarrow> encoded + sum_list (map encoded_entry_bytes (fit encoded es)) \<le> MAX_BODY"
proof (induction encoded es rule: fit.induct)
  case (2 encoded e es)
  then show ?case by (auto simp: not_less add.assoc)
qed simp

lemma encoded_entry_max: "length e \<le> MAX_ENTRY \<Longrightarrow> PAGE_OVERHEAD + encoded_entry_bytes e \<le> MAX_BODY"
  using encoded_entry_le [of e] by (simp add: limit_defs)

lemma read_rows_spec:
  assumes "length rows = length es"
    and "\<forall>i<length es. record_of C key (rows ! i) = Inr (es ! i, chain C h (take (Suc i) es))"
  shows "read_rows C key encoded hash rows =
    Inr (fit encoded es, if fit encoded es = [] then hash else chain C h (fit encoded es))"
  using assms
proof (induction rows es arbitrary: h hash encoded rule: list_induct2)
  case (Cons row rows e es)
  have first: "record_of C key row = Inr (e, nxt C h e)" using Cons.prems by (auto dest: spec [of _ 0])
  have "\<forall>i<length es. record_of C key (rows ! i) = Inr (es ! i, chain C (nxt C h e) (take (Suc i) es))"
  proof (intro allI impI)
    fix i assume "i < length es"
    then show "record_of C key (rows ! i) = Inr (es ! i, chain C (nxt C h e) (take (Suc i) es))"
      using Cons.prems [rule_format, of "Suc i"] by simp
  qed
  then have "read_rows C key (encoded + encoded_entry_bytes e) (nxt C h e) rows =
      Inr (fit (encoded + encoded_entry_bytes e) es, chain C (nxt C h e) (fit (encoded + encoded_entry_bytes e) es))"
    using Cons.IH [of "nxt C h e" "encoded + encoded_entry_bytes e" "nxt C h e"]
    by (cases "fit (encoded + encoded_entry_bytes e) es = []") simp_all
  then show ?case using first by (simp add: Let_def)
qed simp

lemma read_records_eq:
  assumes keys: "distinct (map fst (records st))"
    and dom: "\<forall>p. map_of (records st) (r, p) \<noteq> None \<longleftrightarrow> 1 \<le> p \<and> p \<le> n" and "after \<le> n"
  shows "read_records st r after limit =
    take limit (map (\<lambda>i. the (map_of (records st) (r, Suc i))) [after..<n])"
proof -
  let ?rows = "sort_key (\<lambda>row. snd (fst row)) (filter (\<lambda>row. fst (fst row) = r \<and> snd (fst row) > after) (records st))"
  have row: "fst (fst row) = r \<and> after < snd (fst row) \<and> map_of (records st) (r, snd (fst row)) = Some (snd row)"
    if "row \<in> set ?rows" for row
    using that keys map_of_is_SomeI [OF keys, of "fst row" "snd row"] by auto
  have "inj_on (\<lambda>row. snd (fst row)) (set ?rows)"
  proof (rule inj_onI)
    fix a b assume "a \<in> set ?rows" "b \<in> set ?rows" "snd (fst a) = snd (fst b)"
    then have "fst (fst a) = fst (fst b)" "snd (fst a) = snd (fst b)" "Some (snd a) = Some (snd b)"
      using row [of a] row [of b] by metis+
    then show "a = b" by (simp add: prod_eq_iff)
  qed
  moreover have "distinct ?rows" using keys by (simp add: distinct_map)
  ultimately have "distinct (map (\<lambda>row. snd (fst row)) ?rows)" by (simp add: distinct_map)
  moreover have "set (map (\<lambda>row. snd (fst row)) ?rows) = {Suc after..<Suc n}"
  proof (intro equalityI subsetI)
    fix p assume "p \<in> set (map (\<lambda>row. snd (fst row)) ?rows)"
    then obtain a where a: "a \<in> set ?rows" "p = snd (fst a)" unfolding set_map by blast
    have "after < p" "map_of (records st) (r, p) \<noteq> None" using row [OF a(1)] unfolding a(2) by simp_all
    then show "p \<in> {Suc after..<Suc n}" using dom by simp
  next
    fix p assume p: "p \<in> {Suc after..<Suc n}"
    then have "map_of (records st) (r, p) \<noteq> None" using dom by simp
    then obtain s where "((r, p), s) \<in> set (records st)" by (auto dest: map_of_SomeD)
    then have "((r, p), s) \<in> set ?rows" using p by simp
    then show "p \<in> set (map (\<lambda>row. snd (fst row)) ?rows)" unfolding set_map by (intro image_eqI [of _ _ "((r, p), s)"]) simp_all
  qed
  ultimately have pos: "map (\<lambda>row. snd (fst row)) ?rows = [Suc after..<Suc n]"
    by (intro sorted_distinct_set_unique) (simp_all del: upt_Suc)
  have "map snd ?rows = map (\<lambda>row. the (map_of (records st) (r, snd (fst row)))) ?rows"
  proof (rule map_cong [OF refl])
    fix a assume "a \<in> set ?rows"
    from row [OF this] show "snd a = the (map_of (records st) (r, snd (fst a)))" by simp
  qed
  also have "\<dots> = map (\<lambda>p. the (map_of (records st) (r, p))) (map (\<lambda>row. snd (fst row)) ?rows)"
    by simp
  also have "\<dots> = map (\<lambda>i. the (map_of (records st) (r, Suc i))) [after..<n]"
    unfolding pos by (simp add: map_Suc_upt [symmetric] del: upt_Suc map_Suc_upt)
  finally show ?thesis
    unfolding read_records_def by (simp only: case_prod_unfold take_map [symmetric])
qed

lemma next_entry_fits:
  assumes "log_holds C st l es" and "after < length es"
  shows "fit PAGE_OVERHEAD (take PAGE_ROWS (drop after es)) \<noteq> []"
proof -
  have drop: "drop after es = es ! after # drop (Suc after) es" using assms(2) by (rule Cons_nth_drop_Suc [symmetric])
  have "es ! after \<in> set es" using assms(2) by simp
  then have "length (es ! after) \<le> MAX_ENTRY" using assms(1) unfolding log_holds_def by blast
  then show ?thesis unfolding drop using encoded_entry_max [of "es ! after"] by (simp add: PAGE_ROWS_def not_less)
qed

lemma store_read_holds:
  assumes "digest_law C" and "wf_store st" and holds: "log_holds C st l es" and "after \<le> length es"
  defines "page \<equiv> fit PAGE_OVERHEAD (take PAGE_ROWS (drop after es))"
  shows "store_read C st t l after = Inr \<lparr> p_after = word_of_nat after, p_entries = page,
      p_head = store_sign C st (l_reference l) (after + length page) (chain C (store_start C st l) (take after es @ page)) t \<rparr>"
proof -
  let ?s = "store_start C st l" and ?rows = "read_records st (l_reference l) after PAGE_ROWS"
  let ?h = "chain C ?s (take after es)"
  have rec: "recorded C st l es" and len: "length es < 2 ^ 63" using holds by (simp_all add: log_holds_def)
  have rows: "?rows = take PAGE_ROWS (map (\<lambda>i. the (map_of (records st) (l_reference l, Suc i))) [after..<length es])"
    using assms rec by (intro read_records_eq) (simp_all add: wf_store_def recorded_def)
  have "record_of C (l_key l) (?rows ! i) =
      Inr (take PAGE_ROWS (drop after es) ! i, chain C ?h (take (Suc i) (take PAGE_ROWS (drop after es))))"
    if "i < length (take PAGE_ROWS (drop after es))" for i
  proof -
    have "take (after + Suc i) es = take after es @ take (Suc i) (drop after es)" by (rule take_add)
    moreover have "after + i < length es" "i < PAGE_ROWS" using that by auto
    moreover from this(1) have "[after..<length es] ! i = after + i" by (rule nth_upt)
    ultimately show ?thesis using rec unfolding rows recorded_def by simp
  qed
  then have "read_rows C (l_key l) PAGE_OVERHEAD (chain C ?s es) ?rows =
      Inr (page, if page = [] then chain C ?s es else chain C ?h page)"
    unfolding page_def by (intro read_rows_spec) (simp_all add: rows)
  moreover have "es = take after es" if "page = []"
    using next_entry_fits [OF holds, of after] that by (cases "after < length es") (simp_all add: page_def)
  ultimately show ?thesis
    using assms log_state_holds [OF holds assms(1)] len
    by (cases "page = []") (simp_all add: store_read_def sql_int_def)
qed

lemma page_valid:
  assumes "log_holds C st l es"
  shows "valid_page (fit PAGE_OVERHEAD (take PAGE_ROWS (drop after es)))"
proof -
  let ?page = "fit PAGE_OVERHEAD (take PAGE_ROWS (drop after es))"
  have "length ?page \<le> PAGE_ROWS" using fit_shorter [of PAGE_OVERHEAD "take PAGE_ROWS (drop after es)"] by simp
  moreover have "set ?page \<subseteq> set es"
    using set_fit [of PAGE_OVERHEAD "take PAGE_ROWS (drop after es)"] by (blast dest: in_set_takeD in_set_dropD)
  moreover have "encoded_page_bytes ?page \<le> MAX_BODY"
    unfolding encoded_page_bytes_def by (rule fit_bytes) (simp add: limit_defs)
  ultimately show ?thesis using assms by (auto simp: valid_page_def log_holds_def)
qed

lemma unat_of_nat_small: "n < 2 ^ 63 \<Longrightarrow> unat (word_of_nat n :: u64) = n"
  by (simp add: unat_of_nat)

lemma word_of_nat_small_eq: "n < 2 ^ 63 \<Longrightarrow> m < 2 ^ 63 \<Longrightarrow> (word_of_nat n :: u64) = word_of_nat m \<longleftrightarrow> n = m"
  using unat_of_nat_small by metis

lemma read_verifies:
  assumes "digest_law C" and "sign_law C (s_key st)" and "wf_store st" and "log_holds C st l es"
    and "after \<le> length es" and "frontier_at C f (take after es)"
    and "f_service f = ed_public C (s_key st)" and "f_log_ref f = l_reference l"
  shows "\<exists>page rest. store_read C st t l after = Inr page \<and> verify_page C f page = Inr page \<and>
    drop after es = p_entries page @ rest \<and> (after < length es \<longrightarrow> p_entries page \<noteq> [])"
proof -
  let ?es = "fit PAGE_OVERHEAD (take PAGE_ROWS (drop after es))"
  let ?head = "store_sign C st (l_reference l) (after + length ?es) (chain C (store_start C st l) (take after es @ ?es)) t"
  let ?page = "\<lparr> p_after = word_of_nat after, p_entries = ?es, p_head = ?head \<rparr>"
  obtain rest where "take PAGE_ROWS (drop after es) = ?es @ rest" using fit_prefix by blast
  then have split: "drop after es = ?es @ (rest @ drop PAGE_ROWS (drop after es))"
    by (metis append.assoc append_take_drop_id)
  have small: "length es < 2 ^ 63" using assms(4) by (simp add: log_holds_def)
  have "length ?es \<le> length es - after"
    using fit_shorter [of PAGE_OVERHEAD "take PAGE_ROWS (drop after es)"] by simp
  then have len: "after + length ?es \<le> length es" using assms(5) by linarith
  have start: "store_start C st l = start C (f_service f) (f_log_ref f)" using assms(7,8) by (simp add: store_start_def)
  have at: "f_length f = word_of_nat after" "f_hash f = chain C (store_start C st l) (take after es)"
    using assms(5,6) start small by (auto simp: frontier_at_def unat_of_nat_small intro!: unsigned_word_eqI)
  have add: "checked_add (word_of_nat after) (word_of_nat (length ?es)) = Some (word_of_nat (after + length ?es))"
    using len small unat_of_nat_small [of after] unat_of_nat_small [of "length ?es"] by (simp add: checked_add_def)
  have "head_verify C (f_service f) ?head"
    using assms(2,7) by (simp add: head_verify_def store_sign_def head_sign_def sign_law_def)
  moreover have "(word_of_nat (after + length ?es) :: u64) = word_of_nat after \<longleftrightarrow> ?es = []"
    and "(word_of_nat (after + length ?es) :: u64) = 0 \<longleftrightarrow> after + length ?es = 0"
    using len small word_of_nat_small_eq [of "after + length ?es" after] word_of_nat_small_eq [of "after + length ?es" 0]
    by (simp_all del: of_nat_add)
  ultimately have "check C f ?head None = Inr ()"
    using assms(2,7,8) start at
    by (auto simp: check_Inr_iff sign_law_def store_sign_def head_sign_def)
  then have "verify_page C f ?page = Inr ?page"
    unfolding verify_page_Inr_iff using at add page_valid [OF assms(4)] by (simp add: store_sign_def head_sign_def)
  moreover have "?es \<noteq> []" if "after < length es" using next_entry_fits [OF assms(4) that] .
  moreover have "drop after es = p_entries ?page @ (rest @ drop PAGE_ROWS (drop after es))"
    unfolding page.simps by (rule split)
  moreover have "p_entries ?page = ?es" by simp
  ultimately show ?thesis
    using store_read_holds [OF assms(1,3,4,5), of t] by metis
qed

text \<open>
  C10. Every page the store reads is one the reader accepts, and it makes progress. For a log \<open>es\<close> and a
  reader whose frontier stands after its first entries, the store answers the next entries of the log,
  at least one if any is left, under a head the frontier verifies.
\<close>

theorem read_page_verifies:
  assumes "digest_law C" and "sign_law C (s_key st)" and "wf_store st" and "log_holds C st l es"
    and "after \<le> length es" and "frontier_at C f (take after es)"
    and "f_service f = ed_public C (s_key st)" and "f_log_ref f = l_reference l"
  shows "\<exists>page rest. store_read C st t l after = Inr page \<and> verify_page C f page = Inr page \<and>
    drop after es = p_entries page @ rest \<and> (after < length es \<longrightarrow> p_entries page \<noteq> [])"
  using read_verifies [OF assms] .

theorem read_page_verifies_witness:
  "\<exists>st es page rest. log_holds toy_crypto st toy_log es \<and> es = [[1, 2], [3]] \<and> store_read toy_crypto st 9 toy_log 0 = Inr page \<and>
     es = p_entries page @ rest \<and> p_entries page \<noteq> []"
proof -
  let ?es = "[[1, 2], [3]] :: bytes list"
  obtain st' where st': "log_holds toy_crypto st' toy_log ?es" "wf_store st'" "s_key st' = []"
    using store_append_ok [OF toy_append_laws empty_store_holds, where l = toy_log and used = 0 and now = 5 and t = 7 and fs = ?es] empty_store_wf
    by (auto simp: valid_append_def limit_defs empty_store_def)
  let ?f = "frontier_empty toy_crypto (ed_public toy_crypto []) (l_reference toy_log)"
  have "frontier_at toy_crypto ?f (take 0 ?es)" by (simp add: frontier_at_def frontier_empty_def)
  from read_page_verifies [OF toy_digest_law _ st'(2,1) _ this, of 9] st'
  show ?thesis using toy_sign_law by (fastforce simp: frontier_empty_def)
qed

end
