(* ===== verification/Store_Expiry.thy ===== *)
theory Store_Expiry
  imports Store_Spec
begin

text \<open>
  Expiry of the store's logs: \<open>reap\<close> deletes rows of doomed logs only and within a pass's limits, a pass
  keeps the tables' invariant and every young log, and passes come to an end.
\<close>

section \<open>What a reap changes\<close>

definition reaped :: "store \<Rightarrow> store \<Rightarrow> bool" where
  "reaped st st' \<longleftrightarrow>
     anchors st' = anchors st \<and> expired st' = expired st \<and> s_key st' = s_key st \<and> s_disk st' = s_disk st \<and>
     set (records st') \<subseteq> set (records st) \<and>
     (\<forall>row\<in>set (records st) - set (records st'). fst (fst row) \<in> set (doomed st)) \<and>
     set (doomed st') \<subseteq> set (doomed st) \<and>
     (\<forall>row\<in>set (records st'). fst (fst row) \<notin> set (doomed st) - set (doomed st')) \<and>
     (distinct (doomed st) \<longrightarrow> distinct (doomed st')) \<and>
     (distinct (map fst (records st)) \<longrightarrow> distinct (map fst (records st')))"

lemma reaped_refl: "reaped st st"
  by (simp add: reaped_def)

lemma reaped_trans: "reaped st st' \<Longrightarrow> reaped st' st'' \<Longrightarrow> reaped st st''"
  unfolding reaped_def by (elim conjE, intro conjI) (simp_all, blast+)

lemma set_delete: "set (AList.delete k al) = {row \<in> set al. fst row \<noteq> k}"
  by (auto simp: AList.delete_eq)

lemma distinct_keys_delete: "distinct (map fst al) \<Longrightarrow> distinct (map fst (AList.delete k al))"
  by (rule distinct_delete)

lemma reaped_delete:
  "r \<in> set (doomed st) \<Longrightarrow> reaped st (st\<lparr>records := AList.delete (r, p) (records st)\<rparr>)"
  by (auto simp: reaped_def set_delete distinct_keys_delete)

lemma reaped_undoom:
  "\<forall>row\<in>set (records st). fst (fst row) \<noteq> r \<Longrightarrow> reaped st (st\<lparr>doomed := removeAll r (doomed st)\<rparr>)"
  by (auto simp: reaped_def distinct_removeAll)

lemma reaped_batch: "r \<in> set (doomed st) \<Longrightarrow> reaped st (fst (reap_batch st r batch n m))"
proof (induction st r batch n m rule: reap_batch.induct)
  case (2 st r p s batch n m)
  then show ?case
    using reaped_trans [OF reaped_delete [OF 2(2), of p]] by (simp add: reaped_refl)
qed (simp add: reaped_refl)

lemma doomed_records_Nil:
  assumes "doomed_records st r n = []" and "0 < n"
  shows "\<forall>row\<in>set (records st). fst (fst row) \<noteq> r"
proof -
  let ?rows = "sort_key fst (map (\<lambda>((_, position), sealed). (position, length sealed))
    (filter (\<lambda>((ref, _), _). ref = r) (records st)))"
  have "?rows = []" using assms unfolding doomed_records_def by (metis less_irrefl take_eq_Nil)
  then have "set ?rows = {}" by (metis list.set(1))
  moreover have "(p, length v) \<in> set ?rows" if "((r, p), v) \<in> set (records st)" for p v
    using that unfolding set_sort set_map set_filter by (intro image_eqI [of _ _ "((r, p), v)"]) simp_all
  ultimately show ?thesis by (metis empty_iff prod.collapse)
qed

section \<open>What a reap counts\<close>

definition row_bytes :: "((bytes \<times> nat) \<times> bytes) list \<Rightarrow> nat" where
  "row_bytes rows = sum_list (map (\<lambda>row. length (snd row)) rows)"

lemma delete_absent: "k \<notin> fst ` set al \<Longrightarrow> AList.delete k al = al"
  by (induction al) auto

lemma length_delete_one: "distinct (map fst al) \<Longrightarrow> map_of al k = Some v \<Longrightarrow> length al = Suc (length (AList.delete k al))"
  by (induction al) (auto simp: delete_absent split: if_splits)

lemma delete_counts:
  "distinct (map fst al) \<Longrightarrow> map_of al k = Some v \<Longrightarrow>
     length al = Suc (length (AList.delete k al)) \<and> row_bytes al = length v + row_bytes (AList.delete k al)"
  by (induction al) (auto simp: row_bytes_def delete_absent split: if_splits)

text \<open>A batch of distinct positions with the sizes of their rows.\<close>

definition sized :: "store \<Rightarrow> bytes \<Rightarrow> (nat \<times> nat) list \<Rightarrow> bool" where
  "sized st r batch \<longleftrightarrow> distinct (map fst batch) \<and>
     (\<forall>ps\<in>set batch. \<exists>v. map_of (records st) (r, fst ps) = Some v \<and> length v = snd ps)"

definition counted :: "store \<Rightarrow> store \<Rightarrow> nat \<Rightarrow> nat \<Rightarrow> bool" where
  "counted st st' n b \<longleftrightarrow> length (records st) = length (records st') + n \<and>
     row_bytes (records st) = row_bytes (records st') + b \<and> (n = 0 \<longrightarrow> b = 0)"

lemma sized_tail:
  "sized st r ((p, s) # batch) \<Longrightarrow> sized (st\<lparr>records := AList.delete (r, p) (records st)\<rparr>) r batch"
  by (auto simp: sized_def delete_conv')

lemma reap_batch_counts:
  assumes "distinct (map fst (records st))" and "sized st r batch" and "bytes \<le> EXPIRE_BYTES"
  shows "\<exists>n b st' res. reap_batch st r batch rows bytes = (st', res) \<and> counted st st' n b \<and> n \<le> length batch \<and>
    bytes + b \<le> EXPIRE_BYTES \<and>
    (case res of Some x \<Rightarrow> x = (rows + n, bytes + b)
     | None \<Rightarrow> \<exists>row\<in>set (records st'). EXPIRE_BYTES < bytes + b + length (snd row))"
  using assms
proof (induction st r batch rows bytes rule: reap_batch.induct)
  case (1 st r rows bytes)
  then show ?case by (auto simp: counted_def)
next
  case (2 st r p s batch rows bytes)
  let ?st = "st\<lparr>records := AList.delete (r, p) (records st)\<rparr>"
  obtain v where v: "map_of (records st) (r, p) = Some v" "length v = s"
    using 2(3) by (auto simp: sized_def)
  show ?case
  proof (cases "bytes + s > EXPIRE_BYTES")
    case True
    then show ?thesis
      using map_of_SomeD [OF v(1)] v(2) 2(4) by (force simp: counted_def)
  next
    case False
    obtain n b st' res where rec: "reap_batch ?st r batch (rows + 1) (bytes + s) = (st', res)" "counted ?st st' n b"
      "n \<le> length batch" "bytes + s + b \<le> EXPIRE_BYTES"
      "case res of Some x \<Rightarrow> x = (rows + 1 + n, bytes + s + b)
       | None \<Rightarrow> \<exists>row\<in>set (records st'). EXPIRE_BYTES < bytes + s + b + length (snd row)"
      using 2(1) [OF False] sized_tail [OF 2(3)] 2(2) False by (auto simp: distinct_keys_delete)
    have "counted st st' (Suc n) (s + b)"
      using rec(2) delete_counts [OF 2(2) v(1)] v(2) by (simp add: counted_def)
    then show ?thesis
      using rec False by (intro exI [of _ "Suc n"] exI [of _ "s + b"] exI [of _ st'] exI [of _ res])
        (simp add: add.assoc split: option.splits)
  qed
qed

lemma sized_doomed_records:
  assumes "distinct (map fst (records st))"
  shows "sized st r (doomed_records st r n)"
proof -
  let ?rows = "filter (\<lambda>((ref, _), _). ref = r) (records st)"
  let ?sizes = "map (\<lambda>((_, position), sealed). (position, length sealed)) ?rows"
  have "inj_on (\<lambda>row. snd (fst row)) (set ?rows)"
  proof (rule inj_onI)
    fix a b assume "a \<in> set ?rows" "b \<in> set ?rows" "snd (fst a) = snd (fst b)"
    then show "a = b" using assms by (auto simp: eq_key_imp_eq_value)
  qed
  moreover have "distinct ?rows" using assms by (simp add: distinct_map)
  ultimately have "distinct (map (\<lambda>row. snd (fst row)) ?rows)" by (simp only: distinct_map)
  moreover have "map fst ?sizes = map (\<lambda>row. snd (fst row)) ?rows" by auto
  ultimately have "distinct (map fst ?sizes)" by (simp only:)
  moreover have "mset (map fst (sort_key fst ?sizes)) = mset (map fst ?sizes)" by (simp only: mset_map mset_sort)
  ultimately have "distinct (map fst (sort_key fst ?sizes))" using mset_eq_imp_distinct_iff by blast
  then have "distinct (map fst (doomed_records st r n))"
    unfolding doomed_records_def take_map [symmetric] by (rule distinct_take)
  moreover have "\<exists>v. map_of (records st) (r, fst ps) = Some v \<and> length v = snd ps"
    if "ps \<in> set (doomed_records st r n)" for ps
    using doomed_records_mem [of "fst ps" "snd ps" st r n] that assms by auto
  ultimately show ?thesis by (simp add: sized_def)
qed

lemma length_doomed_records: "length (doomed_records st r n) \<le> n"
  by (simp add: doomed_records_def)

lemma counted_trans: "counted st st' n b \<Longrightarrow> counted st' st'' n' b' \<Longrightarrow> counted st st'' (n + n') (b + b')"
  by (auto simp: counted_def)

text \<open>A reap from \<open>rows\<close> and \<open>bytes\<close> counted so far: what it deletes, and why it stops.\<close>

definition reap_result :: "store \<Rightarrow> nat \<Rightarrow> nat \<Rightarrow> store \<times> bool \<Rightarrow> bool" where
  "reap_result st rows bytes r \<longleftrightarrow>
     (\<exists>n b. counted st (fst r) n b \<and> rows + n \<le> EXPIRE_ROWS \<and> bytes + b \<le> EXPIRE_BYTES \<and>
        (if snd r then rows + n = EXPIRE_ROWS \<or> (\<exists>row\<in>set (records (fst r)). EXPIRE_BYTES < bytes + b + length (snd row))
         else doomed (fst r) = []))"

lemma reap_result_stop: "rows \<le> EXPIRE_ROWS \<Longrightarrow> bytes \<le> EXPIRE_BYTES \<Longrightarrow>
    (if m then rows = EXPIRE_ROWS else doomed st = []) \<Longrightarrow> reap_result st rows bytes (st, m)"
  unfolding reap_result_def by (intro exI [of _ 0]) (simp add: counted_def split: if_splits)

lemma reap_result_after:
  "counted st st' n b \<Longrightarrow> reap_result st' (rows + n) (bytes + b) r \<Longrightarrow> reap_result st rows bytes r"
proof -
  assume st': "counted st st' n b" and "reap_result st' (rows + n) (bytes + b) r"
  then obtain n' b' where after: "counted st' (fst r) n' b'" "rows + n + n' \<le> EXPIRE_ROWS" "bytes + b + b' \<le> EXPIRE_BYTES"
    "if snd r then rows + n + n' = EXPIRE_ROWS \<or> (\<exists>row\<in>set (records (fst r)). EXPIRE_BYTES < bytes + b + b' + length (snd row))
     else doomed (fst r) = []"
    unfolding reap_result_def by blast
  show ?thesis
    unfolding reap_result_def
    using counted_trans [OF st' after(1)] after(2-4) by (rule_tac exI [of _ "n + n'"], rule_tac exI [of _ "b + b'"], cases "snd r") (simp_all add: add.assoc)
qed

lemma reap_spec:
  assumes "distinct (map fst (records st))" and "rows \<le> EXPIRE_ROWS" and "bytes \<le> EXPIRE_BYTES"
  shows "reaped st (fst (reap pick st rows bytes)) \<and> reap_result st rows bytes (reap pick st rows bytes)"
  using assms
proof (induction pick st rows bytes rule: reap.induct)
  case (1 pick st rows bytes)
  consider "rows = EXPIRE_ROWS" | "rows < EXPIRE_ROWS" "next_doomed pick st = None"
    | r where "rows < EXPIRE_ROWS" "next_doomed pick st = Some r" "doomed_records st r (EXPIRE_ROWS - rows) = []"
    | r ps batch where "rows < EXPIRE_ROWS" "next_doomed pick st = Some r" "doomed_records st r (EXPIRE_ROWS - rows) = ps # batch"
    using 1(4) by (metis le_neq_implies_less list.exhaust option.exhaust)
  then show ?case
  proof cases
    case 1
    then show ?thesis using "1.prems" by (simp add: reap.simps [of pick st] reap_result_stop reaped_refl)
  next
    case 2
    then have "reap pick st rows bytes = (st, False)" and "doomed st = []"
      by (simp_all add: reap.simps [of pick st] flip: next_doomed_None [of pick])
    then show ?thesis using "1.prems" by (simp add: reap_result_stop reaped_refl)
  next
    case (3 r)
    let ?st = "st\<lparr>doomed := removeAll r (doomed st)\<rparr>"
    have "reaped st ?st" using doomed_records_Nil [OF 3(3)] 3(1) by (intro reaped_undoom) simp
    moreover have "counted st ?st 0 0" by (simp add: counted_def)
    moreover have "reap pick st rows bytes = reap pick ?st rows bytes"
      using 3 by (simp add: reap.simps [of pick st])
    moreover have "reaped ?st (fst (reap pick ?st rows bytes)) \<and> reap_result ?st rows bytes (reap pick ?st rows bytes)"
      using "1.IH"(1) [OF _ 3(2,3)] 3(1) "1.prems" by simp
    ultimately show ?thesis using reaped_trans reap_result_after [of st ?st 0 0 rows bytes] by simp
  next
    case (4 r ps batch)
    have batch: "sized st r (ps # batch)" using sized_doomed_records [OF "1.prems"(1)] 4(3) by metis
    have short: "length (ps # batch) \<le> EXPIRE_ROWS - rows" using length_doomed_records [of st r] 4(3) by metis
    obtain n b st' res where run: "reap_batch st r (ps # batch) rows bytes = (st', res)" "counted st st' n b"
      "n \<le> length (ps # batch)" "bytes + b \<le> EXPIRE_BYTES"
      "case res of Some x \<Rightarrow> x = (rows + n, bytes + b)
       | None \<Rightarrow> \<exists>row\<in>set (records st'). EXPIRE_BYTES < bytes + b + length (snd row)"
      using reap_batch_counts [OF "1.prems"(1) batch "1.prems"(3)] by blast
    have reaped: "reaped st st'"
      using reaped_batch [OF next_doomed_mem [OF 4(2)], of "ps # batch" rows bytes] run(1) by simp
    have fits: "rows + n \<le> EXPIRE_ROWS" using run(3) short 4(1) by linarith
    show ?thesis
    proof (cases res)
      case None
      then have "reap pick st rows bytes = (st', True)" using 4 run(1) by (simp add: reap.simps [of pick st])
      moreover have "reap_result st rows bytes (st', True)"
        unfolding reap_result_def using run None fits by (intro exI [of _ n] exI [of _ b]) simp
      ultimately show ?thesis using reaped by simp
    next
      case (Some x)
      then have x: "x = (rows + n, bytes + b)" using run(5) by simp
      have eq: "reap pick st rows bytes = reap pick st' (rows + n) (bytes + b)"
        using 4 run(1) Some x by (simp add: reap.simps [of pick st rows bytes])
      have "distinct (map fst (records st'))" using reaped "1.prems"(1) by (simp add: reaped_def)
      then have "reaped st' (fst (reap pick st' (rows + n) (bytes + b))) \<and>
          reap_result st' (rows + n) (bytes + b) (reap pick st' (rows + n) (bytes + b))"
        using "1.IH"(2) [OF _ 4(2,3) run(1) [symmetric] Some, of "rows + n" "bytes + b"] x fits run(4) 4(1) by simp
      then show ?thesis unfolding eq using reaped reaped_trans reap_result_after [OF run(2)] by blast
    qed
  qed
qed

section \<open>A pass\<close>

lemma wf_reaped [wf_intros]: "wf_store st \<Longrightarrow> reaped st st' \<Longrightarrow> wf_store st'"
  unfolding wf_store_def reaped_def by (elim conjE, intro conjI) (simp_all, blast+)

lemma map_of_subset:
  assumes "distinct (map fst al)" and "set al' \<subseteq> set al" and "distinct (map fst al')"
    and "\<And>v. (k, v) \<in> set al \<Longrightarrow> (k, v) \<in> set al'"
  shows "map_of al' k = map_of al k"
proof (cases "map_of al k")
  case None
  then have "k \<notin> fst ` set al'" using assms(2) by (auto simp: map_of_eq_None_iff)
  then show ?thesis using None by (simp add: map_of_eq_None_iff [THEN iffD2])
next
  case (Some v)
  then show ?thesis using assms(3,4) by (auto dest: map_of_SomeD)
qed

lemma reaped_same_log: "wf_store st \<Longrightarrow> reaped st st' \<Longrightarrow> r \<notin> set (doomed st) \<Longrightarrow> same_log st st' r"
proof -
  assume wf: "wf_store st" and re: "reaped st st'" and r: "r \<notin> set (doomed st)"
  have "map_of (records st') (r, p) = map_of (records st) (r, p)" for p
  proof (rule map_of_subset)
    show "((r, p), v) \<in> set (records st')" if "((r, p), v) \<in> set (records st)" for v
      using re r that unfolding reaped_def by (metis DiffI fst_conv)
  qed (use wf re in \<open>auto simp: reaped_def wf_store_def\<close>)
  then show ?thesis using re by (simp add: same_log_def reaped_def)
qed

lemma let_go_one:
  assumes wf: "wf_store st" and r: "r \<in> fst ` set (anchors st)"
  shows "let_go_logs now (r # rs) st = let_go_logs now rs
      (st\<lparr>anchors := AList.delete r (anchors st), expired := (r, now) # expired st, doomed := r # doomed st\<rparr>)"
    and "wf_store (st\<lparr>anchors := AList.delete r (anchors st), expired := (r, now) # expired st, doomed := r # doomed st\<rparr>)"
proof -
  have gone: "r \<notin> fst ` set (expired st)" "r \<notin> set (doomed st)" using wf r unfolding wf_store_def by blast+
  then show "let_go_logs now (r # rs) st = let_go_logs now rs
      (st\<lparr>anchors := AList.delete r (anchors st), expired := (r, now) # expired st, doomed := r # doomed st\<rparr>)"
    by (simp add: insert_row_def map_of_eq_None_iff)
  have keys: "fst ` set (AList.delete r (anchors st)) = fst ` set (anchors st) - {r}"
    by (auto simp: set_delete)
  show "wf_store (st\<lparr>anchors := AList.delete r (anchors st), expired := (r, now) # expired st, doomed := r # doomed st\<rparr>)"
    using wf gone unfolding wf_store_def by (auto simp: keys distinct_keys_delete)
qed

lemma let_go_spec:
  assumes "wf_store st" and "distinct rs" and "set rs \<subseteq> fst ` set (anchors st)"
  shows "\<exists>st'. let_go_logs now rs st = Inr st' \<and> wf_store st' \<and> records st' = records st \<and>
    set (doomed st') = set rs \<union> set (doomed st) \<and> s_key st' = s_key st \<and>
    (\<forall>r. map_of (anchors st') r = (if r \<in> set rs then None else map_of (anchors st) r)) \<and>
    (\<forall>r. map_of (expired st') r = (if r \<in> set rs then Some now else map_of (expired st) r)) \<and>
    length (anchors st) = length (anchors st') + length rs \<and> length (expired st') = length (expired st) + length rs"
  using assms
proof (induction rs arbitrary: st)
  case (Cons r rs)
  let ?st = "st\<lparr>anchors := AList.delete r (anchors st), expired := (r, now) # expired st, doomed := r # doomed st\<rparr>"
  have r: "r \<in> fst ` set (anchors st)" using Cons.prems by simp
  obtain x where "map_of (anchors st) r = Some x" using r by (metis map_of_eq_None_iff not_None_eq)
  then have len: "length (anchors st) = Suc (length (AList.delete r (anchors st)))"
    using Cons.prems(1) by (intro length_delete_one) (simp_all add: wf_store_def)
  have keys: "fst ` set (anchors ?st) = fst ` set (anchors st) - {r}" by (auto simp: set_delete)
  have "set rs \<subseteq> fst ` set (anchors ?st)" unfolding keys using Cons.prems by auto
  then obtain st' where "let_go_logs now rs ?st = Inr st'" "wf_store st'" "records st' = records ?st"
    "set (doomed st') = set rs \<union> set (doomed ?st)" "s_key st' = s_key ?st"
    "\<forall>q. map_of (anchors st') q = (if q \<in> set rs then None else map_of (anchors ?st) q)"
    "\<forall>q. map_of (expired st') q = (if q \<in> set rs then Some now else map_of (expired ?st) q)"
    "length (anchors ?st) = length (anchors st') + length rs" "length (expired st') = length (expired ?st) + length rs"
    using Cons.IH [OF let_go_one(2) [OF Cons.prems(1) r, of now]] Cons.prems(2) by auto
  then show ?case
    using let_go_one(1) [OF Cons.prems(1) r] len Cons.prems(2) by (intro exI [of _ st']) (simp add: delete_conv')
qed auto

lemma wf_forget [wf_intros]:
  assumes "wf_store st" and "\<forall>r\<in>set rs. r \<notin> set (doomed st)"
  shows "wf_store (st\<lparr>expired := filter (\<lambda>(r, _). r \<notin> set rs) (expired st)\<rparr>)"
proof -
  let ?e = "filter (\<lambda>(r, _). r \<notin> set rs) (expired st)"
  have "fst ` set ?e = fst ` set (expired st) - set rs" by force
  moreover have "distinct (map fst ?e)" using assms(1) by (simp add: wf_store_def distinct_map_filter)
  ultimately show ?thesis using assms unfolding wf_store_def by auto
qed

lemma expiring_logs_spec:
  assumes "wf_store st"
  shows "distinct (expiring_logs pick st before)" and "length (expiring_logs pick st before) \<le> MARK_LOGS"
    and "r \<in> set (expiring_logs pick st before) \<Longrightarrow> \<exists>at s. map_of (anchors st) r = Some (at, s) \<and> at < before"
    and "length (expiring_logs pick st before) < MARK_LOGS \<Longrightarrow> map_of (anchors st) r = Some (at, s) \<Longrightarrow> at < before \<Longrightarrow>
      r \<in> set (expiring_logs pick st before)"
proof -
  let ?old = "map fst (filter (\<lambda>(r, at, _). at < before) (anchors st))"
  have keys: "distinct (map fst (anchors st))" using assms by (simp add: wf_store_def)
  then show "distinct (expiring_logs pick st before)"
    unfolding expiring_logs_def by (intro distinct_take) (simp add: distinct_map_filter)
  show "length (expiring_logs pick st before) \<le> MARK_LOGS" by (simp add: expiring_logs_def)
  have mem: "r \<in> set ?old \<longleftrightarrow> (\<exists>at s. map_of (anchors st) r = Some (at, s) \<and> at < before)" for r
    using keys by (force dest: map_of_SomeD)
  show "r \<in> set (expiring_logs pick st before) \<Longrightarrow> \<exists>at s. map_of (anchors st) r = Some (at, s) \<and> at < before"
    unfolding expiring_logs_def using mem [of r] set_scan [of pick ?old] by (metis in_set_takeD)
  show "r \<in> set (expiring_logs pick st before)"
    if "length (expiring_logs pick st before) < MARK_LOGS" "map_of (anchors st) r = Some (at, s)" "at < before"
  proof -
    have "expiring_logs pick st before = scan pick ?old"
      using that(1) unfolding expiring_logs_def by simp
    then show ?thesis using mem [of r] that(2,3) set_scan [of pick ?old] by metis
  qed
qed

lemma forgotten_logs_spec:
  assumes "wf_store st" and "r \<in> set (forgotten_logs pick st before)"
  shows "r \<notin> set (doomed st)" and "\<exists>at. map_of (expired st) r = Some at \<and> at < before"
proof -
  have "r \<in> set (map fst (filter (\<lambda>(r, at). at < before \<and> r \<notin> set (doomed st)) (expired st)))"
    using assms(2) unfolding forgotten_logs_def by (metis in_set_takeD set_scan)
  then obtain at where at: "(r, at) \<in> set (expired st)" "at < before" "r \<notin> set (doomed st)" by auto
  then show "r \<notin> set (doomed st)" by simp
  have "distinct (map fst (expired st))" using assms(1) by (simp add: wf_store_def)
  then show "\<exists>at. map_of (expired st) r = Some at \<and> at < before" using at by auto
qed

definition pass_start :: "(bytes list \<Rightarrow> nat) \<Rightarrow> store \<Rightarrow> nat \<Rightarrow> store" where
  "pass_start pick st now =
     st\<lparr>expired := filter (\<lambda>(r, _). r \<notin> set (forgotten_logs pick st (now - EXPIRED_DAYS * DAY_MS))) (expired st)\<rparr>"

lemma map_of_forget: "map_of (filter (\<lambda>(r, _). r \<notin> A) al) r = (if r \<in> A then None else map_of al r)"
  by (induction al) auto

lemma forgets:
  "map_of (expired (pass_start pick st now)) r =
     (if r \<in> set (forgotten_logs pick st (now - EXPIRED_DAYS * DAY_MS)) then None else map_of (expired st) r)"
  by (simp add: pass_start_def map_of_forget)

text \<open>The stages of a pass: the logs it forgets, those it lets go, and what it reaps.\<close>

lemma store_expire_stages:
  fixes pick :: "bytes list \<Rightarrow> nat" and now before :: nat
  assumes wf: "wf_store st"
  defines "logs \<equiv> expiring_logs pick (pass_start pick st now) before"
  obtains st2 st' left where
    "store_expire pick st now before =
      Inr (left \<or> length logs = MARK_LOGS \<or> length (forgotten_logs pick st (now - EXPIRED_DAYS * DAY_MS)) = MARK_LOGS, st')"
    "let_go_logs now logs (pass_start pick st now) = Inr st2" "reap pick st2 0 0 = (st', left)"
    "wf_store (pass_start pick st now)" "wf_store st2" "wf_store st'" "reaped st2 st'" "reap_result st2 0 0 (st', left)"
    "records st2 = records st" "set (doomed st2) = set logs \<union> set (doomed st)" "s_key st2 = s_key st"
    "\<And>r. map_of (anchors st2) r = (if r \<in> set logs then None else map_of (anchors st) r)"
    "\<And>r. map_of (expired st2) r = (if r \<in> set logs then Some now else map_of (expired (pass_start pick st now)) r)"
    "length (anchors st) = length (anchors st2) + length logs"
    "length (expired st2) = length (expired (pass_start pick st now)) + length logs"
proof -
  let ?st1 = "pass_start pick st now"
  have wf1: "wf_store ?st1"
    unfolding pass_start_def using forgotten_logs_spec(1) [OF wf] by (intro wf_forget [OF wf]) blast
  have live: "set logs \<subseteq> fst ` set (anchors ?st1)"
    using expiring_logs_spec(3) [OF wf1] unfolding logs_def by (metis (no_types) map_of_eq_None_iff option.discI subsetI)
  obtain st2 where st2: "let_go_logs now logs ?st1 = Inr st2" "wf_store st2" "records st2 = records ?st1"
    "set (doomed st2) = set logs \<union> set (doomed ?st1)" "s_key st2 = s_key ?st1"
    "\<forall>r. map_of (anchors st2) r = (if r \<in> set logs then None else map_of (anchors ?st1) r)"
    "\<forall>r. map_of (expired st2) r = (if r \<in> set logs then Some now else map_of (expired ?st1) r)"
    "length (anchors ?st1) = length (anchors st2) + length logs" "length (expired st2) = length (expired ?st1) + length logs"
    using let_go_spec [OF wf1 expiring_logs_spec(1) [OF wf1, of pick before, folded logs_def] live, of now] by blast
  obtain st' left where reap: "reap pick st2 0 0 = (st', left)" by (cases "reap pick st2 0 0")
  have "reaped st2 st' \<and> reap_result st2 0 0 (st', left)"
    using reap_spec [of st2 0 0 pick] st2(2) reap by (simp add: wf_store_def EXPIRE_ROWS_def EXPIRE_BYTES_def)
  moreover have "store_expire pick st now before =
      Inr (left \<or> length logs = MARK_LOGS \<or> length (forgotten_logs pick st (now - EXPIRED_DAYS * DAY_MS)) = MARK_LOGS, st')"
    using st2(1) reap by (simp add: store_expire_def logs_def pass_start_def Let_def)
  moreover have "anchors ?st1 = anchors st" "records ?st1 = records st" "doomed ?st1 = doomed st" "s_key ?st1 = s_key st"
    by (simp_all add: pass_start_def)
  ultimately show thesis
    using that [of left st' st2] st2 reap wf1 wf_reaped [OF st2(2)] by auto
qed

lemma doomed_have_rows: "wf_store st \<Longrightarrow> map_of (anchors st) r = Some x \<Longrightarrow> r \<notin> set (doomed st)"
  using live_not_expired [of st r x] unfolding wf_store_def map_of_eq_None_iff by blast

lemma no_rows: "wf_store st \<Longrightarrow> r \<notin> fst ` set (anchors st) \<Longrightarrow> r \<notin> set (doomed st) \<Longrightarrow> map_of (records st) (r, p) = None"
proof -
  assume wf: "wf_store st" and r: "r \<notin> fst ` set (anchors st)" "r \<notin> set (doomed st)"
  have "((r, p), v) \<notin> set (records st)" for v
    using wf r unfolding wf_store_def by (metis UnE fst_conv)
  then show ?thesis by (force simp: map_of_eq_None_iff)
qed

text \<open>
  C16. A pass of expiry removes whole old logs and nothing else. It never fails on tables that satisfy the
  invariant, keeps the invariant, leaves every row of a log whose first entry is not older than the
  retention, answers for each log it lets go that it went now, and forgets that answer only for a log
  gone for 30 days, none of whose rows is left.
\<close>

theorem expire_pass_safe:
  assumes wf: "wf_store st"
  shows "\<exists>left st'. store_expire pick st now before = Inr (left, st') \<and> wf_store st' \<and>
    (\<forall>r at s. map_of (anchors st) r = Some (at, s) \<and> before \<le> at \<longrightarrow> same_log st st' r) \<and>
    (\<forall>r. map_of (anchors st) r \<noteq> None \<and> map_of (anchors st') r = None \<longrightarrow> map_of (expired st') r = Some now) \<and>
    (\<forall>r at. map_of (expired st) r = Some at \<and> map_of (expired st') r = None \<longrightarrow>
       at < now - 30 * 86400000 \<and> (\<forall>p. map_of (records st') (r, p) = None))"
proof -
  obtain st2 st' left where s: "store_expire pick st now before = Inr (left, st')"
    "wf_store (pass_start pick st now)" "wf_store st2" "wf_store st'" "reaped st2 st'" "records st2 = records st"
    "set (doomed st2) = set (expiring_logs pick (pass_start pick st now) before) \<union> set (doomed st)"
    "\<And>r. map_of (anchors st2) r = (if r \<in> set (expiring_logs pick (pass_start pick st now) before) then None else map_of (anchors st) r)"
    "\<And>r. map_of (expired st2) r = (if r \<in> set (expiring_logs pick (pass_start pick st now) before) then Some now
       else map_of (expired (pass_start pick st now)) r)"
    by (rule store_expire_stages [OF wf, of pick now before]) blast
  have same: "anchors st' = anchors st2" "expired st' = expired st2" using s(5) by (simp_all add: reaped_def)
  have "same_log st st' r" if r: "map_of (anchors st) r = Some (at, x)" "before \<le> at" for r at x
  proof -
    have young: "r \<notin> set (expiring_logs pick (pass_start pick st now) before)"
      using expiring_logs_spec(3) [OF s(2), of r pick before] r by (auto simp: pass_start_def)
    then have "same_log st2 st' r"
      using reaped_same_log [OF s(3,5)] doomed_have_rows [OF wf r(1)] s(7) by auto
    moreover have "map_of (expired (pass_start pick st now)) r = map_of (expired st) r"
      using live_not_expired [OF wf r(1)] by (simp add: forgets)
    ultimately show ?thesis using young s(6,8,9) by (simp add: same_log_def)
  qed
  moreover have "at < now - 30 * 86400000 \<and> (\<forall>p. map_of (records st') (r, p) = None)"
    if r: "map_of (expired st) r = Some at" "map_of (expired st') r = None" for r at
  proof -
    have f: "r \<in> set (forgotten_logs pick st (now - EXPIRED_DAYS * DAY_MS))"
      using r s(9) [of r] by (simp add: same forgets split: if_splits)
    have "map_of (anchors st) r = None" using live_not_expired [OF wf, of r] r(1) by (cases "map_of (anchors st) r") auto
    then have no: "r \<notin> fst ` set (anchors st)" by (simp add: map_of_eq_None_iff)
    then have "map_of (records st) (r, p) = None" for p
      using no_rows [OF wf] forgotten_logs_spec(1) [OF wf f] by blast
    then have "map_of (records st2) (r, p) = None" for p using s(6) by simp
    then have "map_of (records st') (r, p) = None" for p
      using s(5) unfolding reaped_def map_of_eq_None_iff by (meson image_mono subsetD)
    then show ?thesis
      using forgotten_logs_spec(2) [OF wf f] r(1) by (simp add: EXPIRED_DAYS_def DAY_MS_def)
  qed
  moreover have "map_of (expired st') r = Some now" if "map_of (anchors st) r \<noteq> None" "map_of (anchors st') r = None" for r
    using that s(8,9) [of r] by (simp add: same split: if_splits)
  ultimately show ?thesis using s(1,4) by (intro exI [of _ left] exI [of _ st']) blast
qed

definition toy_store :: store where
  "toy_store = \<lparr> s_key = [], s_disk = 100, anchors = [([1], 5, []), ([2], 90, [])], expired = [([3], 4)], doomed = [[3]],
     records = [(([1], 1), [7]), (([2], 1), [8]), (([3], 1), [9])] \<rparr>"

lemma toy_store_wf: "wf_store toy_store"
  by (simp add: wf_store_def toy_store_def EXPIRE_BYTES_def)

theorem expire_pass_safe_witness:
  "\<exists>left st'. store_expire (\<lambda>_. 0) toy_store 100 50 = Inr (left, st') \<and> wf_store st' \<and> same_log toy_store st' [2]"
  using expire_pass_safe [OF toy_store_wf, of "\<lambda>_. 0" 100 50] by (force simp: toy_store_def)

lemma forget_shrinks:
  assumes "wf_store st"
  shows "length (expired (pass_start pick st now)) \<le> length (expired st)"
    and "length (forgotten_logs pick st (now - EXPIRED_DAYS * DAY_MS)) = MARK_LOGS \<Longrightarrow>
      length (expired (pass_start pick st now)) < length (expired st)"
proof -
  let ?forgotten = "forgotten_logs pick st (now - EXPIRED_DAYS * DAY_MS)"
  show "length (expired (pass_start pick st now)) \<le> length (expired st)" by (simp add: pass_start_def)
  show "length (expired (pass_start pick st now)) < length (expired st)" if "length ?forgotten = MARK_LOGS"
  proof -
    have r: "hd ?forgotten \<in> set ?forgotten" (is "?r \<in> _") using that by (intro hd_in_set) (auto simp: MARK_LOGS_def)
    obtain at where "(?r, at) \<in> set (expired st)" using forgotten_logs_spec(2) [OF assms r] by (auto dest: map_of_SomeD)
    then show ?thesis unfolding pass_start_def using r by (simp, intro length_filter_less) auto
  qed
qed

text \<open>What a pass that returned has counted: \<open>n\<close> rows of \<open>b\<close> bytes, and why \<open>reap\<close> stopped.\<close>

lemma pass_counts:
  assumes wf: "wf_store st" and run: "store_expire pick st now before = Inr (left, st')"
  obtains st2 n b why where
    "left = (why \<or> length (expiring_logs pick (pass_start pick st now) before) = MARK_LOGS \<or>
       length (forgotten_logs pick st (now - EXPIRED_DAYS * DAY_MS)) = MARK_LOGS)"
    "wf_store (pass_start pick st now)" "wf_store st'" "records st2 = records st" "anchors st' = anchors st2" "expired st' = expired st2"
    "\<And>r. map_of (anchors st') r = (if r \<in> set (expiring_logs pick (pass_start pick st now) before) then None else map_of (anchors st) r)"
    "length (anchors st) = length (anchors st') + length (expiring_logs pick (pass_start pick st now) before)"
    "length (expired st') = length (expired (pass_start pick st now)) + length (expiring_logs pick (pass_start pick st now) before)"
    "counted st2 st' n b" "n \<le> EXPIRE_ROWS" "b \<le> EXPIRE_BYTES"
    "if why then n = EXPIRE_ROWS \<or> (\<exists>row\<in>set (records st'). EXPIRE_BYTES < b + length (snd row)) else doomed st' = []"
proof -
  let ?st1 = "pass_start pick st now" let ?logs = "expiring_logs pick ?st1 before"
  let ?forgotten = "forgotten_logs pick st (now - EXPIRED_DAYS * DAY_MS)"
  obtain st2 st3 why where run': "store_expire pick st now before =
      Inr (why \<or> length ?logs = MARK_LOGS \<or> length ?forgotten = MARK_LOGS, st3)"
    and s: "wf_store ?st1" "wf_store st3" "reaped st2 st3" "reap_result st2 0 0 (st3, why)" "records st2 = records st"
    "\<And>r. map_of (anchors st2) r = (if r \<in> set ?logs then None else map_of (anchors st) r)"
    "length (anchors st) = length (anchors st2) + length ?logs"
    "length (expired st2) = length (expired ?st1) + length ?logs"
    by (rule store_expire_stages [OF wf, of pick now before]) blast
  then have st3: "st3 = st'" and left: "left = (why \<or> length ?logs = MARK_LOGS \<or> length ?forgotten = MARK_LOGS)"
    using run by simp_all
  note s = s [unfolded st3]
  obtain n b where c: "counted st2 st' n b" "n \<le> EXPIRE_ROWS" "b \<le> EXPIRE_BYTES"
    "if why then n = EXPIRE_ROWS \<or> (\<exists>row\<in>set (records st'). EXPIRE_BYTES < b + length (snd row)) else doomed st' = []"
    using s(4) unfolding reap_result_def add_0 fst_conv snd_conv by blast
  have same: "anchors st' = anchors st2" "expired st' = expired st2" using s(3) by (simp_all add: reaped_def)
  show thesis by (rule that [OF left s(1,2,5) same _ _ _ c]) (simp_all add: same s(6,7,8))
qed

lemma expire_pass_progress:
  assumes wf: "wf_store st" and run: "store_expire pick st now before = Inr (True, st')"
  shows "2 * length (anchors st') + length (expired st') + length (records st') <
    2 * length (anchors st) + length (expired st) + length (records st)"
proof (rule pass_counts [OF wf run])
  let ?logs = "expiring_logs pick (pass_start pick st now) before"
  fix st2 n b why
  assume left: "True = (why \<or> length ?logs = MARK_LOGS \<or> length (forgotten_logs pick st (now - EXPIRED_DAYS * DAY_MS)) = MARK_LOGS)"
    and wf': "wf_store st'" and rec: "records st2 = records st"
    and anc: "length (anchors st) = length (anchors st') + length ?logs"
    and exp: "length (expired st') = length (expired (pass_start pick st now)) + length ?logs"
    and c: "counted st2 st' n b"
    and stop: "if why then n = EXPIRE_ROWS \<or> (\<exists>row\<in>set (records st'). EXPIRE_BYTES < b + length (snd row)) else doomed st' = []"
  have "0 < n" if why: why
  proof (rule ccontr)
    assume "\<not> 0 < n"
    then have "b = 0" and "n \<noteq> EXPIRE_ROWS" using c by (simp_all add: counted_def EXPIRE_ROWS_def)
    then obtain row where "row \<in> set (records st')" "EXPIRE_BYTES < length (snd row)" using why stop by auto
    then show False using wf' unfolding wf_store_def by (meson not_less)
  qed
  moreover have "0 < MARK_LOGS" by (simp add: MARK_LOGS_def)
  ultimately show ?thesis
    using left rec anc exp c forget_shrinks [OF wf, of pick now] by (auto simp: counted_def)
qed

lemma expire_pass_finished:
  assumes wf: "wf_store st" and run: "store_expire pick st now before = Inr (False, st')"
  shows "doomed st' = [] \<and> (\<forall>r at s. map_of (anchors st') r = Some (at, s) \<longrightarrow> before \<le> at) \<and>
    (\<forall>r p. map_of (records st') (r, p) \<noteq> None \<longrightarrow> map_of (anchors st') r \<noteq> None)"
proof (rule pass_counts [OF wf run])
  let ?st1 = "pass_start pick st now" let ?logs = "expiring_logs pick ?st1 before"
  fix st2 n b why
  assume left: "False = (why \<or> length ?logs = MARK_LOGS \<or> length (forgotten_logs pick st (now - EXPIRED_DAYS * DAY_MS)) = MARK_LOGS)"
    and wf1: "wf_store ?st1" and wf': "wf_store st'"
    and anc: "\<And>r. map_of (anchors st') r = (if r \<in> set ?logs then None else map_of (anchors st) r)"
    and stop: "if why then n = EXPIRE_ROWS \<or> (\<exists>row\<in>set (records st'). EXPIRE_BYTES < b + length (snd row)) else doomed st' = []"
  have d: "doomed st' = []" "length ?logs < MARK_LOGS"
    using left stop expiring_logs_spec(2) [OF wf1, of pick before] by auto
  have "before \<le> at" if "map_of (anchors st') r = Some (at, x)" for r at x
    using that expiring_logs_spec(4) [OF wf1 d(2), of r at x] anc [of r]
    by (auto simp: pass_start_def not_le [symmetric] split: if_splits)
  moreover have "map_of (anchors st') r \<noteq> None" if "map_of (records st') (r, p) \<noteq> None" for r p
    using that wf' d(1) unfolding wf_store_def map_of_eq_None_iff by force
  ultimately show ?thesis using d(1) by blast
qed



section \<open>Facts for the passes\<close>

lemma expire_pass_wf:
  "wf_store st \<Longrightarrow> case store_expire pick st now before of Inl _ \<Rightarrow> False | Inr (left, st') \<Rightarrow> wf_store st'"
  by (rule store_expire_stages [of st pick now before]) auto

end
