(* ===== verification/Service.thy ===== *)
theory Service
  imports Store_Expiry
begin

text \<open>
  The membership service's bounded work (\<open>crates/membership/src/service.rs\<close>): the quotas each source
  spends from, the requests and bytes in flight, and the three routes over the store. A \<open>HashMap\<close> that
  is counted is an association list, one that is only looked up a map. Amounts are naturals: they stay
  below the limits the theorems show, far from \<open>u64::MAX\<close>. The semaphore \<open>work\<close> is an argument of a
  request (whether a slot came in time), the runtime that schedules requests is the order of the calls.
\<close>

section \<open>Sources\<close>

datatype ip_addr = IpV4 "32 word" | IpV6 "128 word"

datatype source = V4 "32 word" | Net64 u64 | Net48 u64

definition WIDE :: nat where "WIDE = 16"
definition NETS :: nat where "NETS = 16"
definition MINUTE :: nat where "MINUTE = 60000"

fun net48 :: "source \<Rightarrow> u64 option" where
  "net48 (Net64 net) = Some (drop_bit 16 net)"
| "net48 _ = None"

definition to_ipv4_mapped :: "128 word \<Rightarrow> 32 word option" where
  "to_ipv4_mapped bits = (if drop_bit 32 bits = 0xFFFF then Some (ucast bits) else None)"

definition sources_of :: "ip_addr \<Rightarrow> (source \<times> nat) list" where
  "sources_of from =
     (case from of
        IpV4 v4 \<Rightarrow> [(V4 v4, 1)]
      | IpV6 bits \<Rightarrow>
          (case to_ipv4_mapped bits of
             Some v4 \<Rightarrow> [(V4 v4, 1)]
           | None \<Rightarrow> [(Net64 (ucast (drop_bit 64 bits)), 1), (Net48 (ucast (drop_bit 80 bits)), WIDE)]))"

section \<open>Quotas\<close>

record quota =
  q_period :: nat
  q_limit :: nat
  q_sources :: nat
  q_window :: nat
  q_spent :: "(source \<times> nat) list"
  q_nets :: "u64 \<Rightarrow> nat"

definition quota_new :: "nat \<Rightarrow> nat \<Rightarrow> nat \<Rightarrow> quota" where
  "quota_new period limit sources =
     \<lparr> q_period = period, q_limit = limit, q_sources = sources, q_window = 0, q_spent = [], q_nets = (\<lambda>_. 0) \<rparr>"

definition spent_of :: "quota \<Rightarrow> source \<Rightarrow> nat" where
  "spent_of q key = (case map_of (q_spent q) key of None \<Rightarrow> 0 | Some n \<Rightarrow> n)"

definition tracks :: "quota \<Rightarrow> source \<Rightarrow> bool" where
  "tracks q key \<longleftrightarrow> map_of (q_spent q) key \<noteq> None \<or>
     (case net48 key of None \<Rightarrow> True | Some net \<Rightarrow> q_nets q net < NETS)"

definition roll :: "quota \<Rightarrow> nat \<Rightarrow> quota" where
  "roll q at =
     (if at div q_period q \<noteq> q_window q
      then q\<lparr>q_window := at div q_period q, q_spent := [], q_nets := (\<lambda>_. 0)\<rparr> else q)"

definition fits_in :: "quota \<Rightarrow> (source \<times> nat) list \<Rightarrow> nat \<Rightarrow> bool" where
  "fits_in q keys amount =
     (let full = q_sources q \<le> length (q_spent q)
      in \<forall>(key, scale)\<in>set (filter (\<lambda>(key, _). tracks q key) keys).
           (\<not> full \<or> map_of (q_spent q) key \<noteq> None) \<and> spent_of q key + amount \<le> q_limit q * scale)"

definition fits :: "quota \<Rightarrow> nat \<Rightarrow> (source \<times> nat) list \<Rightarrow> nat \<Rightarrow> bool \<times> quota" where
  "fits q at keys amount = (let q = roll q at in (fits_in q keys amount, q))"

definition charge_key :: "nat \<Rightarrow> quota \<Rightarrow> source \<Rightarrow> quota" where
  "charge_key amount q key =
     (if \<not> tracks q key then q
      else
        (let q' = (case net48 key of
                     Some net \<Rightarrow> if map_of (q_spent q) key = None
                       then q\<lparr>q_nets := (q_nets q)(net := q_nets q net + 1)\<rparr> else q
                   | None \<Rightarrow> q)
         in q'\<lparr>q_spent := AList.update key (spent_of q key + amount) (q_spent q)\<rparr>))"

definition charge :: "quota \<Rightarrow> nat \<Rightarrow> (source \<times> nat) list \<Rightarrow> nat \<Rightarrow> quota" where
  "charge q at keys amount = foldl (charge_key amount) (roll q at) (map fst keys)"

definition take_quota :: "quota \<Rightarrow> nat \<Rightarrow> (source \<times> nat) list \<Rightarrow> nat \<Rightarrow> bool \<times> quota" where
  "take_quota q at keys amount =
     (case fits q at keys amount of (ok, q) \<Rightarrow> (ok, if ok then charge q at keys amount else q))"

subsection \<open>The invariant\<close>

text \<open>A /48's count is that of its /64s in the table, at most 16.\<close>

definition nets_in :: "quota \<Rightarrow> u64 \<Rightarrow> source list" where
  "nets_in q net = filter (\<lambda>key. net48 key = Some net) (map fst (q_spent q))"

definition wf_quota :: "quota \<Rightarrow> bool" where
  "wf_quota q \<longleftrightarrow> distinct (map fst (q_spent q)) \<and> (\<forall>net. q_nets q net = length (nets_in q net) \<and> q_nets q net \<le> NETS)"

lemma wf_quota_new [wf_intros]: "wf_quota (quota_new p l s)"
  by (simp add: wf_quota_def quota_new_def nets_in_def)

lemma wf_roll [wf_intros]: "wf_quota q \<Longrightarrow> wf_quota (roll q at)"
  by (cases "at div q_period q = q_window q") (simp_all add: roll_def, simp add: wf_quota_def nets_in_def)

lemma map_fst_update:
  "map fst (AList.update k v al) = (if k \<in> fst ` set al then map fst al else map fst al @ [k])"
  by (induction al) auto

lemma charge_key_simps [simp]:
  "q_period (charge_key a q k) = q_period q" "q_limit (charge_key a q k) = q_limit q"
  "q_sources (charge_key a q k) = q_sources q" "q_window (charge_key a q k) = q_window q"
  by (simp_all add: charge_key_def Let_def split: option.splits)

lemma charge_key_spent:
  "q_spent (charge_key a q k) = (if tracks q k then AList.update k (spent_of q k + a) (q_spent q) else q_spent q)"
  by (simp add: charge_key_def Let_def split: option.splits)

lemma spent_charge_key: "spent_of (charge_key a q k) j = spent_of q j + (if j = k \<and> tracks q k then a else 0)"
  by (simp add: spent_of_def charge_key_spent update_conv')

lemma wf_charge_key [wf_intros]:
  assumes "wf_quota q"
  shows "wf_quota (charge_key a q k)"
proof (cases "tracks q k")
  case True
  have d: "distinct (map fst (q_spent (charge_key a q k)))"
    using assms by (simp add: charge_key_spent wf_quota_def distinct_update)
  have "q_nets (charge_key a q k) net = length (nets_in (charge_key a q k) net) \<and> q_nets (charge_key a q k) net \<le> NETS" for net
    using assms True
    by (cases "map_of (q_spent q) k"; cases "net48 k")
      (auto simp: wf_quota_def nets_in_def charge_key_def tracks_def map_fst_update map_of_eq_None_iff Let_def
        dest!: map_of_SomeD intro!: rev_image_eqI)
  then show ?thesis using d unfolding wf_quota_def by blast
qed (simp add: charge_key_def assms)

lemma wf_charge [wf_intros]: "wf_quota q \<Longrightarrow> wf_quota (charge q at keys a)"
proof -
  have "wf_quota q \<Longrightarrow> wf_quota (foldl (charge_key a) q ks)" for q ks
    by (induction ks arbitrary: q) (simp_all add: wf_charge_key)
  then show "wf_quota q \<Longrightarrow> wf_quota (charge q at keys a)" by (simp add: charge_def wf_roll)
qed

lemma wf_take_quota [wf_intros]: "wf_quota q \<Longrightarrow> wf_quota (snd (take_quota q at keys a))"
  by (simp add: take_quota_def fits_def Let_def wf_roll wf_charge)

subsection \<open>What a source may spend\<close>

text \<open>Requests at times, from addresses, for amounts: the quota after them, and those it granted.\<close>

fun take_all :: "quota \<Rightarrow> (nat \<times> ip_addr \<times> nat) list \<Rightarrow> quota \<times> (nat \<times> ip_addr \<times> nat) list" where
  "take_all q [] = (q, [])"
| "take_all q (r # rs) =
     (let taken = take_quota q (fst r) (sources_of (fst (snd r))) (snd (snd r)); rest = take_all (snd taken) rs
      in (fst rest, if fst taken then r # snd rest else snd rest))"

definition drawn :: "nat \<Rightarrow> nat \<Rightarrow> source \<Rightarrow> (nat \<times> ip_addr \<times> nat) list \<Rightarrow> nat" where
  "drawn period w key granted =
     sum_list (map (\<lambda>(_, _, amount). amount)
       (filter (\<lambda>(at, from, _). at div period = w \<and> key \<in> fst ` set (sources_of from)) granted))"

lemma drawn_Cons:
  "drawn p w k ((at, from, a) # g) = (if at div p = w \<and> k \<in> fst ` set (sources_of from) then a else 0) + drawn p w k g"
  by (simp add: drawn_def)

lemma drawn_before: "\<forall>r\<in>set g. w < fst r div p \<Longrightarrow> drawn p w k g = 0"
  by (induction g) (auto simp: drawn_def)

lemma set_take_all: "set (snd (take_all q rs)) \<subseteq> set rs"
  by (induction rs arbitrary: q) (auto simp: Let_def)

fun scale_of :: "source \<Rightarrow> nat" where
  "scale_of (Net48 _) = WIDE"
| "scale_of _ = 1"

lemma sources_of_scale: "(k, s) \<in> set (sources_of from) \<Longrightarrow> s = scale_of k"
  by (auto simp: sources_of_def split: ip_addr.splits option.splits)

lemma distinct_sources_of: "distinct (map fst (sources_of from))"
  by (auto simp: sources_of_def split: ip_addr.splits option.splits)

lemma length_sources_of: "length (sources_of from) \<le> 2"
  by (auto simp: sources_of_def split: ip_addr.splits option.splits)

lemma roll_simps [simp]:
  "q_period (roll q at) = q_period q" "q_limit (roll q at) = q_limit q" "q_sources (roll q at) = q_sources q"
  "q_window (roll q at) = at div q_period q" "roll (roll q at) at = roll q at"
  by (simp_all add: roll_def)

lemma charge_simps [simp]:
  "q_period (charge q at ks a) = q_period q" "q_limit (charge q at ks a) = q_limit q"
  "q_sources (charge q at ks a) = q_sources q" "q_window (charge q at ks a) = at div q_period q"
proof -
  have "q_period (foldl (charge_key a) q xs) = q_period q \<and> q_limit (foldl (charge_key a) q xs) = q_limit q \<and>
      q_sources (foldl (charge_key a) q xs) = q_sources q \<and> q_window (foldl (charge_key a) q xs) = q_window q" for q xs
    by (induction xs arbitrary: q) simp_all
  then show "q_period (charge q at ks a) = q_period q" "q_limit (charge q at ks a) = q_limit q"
    "q_sources (charge q at ks a) = q_sources q" "q_window (charge q at ks a) = at div q_period q"
    by (simp_all add: charge_def)
qed

lemma tracks_wide: "net48 k = None \<Longrightarrow> tracks q k"
  by (simp add: tracks_def)

lemma spent_charge:
  assumes "net48 k = None" and "distinct (map fst keys)"
  shows "spent_of (charge q at keys a) k = spent_of (roll q at) k + (if k \<in> fst ` set keys then a else 0)"
proof -
  have "distinct ks \<Longrightarrow> spent_of (foldl (charge_key a) q ks) k = spent_of q k + (if k \<in> set ks then a else 0)" for q ks
    by (induction ks arbitrary: q) (auto simp: spent_charge_key tracks_wide [OF assms(1)])
  from this [OF assms(2)] show ?thesis by (simp add: charge_def)
qed

lemma spent_roll: "spent_of (roll q at) k = (if at div q_period q = q_window q then spent_of q k else 0)"
  by (simp add: roll_def spent_of_def)

lemma take_quota_simps:
  "fst (take_quota q at keys a) = fits_in (roll q at) keys a"
  "snd (take_quota q at keys a) = (if fits_in (roll q at) keys a then charge (roll q at) at keys a else roll q at)"
  by (simp_all add: take_quota_def fits_def Let_def)

lemma fits_in_spent:
  "fits_in q keys a \<Longrightarrow> (k, s) \<in> set keys \<Longrightarrow> net48 k = None \<Longrightarrow> spent_of q k + a \<le> q_limit q * s"
  by (auto simp: fits_in_def Let_def tracks_wide)

lemma take_all_drawn:
  assumes "net48 k = None" and "spent_of q k \<le> q_limit q * scale_of k"
    and "sorted (map fst rs)" and "\<forall>r\<in>set rs. q_window q \<le> fst r div q_period q"
  shows "drawn (q_period q) w k (snd (take_all q rs)) + (if w = q_window q then spent_of q k else 0) \<le> q_limit q * scale_of k"
  using assms(2-4)
proof (induction rs arbitrary: q)
  case (Cons r rs)
  obtain at "from" a where r: "r = (at, from, a)" by (cases r)
  let ?q = "roll q at" let ?ok = "fits_in ?q (sources_of from) a"
  let ?q' = "snd (take_quota q at (sources_of from) a)"
  let ?in = "k \<in> fst ` set (sources_of from)"
  define D where "D = drawn (q_period q) w k (snd (take_all ?q' rs))"
  have same: "q_period ?q' = q_period q" "q_limit ?q' = q_limit q" "q_window ?q' = at div q_period q"
    by (simp_all add: take_quota_simps)
  have spent: "spent_of ?q' k = spent_of ?q k + (if ?ok \<and> ?in then a else 0)"
    by (simp add: take_quota_simps spent_charge [OF assms(1) distinct_sources_of])
  have "spent_of ?q' k \<le> q_limit q * scale_of k"
    using spent fits_in_spent [of ?q "sources_of from" a k "scale_of k"] Cons.prems(1) assms(1) sources_of_scale
    by (fastforce simp: spent_roll)
  moreover have later: "\<forall>r\<in>set rs. at div q_period q \<le> fst r div q_period q"
    using Cons.prems(2) r by (auto intro: div_le_mono)
  ultimately have IH: "D + (if w = at div q_period q then spent_of ?q' k else 0) \<le> q_limit q * scale_of k"
    using Cons.IH [of ?q'] Cons.prems(2) r same by (simp add: D_def)
  have all: "drawn (q_period q) w k (snd (take_all q (r # rs))) = (if ?ok \<and> ?in \<and> at div q_period q = w then a else 0) + D"
    by (simp add: r take_quota_simps(1) D_def drawn_Cons Let_def)
  have past: "D = 0" if "w < at div q_period q"
    unfolding D_def using that later set_take_all [of ?q' rs] by (intro drawn_before) fastforce
  have "q_window q \<le> at div q_period q" using Cons.prems(3) r by simp
  then consider "w = at div q_period q" | "w \<noteq> at div q_period q" "w \<noteq> q_window q"
    | "w = q_window q" "w < at div q_period q" by linarith
  then show ?case
  proof cases
    case 1
    then show ?thesis using IH spent unfolding all by (auto simp: spent_roll split: if_splits)
  next
    case 2
    then show ?thesis using IH unfolding all by simp
  next
    case 3
    then show ?thesis using past Cons.prems(1) unfolding all by simp
  qed
qed (auto simp: drawn_def)



end
