(* ===== verification/Flight.thy ===== *)
theory Flight
  imports Service
begin

text \<open>
  The requests and bytes a service has in flight (\<open>InFlight\<close>, \<open>Admission\<close> and \<open>Service::admit\<close> of
  \<open>crates/membership/src/service.rs\<close>): a request is admitted when the service and its sources have
  room, gives part of its bytes back once only the answer is left, and the rest when it is dropped. An
  \<open>unwrap\<close> of a missing source and a subtraction below zero are \<open>None\<close>; the invariant, kept along every
  interleaving of the three, shows that neither happens and that the limits hold.
\<close>

section \<open>State and operations\<close>

record policy =
  retention_days :: nat
  disk :: nat
  appends_per_minute :: nat
  append_bytes_per_day :: nat
  reads_per_minute :: nat
  read_bytes_per_minute :: nat
  new_logs_per_day :: nat
  requests_at_once :: nat
  bytes_at_once :: nat
  bytes_at_once_in_all :: nat
  db_work :: nat
  policy_sources :: nat

datatype route = AppendRoute | ReadRoute | HeadsRoute

definition route_parse :: "bytes \<Rightarrow> route option" where
  "route_parse path =
     (if path = lit ''/membership/6/append'' then Some AppendRoute
      else if path = lit ''/membership/6/read'' then Some ReadRoute
      else if path = lit ''/membership/6/heads'' then Some HeadsRoute
      else None)"

fun answer_bytes :: "route \<Rightarrow> nat" where
  "answer_bytes ReadRoute = MAX_BODY"
| "answer_bytes HeadsRoute = HEAD_LOGS * 2 ^ 10"
| "answer_bytes AppendRoute = 4 * 2 ^ 10"

record held_now =
  held_requests :: nat
  held_bytes :: nat

record in_flight =
  flight_bytes :: nat
  flight_sources :: "source \<rightharpoonup> held_now"

record admission =
  adm_sources :: "(source \<times> nat) list"
  adm_bytes :: nat

definition no_flight :: in_flight where
  "no_flight = \<lparr> flight_bytes = 0, flight_sources = Map.empty \<rparr>"

definition held_of :: "in_flight \<Rightarrow> source \<Rightarrow> held_now" where
  "held_of fl k = (case flight_sources fl k of None \<Rightarrow> \<lparr> held_requests = 0, held_bytes = 0 \<rparr> | Some h \<Rightarrow> h)"

text \<open>\<open>entry(..).or_default()\<close> with one more request of so many bytes.\<close>

definition add_request :: "nat \<Rightarrow> held_now option \<Rightarrow> held_now" where
  "add_request bytes held =
     (let h = (case held of None \<Rightarrow> \<lparr> held_requests = 0, held_bytes = 0 \<rparr> | Some h \<Rightarrow> h)
      in \<lparr> held_requests = held_requests h + 1, held_bytes = held_bytes h + bytes \<rparr>)"

definition admit :: "policy \<Rightarrow> in_flight \<Rightarrow> ip_addr \<Rightarrow> route \<Rightarrow> nat \<Rightarrow> (admission \<times> in_flight) option" where
  "admit p fl from rt body =
     (let sources = sources_of from; bytes = 2 * body + answer_bytes rt;
          full = (\<lambda>(k, scale). held_requests (held_of fl k) \<ge> requests_at_once p * scale \<or>
                    held_bytes (held_of fl k) + bytes > bytes_at_once p * scale)
      in if flight_bytes fl + bytes > bytes_at_once_in_all p \<or> list_ex full sources then None
         else Some (\<lparr> adm_sources = sources, adm_bytes = bytes \<rparr>,
           \<lparr> flight_bytes = flight_bytes fl + bytes,
             flight_sources = foldl (\<lambda>m k. m(k \<mapsto> add_request bytes (m k))) (flight_sources fl) (map fst sources) \<rparr>))"

text \<open>
  The loops over an admission's sources: \<open>f\<close> updates what a source holds, or removes it, or underflows.
\<close>

fun update_each :: "('v \<Rightarrow> 'v option option) \<Rightarrow> ('k \<rightharpoonup> 'v) \<Rightarrow> 'k list \<Rightarrow> ('k \<rightharpoonup> 'v) option" where
  "update_each f m [] = Some m"
| "update_each f m (k # ks) =
     (case m k of None \<Rightarrow> None
      | Some h \<Rightarrow> (case f h of None \<Rightarrow> None | Some h' \<Rightarrow> update_each f (m(k := h')) ks))"

definition keep :: "in_flight \<Rightarrow> admission \<Rightarrow> nat \<Rightarrow> (admission \<times> in_flight) option" where
  "keep fl a bytes =
     (if adm_bytes a < bytes \<or> flight_bytes fl < adm_bytes a - bytes then None
      else
        (let freed = adm_bytes a - bytes
         in case update_each (\<lambda>h. if held_bytes h < freed then None else Some (Some (h\<lparr>held_bytes := held_bytes h - freed\<rparr>)))
                (flight_sources fl) (map fst (adm_sources a)) of
              None \<Rightarrow> None
            | Some m \<Rightarrow> Some (a\<lparr>adm_bytes := bytes\<rparr>, \<lparr> flight_bytes = flight_bytes fl - freed, flight_sources = m \<rparr>)))"

definition drop_admission :: "in_flight \<Rightarrow> admission \<Rightarrow> in_flight option" where
  "drop_admission fl a =
     (if flight_bytes fl < adm_bytes a then None
      else
        (case update_each (\<lambda>h. if held_requests h < 1 \<or> held_bytes h < adm_bytes a then None
                else Some (if held_requests h - 1 = 0 then None
                  else Some (h\<lparr>held_requests := held_requests h - 1, held_bytes := held_bytes h - adm_bytes a\<rparr>)))
              (flight_sources fl) (map fst (adm_sources a)) of
           None \<Rightarrow> None
         | Some m \<Rightarrow> Some \<lparr> flight_bytes = flight_bytes fl - adm_bytes a, flight_sources = m \<rparr>))"

section \<open>Interleavings\<close>

text \<open>
  The states a service reaches, with its live admissions: requests are admitted, give back what they do
  not need (an answer is never larger than what was admitted for it) and end, in any order.
\<close>

inductive flying :: "policy \<Rightarrow> in_flight \<Rightarrow> admission list \<Rightarrow> bool" for p where
  idle: "flying p no_flight []"
| admitted: "flying p fl as \<Longrightarrow> admit p fl from rt body = Some (a, fl') \<Longrightarrow> flying p fl' (a # as)"
| kept: "flying p fl (as @ a # bs) \<Longrightarrow> bytes \<le> adm_bytes a \<Longrightarrow> keep fl a bytes = Some (a', fl') \<Longrightarrow> flying p fl' (as @ a' # bs)"
| ended: "flying p fl (as @ a # bs) \<Longrightarrow> drop_admission fl a = Some fl' \<Longrightarrow> flying p fl' (as @ bs)"

section \<open>The accounts\<close>

definition keys_of :: "admission \<Rightarrow> source set" where
  "keys_of a = fst ` set (adm_sources a)"

definition count_for :: "source \<Rightarrow> admission list \<Rightarrow> nat" where
  "count_for k as = length (filter (\<lambda>a. k \<in> keys_of a) as)"

definition bytes_for :: "source \<Rightarrow> admission list \<Rightarrow> nat" where
  "bytes_for k as = sum_list (map adm_bytes (filter (\<lambda>a. k \<in> keys_of a) as))"

definition accounts :: "admission list \<Rightarrow> source \<rightharpoonup> held_now" where
  "accounts as k = (if count_for k as = 0 then None
     else Some \<lparr> held_requests = count_for k as, held_bytes = bytes_for k as \<rparr>)"

definition flight_ok :: "policy \<Rightarrow> in_flight \<Rightarrow> admission list \<Rightarrow> bool" where
  "flight_ok p fl as \<longleftrightarrow>
     flight_bytes fl = sum_list (map adm_bytes as) \<and> flight_sources fl = accounts as \<and>
     flight_bytes fl \<le> bytes_at_once_in_all p \<and>
     (\<forall>k. count_for k as \<le> requests_at_once p * scale_of k \<and> bytes_for k as \<le> bytes_at_once p * scale_of k) \<and>
     (\<forall>a\<in>set as. distinct (map fst (adm_sources a)))"

lemma foldl_upd:
  "distinct ks \<Longrightarrow> foldl (\<lambda>m k. m(k := f (m k))) m ks = (\<lambda>k. if k \<in> set ks then f (m k) else m k)"
  by (induction ks arbitrary: m) (auto simp: fun_eq_iff)

lemma update_each_Some:
  "distinct ks \<Longrightarrow> (\<And>k. k \<in> set ks \<Longrightarrow> \<exists>h h'. m k = Some h \<and> f h = Some h') \<Longrightarrow>
     update_each f m ks = Some (\<lambda>k. if k \<in> set ks then the (f (the (m k))) else m k)"
proof (induction ks arbitrary: m)
  case (Cons k ks)
  obtain h h' where h: "m k = Some h" "f h = Some h'" using Cons.prems(2) by force
  have "update_each f (m(k := h')) ks = Some (\<lambda>j. if j \<in> set ks then the (f (the ((m(k := h')) j))) else (m(k := h')) j)"
    using Cons.prems by (intro Cons.IH) auto
  then show ?case using h Cons.prems(1) by (auto simp: fun_eq_iff)
qed simp

lemma counts_Cons [simp]:
  "count_for k (a # as) = (if k \<in> keys_of a then 1 else 0) + count_for k as"
  "bytes_for k (a # as) = (if k \<in> keys_of a then adm_bytes a else 0) + bytes_for k as"
  by (simp_all add: count_for_def bytes_for_def)

lemma counts_append [simp]:
  "count_for k (as @ bs) = count_for k as + count_for k bs"
  "bytes_for k (as @ bs) = bytes_for k as + bytes_for k bs"
  by (simp_all add: count_for_def bytes_for_def)

lemma bytes_for_none: "count_for k as = 0 \<Longrightarrow> bytes_for k as = 0"
  by (simp add: count_for_def bytes_for_def)

lemma held_of_accounts:
  "flight_sources fl = accounts as \<Longrightarrow>
     held_of fl k = \<lparr> held_requests = count_for k as, held_bytes = bytes_for k as \<rparr>"
  by (simp add: held_of_def accounts_def bytes_for_none)

lemma admit_ok:
  assumes "flight_ok p fl as" and "admit p fl from rt body = Some (a, fl')"
  shows "flight_ok p fl' (a # as)"
proof -
  let ?b = "2 * body + answer_bytes rt" let ?ks = "map fst (sources_of from)"
  have a: "a = \<lparr> adm_sources = sources_of from, adm_bytes = ?b \<rparr>" and room: "flight_bytes fl + ?b \<le> bytes_at_once_in_all p"
    and src: "\<forall>(k, s)\<in>set (sources_of from). held_requests (held_of fl k) < requests_at_once p * s \<and>
      held_bytes (held_of fl k) + ?b \<le> bytes_at_once p * s"
    using assms(2) by (auto simp: admit_def Let_def list_ex_iff not_le not_less split: if_splits)
  have acc: "flight_sources fl = accounts as" using assms(1) by (simp add: flight_ok_def)
  have keys: "keys_of a = set ?ks" by (simp add: a keys_of_def)
  have "flight_sources fl' = foldl (\<lambda>m k. m(k := Some (add_request ?b (m k)))) (flight_sources fl) ?ks"
    using assms(2) by (auto simp: admit_def Let_def split: if_splits)
  also have "\<dots> = (\<lambda>k. if k \<in> set ?ks then Some (add_request ?b (accounts as k)) else accounts as k)"
    unfolding acc using distinct_sources_of by (rule foldl_upd)
  also have "\<dots> = accounts (a # as)"
  proof
    fix k
    show "(if k \<in> set ?ks then Some (add_request ?b (accounts as k)) else accounts as k) = accounts (a # as) k"
      using bytes_for_none [of k as] unfolding keys [symmetric] by (simp add: accounts_def add_request_def a)
  qed
  finally have "flight_sources fl' = accounts (a # as)" .
  moreover have "flight_bytes fl' = flight_bytes fl + ?b"
    using assms(2) by (auto simp: admit_def Let_def split: if_splits)
  moreover have "count_for k (a # as) \<le> requests_at_once p * scale_of k \<and> bytes_for k (a # as) \<le> bytes_at_once p * scale_of k" for k
  proof (cases "k \<in> keys_of a")
    case True
    then obtain s where ks: "(k, s) \<in> set (sources_of from)" using keys by auto
    then show ?thesis using src sources_of_scale [OF ks] True held_of_accounts [OF acc, of k] by (fastforce simp: a)
  next
    case False
    then show ?thesis using assms(1) by (simp add: flight_ok_def)
  qed
  ultimately show ?thesis
    using assms(1) room distinct_sources_of [of "from"] by (simp add: flight_ok_def a)
qed

lemma flight_ok_less:
  assumes "flight_ok p fl as" and "flight_bytes fl' = sum_list (map adm_bytes as')" and "flight_sources fl' = accounts as'"
    and "flight_bytes fl' \<le> flight_bytes fl" and "\<forall>a\<in>set as'. distinct (map fst (adm_sources a))"
    and "\<And>k. count_for k as' \<le> count_for k as \<and> bytes_for k as' \<le> bytes_for k as"
  shows "flight_ok p fl' as'"
  using assms unfolding flight_ok_def by (metis order_trans)

lemma accounts_at:
  assumes "flight_ok p fl (as @ a # bs)" and "k \<in> set (map fst (adm_sources a))"
  shows "flight_sources fl k = Some \<lparr> held_requests = Suc (count_for k (as @ bs)), held_bytes = adm_bytes a + bytes_for k (as @ bs) \<rparr>"
  using assms by (auto simp: flight_ok_def accounts_def keys_of_def)

lemma keep_ok:
  assumes ok: "flight_ok p fl (as @ a # bs)" and "bytes \<le> adm_bytes a"
  shows "\<exists>a' fl'. keep fl a bytes = Some (a', fl') \<and> flight_ok p fl' (as @ a' # bs)"
proof -
  let ?a = "a\<lparr>adm_bytes := bytes\<rparr>" let ?freed = "adm_bytes a - bytes" let ?ks = "map fst (adm_sources a)"
  let ?f = "\<lambda>h. if held_bytes h < ?freed then None else Some (Some (h\<lparr>held_bytes := held_bytes h - ?freed\<rparr>))"
  let ?m = "\<lambda>k. if k \<in> set ?ks then the (?f (the (flight_sources fl k))) else flight_sources fl k"
  have "distinct ?ks" using ok by (simp add: flight_ok_def)
  then have upd: "update_each ?f (flight_sources fl) ?ks = Some ?m"
    using accounts_at [OF ok] by (intro update_each_Some) auto
  have sum: "flight_bytes fl = sum_list (map adm_bytes (as @ a # bs))" using ok by (simp add: flight_ok_def)
  have keys: "keys_of ?a = keys_of a" by (simp add: keys_of_def)
  have "?m = accounts (as @ ?a # bs)"
  proof
    fix k
    show "?m k = accounts (as @ ?a # bs) k"
    proof (cases "k \<in> set ?ks")
      case True
      then show ?thesis using accounts_at [OF ok True] assms(2) keys by (auto simp: accounts_def keys_of_def)
    next
      case False
      then show ?thesis using ok keys by (simp add: flight_ok_def accounts_def keys_of_def)
    qed
  qed
  moreover have "count_for k (as @ ?a # bs) \<le> count_for k (as @ a # bs) \<and> bytes_for k (as @ ?a # bs) \<le> bytes_for k (as @ a # bs)" for k
    using assms(2) keys by simp
  ultimately have "flight_ok p \<lparr> flight_bytes = flight_bytes fl - ?freed, flight_sources = ?m \<rparr> (as @ ?a # bs)"
    using ok sum assms(2) by (intro flight_ok_less [OF ok]) (auto simp: flight_ok_def)
  then show ?thesis using upd sum assms(2) by (simp add: keep_def Let_def)
qed

lemma drop_ok:
  assumes ok: "flight_ok p fl (as @ a # bs)"
  shows "\<exists>fl'. drop_admission fl a = Some fl' \<and> flight_ok p fl' (as @ bs)"
proof -
  let ?ks = "map fst (adm_sources a)"
  let ?f = "\<lambda>h. if held_requests h < 1 \<or> held_bytes h < adm_bytes a then None
    else Some (if held_requests h - 1 = 0 then None
      else Some (h\<lparr>held_requests := held_requests h - 1, held_bytes := held_bytes h - adm_bytes a\<rparr>))"
  let ?m = "\<lambda>k. if k \<in> set ?ks then the (?f (the (flight_sources fl k))) else flight_sources fl k"
  have "distinct ?ks" using ok by (simp add: flight_ok_def)
  then have upd: "update_each ?f (flight_sources fl) ?ks = Some ?m"
    using accounts_at [OF ok] by (intro update_each_Some) auto
  have sum: "flight_bytes fl = sum_list (map adm_bytes (as @ a # bs))" using ok by (simp add: flight_ok_def)
  have "?m = accounts (as @ bs)"
  proof
    fix k
    show "?m k = accounts (as @ bs) k"
    proof (cases "k \<in> set ?ks")
      case True
      then show ?thesis using accounts_at [OF ok True] by (auto simp: accounts_def bytes_for_none)
    next
      case False
      then show ?thesis using ok by (simp add: flight_ok_def accounts_def keys_of_def)
    qed
  qed
  moreover have "count_for k (as @ bs) \<le> count_for k (as @ a # bs) \<and> bytes_for k (as @ bs) \<le> bytes_for k (as @ a # bs)" for k
    by simp
  ultimately have "flight_ok p \<lparr> flight_bytes = flight_bytes fl - adm_bytes a, flight_sources = ?m \<rparr> (as @ bs)"
    using ok sum by (intro flight_ok_less [OF ok]) (auto simp: flight_ok_def)
  then show ?thesis using upd sum by (simp add: drop_admission_def)
qed

lemma flying_ok: "flying p fl as \<Longrightarrow> flight_ok p fl as"
proof (induction rule: flying.induct)
  case idle
  then show ?case by (auto simp: flight_ok_def no_flight_def accounts_def count_for_def bytes_for_def)
next
  case (kept fl as a bs bytes a' fl')
  then show ?case using keep_ok by fastforce
next
  case (ended fl as a bs fl')
  then show ?case using drop_ok by fastforce
qed (auto intro: admit_ok)

text \<open>
  C25. The service's accounts are exact and its limits hold, in every state that any interleaving of
  requests reaches: the bytes in flight are those of the live requests and within the service's limit,
  what each source holds is the number and bytes of its own live requests and within its limits, and
  neither giving bytes back nor ending a request can fail.
\<close>

theorem in_flight_exact:
  assumes "flying p fl as"
  shows "flight_bytes fl = sum_list (map adm_bytes as) \<and> flight_bytes fl \<le> bytes_at_once_in_all p \<and>
    (\<forall>k. held_requests (held_of fl k) = count_for k as \<and> held_bytes (held_of fl k) = bytes_for k as \<and>
      count_for k as \<le> requests_at_once p * scale_of k \<and> bytes_for k as \<le> bytes_at_once p * scale_of k) \<and>
    (\<forall>xs a ys bytes. as = xs @ a # ys \<longrightarrow>
      (bytes \<le> adm_bytes a \<longrightarrow> keep fl a bytes \<noteq> None) \<and> drop_admission fl a \<noteq> None)"
proof -
  have ok: "flight_ok p fl as" by (rule flying_ok [OF assms])
  then have "keep fl a bytes \<noteq> None" if "as = xs @ a # ys" "bytes \<le> adm_bytes a" for xs a ys bytes
    using keep_ok [of p fl xs a ys bytes] that by auto
  moreover have "drop_admission fl a \<noteq> None" if "as = xs @ a # ys" for xs a ys
    using drop_ok [of p fl xs a ys] ok that by auto
  ultimately show ?thesis
    using ok held_of_accounts [of fl as] by (auto simp: flight_ok_def)
qed

definition default_policy :: policy where
  "default_policy =
     \<lparr> retention_days = 7, disk = 4 * 2 ^ 30, appends_per_minute = 600, append_bytes_per_day = 256 * 2 ^ 20,
       reads_per_minute = 600, read_bytes_per_minute = 64 * 2 ^ 20, new_logs_per_day = 2000, requests_at_once = 8,
       bytes_at_once = 16 * 2 ^ 20, bytes_at_once_in_all = 256 * 2 ^ 20, db_work = 4, policy_sources = 2 ^ 20 \<rparr>"

theorem in_flight_exact_witness:
  "\<exists>fl a. admit default_policy no_flight (IpV4 7) AppendRoute 100 = Some (a, fl) \<and>
     flight_bytes fl = sum_list (map adm_bytes [a]) \<and> drop_admission fl a \<noteq> None"
proof -
  obtain a fl where run: "admit default_policy no_flight (IpV4 7) AppendRoute 100 = Some (a, fl)"
    by (simp add: admit_def default_policy_def no_flight_def sources_of_def held_of_def Let_def)
  have fly: "flying default_policy fl [a]" by (rule flying.admitted [OF flying.idle run])
  show ?thesis using in_flight_exact [OF fly] run by fastforce
qed

end
