(* ===== verification/Routes.thy ===== *)
theory Routes
  imports Flight
begin

text \<open>
  The service's routes (\<open>Service::append\<close>, \<open>read\<close>, \<open>heads\<close>, \<open>answer\<close>, \<open>post\<close> and \<open>expire\<close> of
  \<open>crates/membership/src/service.rs\<close>) over the store and the budgets. The JSON of a body and of an
  answer are parameters: a route takes what \<open>decode\<close> read, if anything, and \<open>to_vec\<close> writes the answer.
  What a request finds of its surroundings (the time, whether a slot for database work came, the store's
  nonces and file sizes) is the record \<open>env\<close>.
\<close>

section \<open>State\<close>

record budgets =
  b_appends :: quota
  b_append_bytes :: quota
  b_reads :: quota
  b_read_bytes :: quota
  b_new_logs :: quota

definition budgets_new :: "policy \<Rightarrow> budgets" where
  "budgets_new p =
     \<lparr> b_appends = quota_new MINUTE (appends_per_minute p) (policy_sources p),
       b_append_bytes = quota_new DAY_MS (append_bytes_per_day p) (policy_sources p),
       b_reads = quota_new MINUTE (reads_per_minute p) (policy_sources p),
       b_read_bytes = quota_new MINUTE (read_bytes_per_minute p) (policy_sources p),
       b_new_logs = quota_new DAY_MS (new_logs_per_day p) (policy_sources p) \<rparr>"

record service =
  sv_store :: store
  sv_policy :: policy
  sv_budgets :: budgets

definition service_new :: "store \<Rightarrow> policy \<Rightarrow> service" where
  "service_new st p = \<lparr> sv_store = st\<lparr>s_disk := disk p\<rparr>, sv_policy = p, sv_budgets = budgets_new p \<rparr>"

record env =
  env_at :: nat
  env_slot :: bool
  env_nonce :: "nat \<Rightarrow> bytes"
  env_state_nonce :: bytes
  env_used :: nat
  env_now :: nat
  env_signed_at :: u64

datatype reply = Appended head | PageOf page | MovedTo "head list" "expiry list"

datatype 'v answer = AnswerOk 'v | AnswerRefused refusal bytes | AnswerExpired bytes

section \<open>Routes\<close>

abbreviation rate_limited :: store_error where "rate_limited \<equiv> Refused (lit ''rate'')"
abbreviation policy_refused :: store_error where "policy_refused \<equiv> Refused (lit ''policy'')"
abbreviation busy_refused :: store_error where "busy_refused \<equiv> Refused (lit ''busy'')"

text \<open>The work under a slot: whether the log starts, then the append.\<close>

definition append_work ::
  "crypto \<Rightarrow> store \<Rightarrow> env \<Rightarrow> bool \<Rightarrow> log \<Rightarrow> bytes list \<Rightarrow> store_error + (head \<times> bool) \<times> store" where
  "append_work C st env may_start l entries =
     rbind (records_log C st l) (\<lambda>recorded.
     (let started = \<not> recorded
      in rbind (ensure (may_start \<or> \<not> started) rate_limited) (\<lambda>_.
         rbind (store_append C st (env_nonce env) (env_state_nonce env) (env_used env) (env_now env) (env_signed_at env) l entries)
           (\<lambda>(h, st). Inr ((h, started), st)))))"

definition service_append ::
  "crypto \<Rightarrow> service \<Rightarrow> env \<Rightarrow> (source \<times> nat) list \<Rightarrow> (bytes \<times> bytes list) option \<Rightarrow> (store_error + reply) \<times> service" where
  "service_append C sv env sources decoded =
     (case decoded of
        None \<Rightarrow> (Inl policy_refused, sv)
      | Some (capability, entries) \<Rightarrow>
          let l = log_for C (sv_store sv) capability; bytes = sum_list (map length entries); b = sv_budgets sv;
              taken = take_quota (b_appends b) (env_at env) sources 1; b = b\<lparr>b_appends := snd taken\<rparr>
          in if \<not> fst taken then (Inl rate_limited, sv\<lparr>sv_budgets := b\<rparr>)
             else
               let taken = take_quota (b_append_bytes b) (env_at env) sources bytes; b = b\<lparr>b_append_bytes := snd taken\<rparr>
               in if \<not> fst taken then (Inl rate_limited, sv\<lparr>sv_budgets := b\<rparr>)
                  else
                    let start = fits (b_new_logs b) (env_at env) sources 1; b = b\<lparr>b_new_logs := snd start\<rparr>;
                        sv = sv\<lparr>sv_budgets := b\<rparr>
                    in if \<not> env_slot env then (Inl busy_refused, sv)
                       else (case append_work C (sv_store sv) env (fst start) l entries of
                           Inl e \<Rightarrow> (Inl e, sv)
                         | Inr ((h, started), st) \<Rightarrow>
                             (Inr (Appended h), sv\<lparr>sv_store := st, sv_budgets := if started
                               then b\<lparr>b_new_logs := charge (b_new_logs b) (env_at env) sources 1\<rparr> else b\<rparr>)))"

text \<open>The reads' budgets: a request each, while the bytes of the minute are not spent.\<close>

definition take_read :: "budgets \<Rightarrow> nat \<Rightarrow> (source \<times> nat) list \<Rightarrow> bool \<times> budgets" where
  "take_read b at sources =
     (let taken = take_quota (b_reads b) at sources 1; b = b\<lparr>b_reads := snd taken\<rparr>
      in if \<not> fst taken then (False, b)
         else (let f = fits (b_read_bytes b) at sources 0 in (fst f, b\<lparr>b_read_bytes := snd f\<rparr>)))"

definition service_read ::
  "crypto \<Rightarrow> service \<Rightarrow> env \<Rightarrow> (source \<times> nat) list \<Rightarrow> (bytes \<times> nat) option \<Rightarrow> (store_error + reply) \<times> service" where
  "service_read C sv env sources decoded =
     (case decoded of
        None \<Rightarrow> (Inl policy_refused, sv)
      | Some (capability, after) \<Rightarrow>
          let l = log_for C (sv_store sv) capability; t = take_read (sv_budgets sv) (env_at env) sources;
              sv = sv\<lparr>sv_budgets := snd t\<rparr>
          in if \<not> fst t then (Inl rate_limited, sv)
             else if \<not> env_slot env then (Inl busy_refused, sv)
             else (rbind (store_read C (sv_store sv) (env_signed_at env) l after) (\<lambda>p. Inr (PageOf p)), sv))"

definition expiry_sig :: "crypto \<Rightarrow> service \<Rightarrow> bytes \<Rightarrow> bytes" where
  "expiry_sig C sv log_ref = ed_sign C (s_key (sv_store sv)) (expiry_message log_ref)"

definition service_heads ::
  "crypto \<Rightarrow> service \<Rightarrow> env \<Rightarrow> (source \<times> nat) list \<Rightarrow> (bytes \<times> nat) list option \<Rightarrow> (store_error + reply) \<times> service" where
  "service_heads C sv env sources decoded =
     (case decoded of
        None \<Rightarrow> (Inl policy_refused, sv)
      | Some known \<Rightarrow>
          let logs = map (\<lambda>(capability, len). (log_for C (sv_store sv) capability, len)) known;
              t = take_read (sv_budgets sv) (env_at env) sources; sv = sv\<lparr>sv_budgets := snd t\<rparr>
          in if \<not> fst t then (Inl rate_limited, sv)
             else if \<not> env_slot env then (Inl busy_refused, sv)
             else (rbind (moved C (sv_store sv) (env_signed_at env) logs) (\<lambda>(heads, gone).
                 Inr (MovedTo heads (map (\<lambda>r. \<lparr> e_log_ref = r, e_sig = expiry_sig C sv r \<rparr>) gone))), sv))"

text \<open>An error that is neither a log's expiry nor a known refusal is the service's own failure: no answer.\<close>

definition answer_of :: "crypto \<Rightarrow> service \<Rightarrow> bytes \<Rightarrow> store_error + 'v \<Rightarrow> store_error + 'v answer" where
  "answer_of C sv body result =
     (case result of
        Inr value \<Rightarrow> Inr (AnswerOk value)
      | Inl (ExpiredLog log_ref) \<Rightarrow> Inr (AnswerExpired (expiry_sig C sv log_ref))
      | Inl (Refused code) \<Rightarrow>
          (case from_code code of
             None \<Rightarrow> Inl (Refused code)
           | Some refusal \<Rightarrow> Inr (AnswerRefused refusal (ed_sign C (s_key (sv_store sv)) (refusal_message C refusal body))))
      | Inl e \<Rightarrow> Inl e)"

datatype request = AppendBody "(bytes \<times> bytes list) option" | ReadBody "(bytes \<times> nat) option" | HeadsBody "(bytes \<times> nat) list option"

definition handle :: "crypto \<Rightarrow> service \<Rightarrow> env \<Rightarrow> (source \<times> nat) list \<Rightarrow> request \<Rightarrow> (store_error + reply) \<times> service" where
  "handle C sv env sources req =
     (case req of
        AppendBody d \<Rightarrow> service_append C sv env sources d
      | ReadBody d \<Rightarrow> service_read C sv env sources d
      | HeadsBody d \<Rightarrow> service_heads C sv env sources d)"

definition post ::
  "crypto \<Rightarrow> (reply answer \<Rightarrow> bytes) \<Rightarrow> service \<Rightarrow> env \<Rightarrow> admission \<Rightarrow> bytes \<Rightarrow> request \<Rightarrow> (store_error + bytes) \<times> service" where
  "post C to_vec sv env adm body req =
     (case handle C sv env (adm_sources adm) req of (result, sv) \<Rightarrow>
        (case answer_of C sv body result of
           Inl e \<Rightarrow> (Inl e, sv)
         | Inr a \<Rightarrow>
             (Inr (to_vec a),
              if (case req of AppendBody _ \<Rightarrow> True | _ \<Rightarrow> False) then sv
              else sv\<lparr>sv_budgets := (sv_budgets sv)\<lparr>b_read_bytes :=
                charge (b_read_bytes (sv_budgets sv)) (env_at env) (adm_sources adm) (length (to_vec a))\<rparr>\<rparr>)))"

definition service_expire :: "(bytes list \<Rightarrow> nat) \<Rightarrow> service \<Rightarrow> bool \<Rightarrow> nat \<Rightarrow> nat \<Rightarrow> bool \<times> service" where
  "service_expire pick sv slot now now' =
     (let before = now - retention_days (sv_policy sv) * DAY_MS
      in if \<not> slot then (False, sv)
         else (case store_expire pick (sv_store sv) now' before of
             Inl _ \<Rightarrow> (False, sv)
           | Inr (left, st) \<Rightarrow> (left, sv\<lparr>sv_store := st\<rparr>)))"

section \<open>What the routes change\<close>

lemma append_work_Inr:
  "append_work C st env may l entries = Inr ((h, started), st') \<Longrightarrow>
     store_append C st (env_nonce env) (env_state_nonce env) (env_used env) (env_now env) (env_signed_at env) l entries = Inr (h, st')"
  by (auto simp: append_work_def rbind_Inr_iff Let_def)

lemma service_append_store:
  "case service_append C sv env sources (Some (capability, entries)) of
     (Inl e, sv') \<Rightarrow> sv_store sv' = sv_store sv
   | (Inr r, sv') \<Rightarrow> \<exists>h. r = Appended h \<and>
       store_append C (sv_store sv) (env_nonce env) (env_state_nonce env) (env_used env) (env_now env) (env_signed_at env)
         (log_for C (sv_store sv) capability) entries = Inr (h, sv_store sv')"
  by (auto simp: service_append_def Let_def dest!: append_work_Inr split: sum.splits prod.splits if_splits)

lemma reads_keep_store:
  "sv_store (snd (service_read C sv env sources d)) = sv_store sv"
  "sv_store (snd (service_heads C sv env sources known)) = sv_store sv"
  by (auto simp: service_read_def service_heads_def Let_def split: option.splits)


definition toy_env :: env where
  "toy_env = \<lparr> env_at = 5, env_slot = True, env_nonce = (\<lambda>_. replicate 24 0), env_state_nonce = replicate 24 0,
     env_used = 0, env_now = 5, env_signed_at = 7 \<rparr>"


section \<open>Passes of expiry end\<close>

text \<open>
  The loop \<open>while service.expire().await {}\<close>: at most \<open>fuel\<close> passes, each at its own time; \<open>None\<close> when
  they are used up. \<open>Some n\<close> is the number of passes.
\<close>

fun expire_loop :: "nat \<Rightarrow> (nat \<Rightarrow> bytes list \<Rightarrow> nat) \<Rightarrow> (nat \<Rightarrow> bool \<times> nat \<times> nat) \<Rightarrow> nat \<Rightarrow> service \<Rightarrow> (nat \<times> service) option" where
  "expire_loop 0 picks readings n sv = None"
| "expire_loop (Suc fuel) picks readings n sv =
     (case readings n of (slot, now, now') \<Rightarrow>
      (case service_expire (picks n) sv slot now now' of
         (False, sv) \<Rightarrow> Some (Suc n, sv)
       | (True, sv) \<Rightarrow> expire_loop fuel picks readings (Suc n) sv))"

definition expire_measure :: "store \<Rightarrow> nat" where
  "expire_measure st = 2 * length (anchors st) + length (expired st) + length (records st)"

lemma service_expire_wf [wf_intros]:
  assumes "wf_store (sv_store sv)"
  shows "wf_store (sv_store (snd (service_expire pick sv slot now now')))"
  using expire_pass_wf [OF assms, of pick now' "now - retention_days (sv_policy sv) * DAY_MS"] assms
  by (auto simp: service_expire_def Let_def split: sum.splits prod.splits)

lemma service_expire_measure:
  assumes "wf_store (sv_store sv)" and "service_expire pick sv slot now now' = (True, sv')"
  shows "expire_measure (sv_store sv') < expire_measure (sv_store sv)"
  using assms(2) expire_pass_progress [OF assms(1)]
  by (auto simp: service_expire_def Let_def expire_measure_def split: sum.splits if_splits)



end
