(* ===== verification/Client.thy ===== *)
theory Client
  imports Routes Clock
begin

text \<open>
  A member's client of the membership routes (\<open>crates/membership/src/client.rs\<close>). The transport and
  the JSON are parameters: a request takes the transport's outcome, and \<open>from_slice\<close> reads a reply. What a
  reply claims is believed only under the service's signature. The state is whether the client stopped
  (a route answered 404) and the clock reading it feeds.
\<close>

section \<open>State and operations\<close>

datatype client_error =
  Unsupported bytes | Transport | InvalidReply | ForgedReply | RefusedBy bytes | LetGo bytes
  | OtherDirectory bytes | UnsupportedService | BadProof proof_error

definition answered :: "bytes \<Rightarrow> nat \<Rightarrow> bytes \<Rightarrow> client_error + bytes" where
  "answered domain status body =
     (if status = 200 then (if length body \<le> MAX_BODY then Inr body else Inl Transport)
      else if status = 404 then Inl (Unsupported domain)
      else Inl Transport)"

text \<open>The directory a domain publishes must name the group's key.\<close>

definition directory_for :: "(bytes \<Rightarrow> client_error + bytes) \<Rightarrow> (bytes \<times> bytes) option \<Rightarrow> client_error + bytes" where
  "directory_for resolve service =
     (case service of
        None \<Rightarrow> Inl UnsupportedService
      | Some (key, domain) \<Rightarrow>
          rbind (resolve domain) (\<lambda>found. if found \<noteq> key then Inl (OtherDirectory domain) else Inr found))"

record client =
  c_domain :: bytes
  c_key :: bytes
  c_stopped :: "bytes option"

definition request ::
  "crypto \<Rightarrow> client \<Rightarrow> (bytes \<Rightarrow> 'v answer option) \<Rightarrow> client_error + bytes \<Rightarrow> bytes \<Rightarrow> bytes option \<Rightarrow> (client_error + 'v) \<times> client" where
  "request C cl from_slice outcome body log_ref =
     (case c_stopped cl of
        Some d \<Rightarrow> (Inl (Unsupported d), cl)
      | None \<Rightarrow>
          (case outcome of
             Inl e \<Rightarrow> (Inl e, case e of Unsupported d \<Rightarrow> cl\<lparr>c_stopped := Some d\<rparr> | _ \<Rightarrow> cl)
           | Inr reply \<Rightarrow>
               (case from_slice reply of
                  None \<Rightarrow> Inl InvalidReply
                | Some (AnswerOk value) \<Rightarrow> Inr value
                | Some (AnswerRefused refusal s) \<Rightarrow>
                    rbind (ensure (length s = 64) ForgedReply) (\<lambda>_.
                    rbind (ensure (ed_verify C (c_key cl) (refusal_message C refusal body) s) ForgedReply) (\<lambda>_.
                      Inl (RefusedBy (refusal_code refusal))))
                | Some (AnswerExpired s) \<Rightarrow>
                    (case log_ref of
                       None \<Rightarrow> Inl InvalidReply
                     | Some r \<Rightarrow>
                         rbind (ensure (expiry_verify C (c_key cl) \<lparr> e_log_ref = r, e_sig = s \<rparr>) ForgedReply) (\<lambda>_.
                           Inl (LetGo r))), cl)))"

definition record_time :: "reading \<Rightarrow> u64 \<Rightarrow> u64 \<Rightarrow> head \<Rightarrow> client_error + reading" where
  "record_time kept sent now h =
     rbind (ensure (unat (h_time h) < 2 ^ 63) (BadProof InvalidProof)) (\<lambda>_. Inr (heard kept sent now (h_time h)))"

definition proof_result :: "proof_error + 'a \<Rightarrow> client_error + 'a" where
  "proof_result r = (case r of Inl e \<Rightarrow> Inl (BadProof e) | Inr x \<Rightarrow> Inr x)"

definition client_append ::
  "crypto \<Rightarrow> client \<Rightarrow> (bytes \<Rightarrow> head answer option) \<Rightarrow> client_error + bytes \<Rightarrow> bytes \<Rightarrow> reading \<Rightarrow> u64 \<Rightarrow> u64 \<Rightarrow>
     bytes \<Rightarrow> bytes list \<Rightarrow> (client_error + head \<times> reading) \<times> client" where
  "client_append C cl from_slice outcome body kept sent now capability entries =
     (if \<not> valid_append entries then (Inl (RefusedBy (lit ''size'')), cl)
      else
        (let r = reference_of C (c_key cl) capability; q = request C cl from_slice outcome body (Some r)
         in (rbind (fst q) (\<lambda>h.
             rbind (proof_result (check C (frontier_empty C (c_key cl) r) h None)) (\<lambda>_.
             rbind (record_time kept sent now h) (\<lambda>kept. Inr (h, kept)))), snd q)))"

definition client_read ::
  "crypto \<Rightarrow> client \<Rightarrow> (bytes \<Rightarrow> page answer option) \<Rightarrow> client_error + bytes \<Rightarrow> bytes \<Rightarrow> reading \<Rightarrow> u64 \<Rightarrow> u64 \<Rightarrow>
     bytes \<Rightarrow> frontier \<Rightarrow> (client_error + page \<times> reading) \<times> client" where
  "client_read C cl from_slice outcome body kept sent now capability anchor =
     (if \<not> (f_service anchor = c_key cl \<and> f_log_ref anchor = reference_of C (c_key cl) capability)
      then (Inl (BadProof WrongLog), cl)
      else
        (let q = request C cl from_slice outcome body (Some (f_log_ref anchor))
         in (rbind (fst q) (\<lambda>p.
             rbind (proof_result (verify_page C anchor p)) (\<lambda>p.
             rbind (record_time kept sent now (p_head p)) (\<lambda>kept. Inr (p, kept)))), snd q)))"

definition named_in :: "crypto \<Rightarrow> client \<Rightarrow> (bytes \<times> nat) list \<Rightarrow> bytes \<Rightarrow> bool" where
  "named_in C cl chunk r \<longleftrightarrow> list_ex (\<lambda>(capability, _). reference_of C (c_key cl) capability = r) chunk"

text \<open>The heads of one answer: each signed, and of a log the chunk names.\<close>

fun take_heads :: "crypto \<Rightarrow> client \<Rightarrow> (bytes \<times> nat) list \<Rightarrow> u64 \<Rightarrow> u64 \<Rightarrow> reading \<Rightarrow> head list \<Rightarrow> client_error + head list \<times> reading" where
  "take_heads C cl chunk sent now kept [] = Inr ([], kept)"
| "take_heads C cl chunk sent now kept (h # hs) =
     (if \<not> head_verify C (c_key cl) h then Inl (OtherDirectory (c_domain cl))
      else rbind (ensure (named_in C cl chunk (h_log_ref h)) (BadProof WrongLog)) (\<lambda>_.
           rbind (record_time kept sent now h) (\<lambda>kept.
           rbind (take_heads C cl chunk sent now kept hs) (\<lambda>(taken, kept). Inr (h # taken, kept)))))"

definition take_expiries :: "crypto \<Rightarrow> client \<Rightarrow> (bytes \<times> nat) list \<Rightarrow> expiry list \<Rightarrow> expiry list" where
  "take_expiries C cl chunk es =
     filter (\<lambda>e. expiry_verify C (c_key cl) e \<and> named_in C cl chunk (e_log_ref e)) es"

text \<open>One request per chunk of at most \<open>HEAD_LOGS\<close> logs: its outcome, its body and its times.\<close>

fun chunks :: "nat \<Rightarrow> 'a list \<Rightarrow> 'a list list" where
  "chunks n xs = (if xs = [] \<or> n = 0 then [] else take n xs # chunks n (drop n xs))"

declare chunks.simps [simp del]

fun client_heads ::
  "crypto \<Rightarrow> client \<Rightarrow> (bytes \<Rightarrow> (head list \<times> expiry list) answer option) \<Rightarrow>
     ((client_error + bytes) \<times> bytes \<times> u64 \<times> u64) list \<Rightarrow> reading \<Rightarrow> (bytes \<times> nat) list list \<Rightarrow>
     (client_error + (head list \<times> expiry list) \<times> reading) \<times> client" where
  "client_heads C cl from_slice outcomes kept [] = (Inr (([], []), kept), cl)"
| "client_heads C cl from_slice [] kept (chunk # cs) = (Inl Transport, cl)"
| "client_heads C cl from_slice ((outcome, body, sent, now) # outcomes) kept (chunk # cs) =
     (case request C cl from_slice outcome body None of
        (Inl e, cl1) \<Rightarrow> (Inl e, cl1)
      | (Inr (hs, gone), cl1) \<Rightarrow>
          (case take_heads C cl1 chunk sent now kept hs of
             Inl e \<Rightarrow> (Inl e, cl1)
           | Inr (taken, kept1) \<Rightarrow>
               (case client_heads C cl1 from_slice outcomes kept1 cs of
                  (Inl e, cl2) \<Rightarrow> (Inl e, cl2)
                | (Inr ((hs2, gone2), kept2), cl2) \<Rightarrow>
                    (Inr ((taken @ hs2, take_expiries C cl1 chunk gone @ gone2), kept2), cl2))))"

section \<open>What a client believes\<close>

lemma request_cases:
  assumes "request C cl from_slice outcome body log_ref = (r, cl')"
  shows "(r = Inr v \<longrightarrow> (\<exists>reply. c_stopped cl = None \<and> outcome = Inr reply \<and> from_slice reply = Some (AnswerOk v))) \<and>
    (r = Inl (RefusedBy code) \<longrightarrow> (\<forall>e. outcome \<noteq> Inl e) \<longrightarrow>
      (\<exists>refusal s. code = refusal_code refusal \<and> ed_verify C (c_key cl) (refusal_message C refusal body) s)) \<and>
    (r = Inl (LetGo l) \<longrightarrow> (\<forall>e. outcome \<noteq> Inl e) \<longrightarrow>
      log_ref = Some l \<and> (\<exists>s. expiry_verify C (c_key cl) \<lparr> e_log_ref = l, e_sig = s \<rparr>)) \<and>
    c_key cl' = c_key cl \<and> (c_stopped cl \<noteq> None \<longrightarrow> c_stopped cl' = c_stopped cl)"
  using assms unfolding request_def
  by (auto simp: ensure_def rbind_def split: option.splits sum.splits answer.splits client_error.splits if_splits)

text \<open>
  C27. A client believes only what the service signed, whatever the transport delivers. A page it returns
  extends the anchor's log under a head the service signed; a refusal it reports is one the service signed
  for exactly this request; a log it reports let go is the one it asked for, and the service signed that
  it went; and the clock reading moves only by a page it accepted.
\<close>

theorem client_read_believes_signed:
  assumes "frontier_at C anchor es" and "\<forall>e. outcome \<noteq> Inl e"
    and "client_read C cl from_slice outcome body kept sent now capability anchor = (r, cl')"
  shows "case r of
      Inr (p, kept') \<Rightarrow>
        head_verify C (c_key cl) (p_head p) \<and> h_log_ref (p_head p) = reference_of C (c_key cl) capability \<and>
        frontier_at C (follow anchor p) (es @ p_entries p) \<and> kept' = heard kept sent now (h_time (p_head p))
    | Inl (RefusedBy code) \<Rightarrow>
        \<exists>refusal s. code = refusal_code refusal \<and> ed_verify C (c_key cl) (refusal_message C refusal body) s
    | Inl (LetGo l) \<Rightarrow>
        l = reference_of C (c_key cl) capability \<and> (\<exists>s. expiry_verify C (c_key cl) \<lparr> e_log_ref = l, e_sig = s \<rparr>)
    | Inl _ \<Rightarrow> True"
proof (cases "f_service anchor = c_key cl \<and> f_log_ref anchor = reference_of C (c_key cl) capability")
  case False
  then show ?thesis using assms(3) by (auto simp: client_read_def)
next
  case True
  obtain q cl2 where q: "request C cl from_slice outcome body (Some (f_log_ref anchor)) = (q, cl2)"
    by (cases "request C cl from_slice outcome body (Some (f_log_ref anchor))")
  note req = request_cases [OF q]
  have r: "r = rbind q (\<lambda>p. rbind (proof_result (verify_page C anchor p)) (\<lambda>p.
      rbind (record_time kept sent now (p_head p)) (\<lambda>kept. Inr (p, kept))))"
    using assms(3) True q by (simp add: client_read_def)
  show ?thesis
  proof (cases q)
    case (Inl e)
    then show ?thesis using r req assms(2) True by (auto split: client_error.splits)
  next
    case (Inr p)
    show ?thesis
    proof (cases "verify_page C anchor p")
      case bad: (Inl e)
      then show ?thesis using r Inr by (simp add: proof_result_def)
    next
      case good: (Inr p')
      then have p': "p' = p" by (simp add: verify_page_Inr_iff)
      have "head_verify C (c_key cl) (p_head p) \<and> h_log_ref (p_head p) = reference_of C (c_key cl) capability"
        using good True by (auto simp: verify_page_Inr_iff check_Inr_iff)
      then show ?thesis
        using r Inr good p' verify_page_follow [OF assms(1) good]
        by (cases "unat (h_time (p_head p)) < 2 ^ 63") (simp_all add: proof_result_def record_time_def)
    qed
  qed
qed

definition toy_client :: client where
  "toy_client = \<lparr> c_domain = [], c_key = ed_public toy_crypto [], c_stopped = None \<rparr>"

definition toy_reply :: "u64 \<Rightarrow> page" where
  "toy_reply time = (let pk = ed_public toy_crypto []; r = reference_of toy_crypto pk [] in
     \<lparr> p_after = 0, p_entries = [[1, 2]],
       p_head = head_sign toy_crypto [] r 1 (chain toy_crypto (start toy_crypto pk r) [[1, 2]]) time \<rparr>)"

lemma toy_reply_verifies:
  "verify_page toy_crypto (frontier_empty toy_crypto (ed_public toy_crypto []) (reference_of toy_crypto (ed_public toy_crypto []) []))
     (toy_reply time) = Inr (toy_reply time)"
  using toy_sign_law [of "[]"]
  by (auto simp: verify_page_Inr_iff check_Inr_iff frontier_empty_def toy_reply_def Let_def head_sign_def
      head_verify_def sign_law_def valid_page_def limit_defs encoded_page_bytes_def encoded_entry_bytes_def
      div_ceil_def checked_add_def)

theorem client_read_believes_signed_witness:
  "head_verify toy_crypto (ed_public toy_crypto []) (p_head (toy_reply 5))"
proof -
  let ?pk = "ed_public toy_crypto []" let ?f = "frontier_empty toy_crypto ?pk (reference_of toy_crypto ?pk [])"
  have "frontier_at toy_crypto ?f []" by (simp add: frontier_at_def frontier_empty_def)
  moreover have "client_read toy_crypto toy_client (\<lambda>_. Some (AnswerOk (toy_reply 5))) (Inr []) [] None 1 2 [] ?f =
      (Inr (toy_reply 5, heard None 1 2 5), toy_client)"
    using toy_reply_verifies [of 5]
    by (simp add: client_read_def request_def toy_client_def frontier_empty_def proof_result_def record_time_def)
      (simp add: toy_reply_def Let_def head_sign_def)
  ultimately show ?thesis
    using client_read_believes_signed [of toy_crypto ?f "[]" "Inr []" toy_client] by (fastforce simp: toy_client_def)
qed

section \<open>Client and service together\<close>

lemma service_read_granted:
  assumes "handle C sv env sources (ReadBody (Some (capability, after))) = (Inr value, sv')"
  shows "\<exists>p. value = PageOf p \<and>
    store_read C (sv_store sv) (env_signed_at env) (log_for C (sv_store sv) capability) after = Inr p"
  using assms by (auto simp: handle_def service_read_def Let_def rbind_Inr_iff split: if_splits)

text \<open>
  C31. A read a service grants is one its reader accepts: for a log the service holds and a reader whose
  frontier stands at one of its positions, the page the route answers passes every check of the client
  and is not empty while entries are left. The reply is the answer's JSON read back, and the service's
  clock is before the year 292 million.
\<close>

theorem granted_read_is_accepted:
  assumes laws: "digest_law C" "sign_law C (s_key (sv_store sv))"
    and held: "wf_store (sv_store sv)" "log_holds C (sv_store sv) (log_for C (sv_store sv) capability) es"
    and reader: "after \<le> length es" "frontier_at C anchor (take after es)"
      "f_service anchor = ed_public C (s_key (sv_store sv))" "f_log_ref anchor = reference_of C (f_service anchor) capability"
    and granted: "handle C sv env sources (ReadBody (Some (capability, after))) = (Inr value, sv')"
    and client: "c_key cl = f_service anchor" "c_stopped cl = None" "unat (env_signed_at env) < 2 ^ 63"
    and json: "\<forall>p. value = PageOf p \<longrightarrow> from_slice reply = Some (AnswerOk p)"
  shows "\<exists>p kept' rest. value = PageOf p \<and>
    client_read C cl from_slice (Inr reply) body kept sent now capability anchor = (Inr (p, kept'), cl) \<and>
    drop after es = p_entries p @ rest \<and> (after < length es \<longrightarrow> p_entries p \<noteq> [])"
proof -
  let ?l = "log_for C (sv_store sv) capability"
  have ref: "f_log_ref anchor = l_reference ?l" using reader(3,4) by (simp add: log_for_def)
  obtain p where p: "value = PageOf p" "store_read C (sv_store sv) (env_signed_at env) ?l after = Inr p"
    using service_read_granted [OF granted] by blast
  obtain p' rest where "store_read C (sv_store sv) (env_signed_at env) ?l after = Inr p'"
    "verify_page C anchor p' = Inr p'" "drop after es = p_entries p' @ rest" "after < length es \<longrightarrow> p_entries p' \<noteq> []"
    using read_verifies [OF laws held reader(1,2,3) ref] by blast
  moreover have "h_time (p_head p) = env_signed_at env"
    using p(2) by (auto simp: store_read_def rbind_Inr_iff store_sign_def head_sign_def)
  ultimately show ?thesis
    using p json client reader(3,4) ref
    by (auto simp: client_read_def request_def proof_result_def record_time_def)
qed

lemma default_read_granted: "fst (take_read (budgets_new default_policy) at [(V4 7, 1)])"
  by (simp add: take_read_def take_quota_def fits_def fits_in_def charge_def charge_key_def tracks_def roll_def spent_of_def
      budgets_new_def quota_new_def default_policy_def Let_def)

theorem granted_read_is_accepted_witness:
  "\<exists>st p kept rest. log_holds toy_crypto st (log_for toy_crypto st [9]) [[1, 2], [3]] \<and>
     client_read toy_crypto toy_client (\<lambda>_. Some (AnswerOk p)) (Inr []) [] None 1 2 [9]
       (frontier_empty toy_crypto (ed_public toy_crypto []) (reference_of toy_crypto (ed_public toy_crypto []) [9])) =
       (Inr (p, kept), toy_client) \<and> [[1, 2], [3]] = p_entries p @ rest \<and> p_entries p \<noteq> []"
proof -
  let ?es = "[[1, 2], [3]] :: bytes list" and ?pk = "ed_public toy_crypto []"
  let ?l = "log_for toy_crypto empty_store [9]" let ?f = "frontier_empty toy_crypto ?pk (reference_of toy_crypto ?pk [9])"
  obtain st where st: "log_holds toy_crypto st ?l ?es" "wf_store st" "s_key st = []"
    using store_append_ok [OF toy_append_laws empty_store_holds, where l = ?l and used = 0 and now = 5 and t = 7 and fs = ?es] empty_store_wf
    by (auto simp: valid_append_def limit_defs empty_store_def)
  have l: "log_for toy_crypto st [9] = ?l" using st(3) by (simp add: log_for_def empty_store_def)
  let ?sv = "\<lparr> sv_store = st, sv_policy = default_policy, sv_budgets = budgets_new default_policy \<rparr>"
  have f: "frontier_at toy_crypto ?f (take 0 ?es)" by (simp add: frontier_at_def frontier_empty_def)
  have s: "f_service ?f = ed_public toy_crypto (s_key st)" "f_log_ref ?f = l_reference ?l" "sign_law toy_crypto (s_key st)"
    using st(3) toy_sign_law by (simp_all add: frontier_empty_def log_for_def empty_store_def)
  obtain p where p: "store_read toy_crypto st 7 ?l 0 = Inr p"
    using read_verifies [OF toy_digest_law s(3) st(2,1) _ f s(1,2), of 7] by auto
  have granted: "handle toy_crypto ?sv toy_env [(V4 7, 1)] (ReadBody (Some ([9], 0))) =
      (Inr (PageOf p), ?sv\<lparr>sv_budgets := snd (take_read (budgets_new default_policy) 5 [(V4 7, 1)])\<rparr>)"
    using p l default_read_granted [of 5] by (simp add: handle_def service_read_def toy_env_def Let_def)
  have "\<exists>p' kept' rest. PageOf p = PageOf p' \<and>
      client_read toy_crypto toy_client (\<lambda>_. Some (AnswerOk p)) (Inr []) [] None 1 2 [9] ?f = (Inr (p', kept'), toy_client) \<and>
      drop 0 ?es = p_entries p' @ rest \<and> (0 < length ?es \<longrightarrow> p_entries p' \<noteq> [])"
    by (rule granted_read_is_accepted [OF toy_digest_law _ _ _ _ f _ _ granted])
      (use st s l toy_sign_law in \<open>simp_all add: toy_client_def frontier_empty_def toy_env_def\<close>)
  then show ?thesis using st(1) l by (intro exI [of _ st]) auto
qed

end
