(* ===== verification/Header.thy ===== *)
theory Header
  imports Ranges Crypto
begin

text \<open>
  Held messages' headers (\<open>crates/proto/src/held.rs\<close>) and the seqs and signed statements members
  exchange (\<open>crates/proto/src/peer.rs\<close>). A \<open>serde_json::Value\<close> is the datatype \<open>json\<close>; reading and
  writing JSON text and base64 are parameters. A seq is a \<open>u64\<close>; epochs are naturals, as the code only
  compares and increments those it has itself.
\<close>

section \<open>JSON values\<close>

datatype json = JNull | JBool bool | JNum int | JStr bytes | JArr "json list" | JObj "(bytes \<times> json) list"

text \<open>\<open>value["key"]\<close>: null on what is no object, or has no such key.\<close>

fun json_get :: "json \<Rightarrow> bytes \<Rightarrow> json" where
  "json_get (JObj kvs) k = (case map_of kvs k of None \<Rightarrow> JNull | Some v \<Rightarrow> v)"
| "json_get _ k = JNull"

fun is_string :: "json \<Rightarrow> bool" where
  "is_string (JStr _) = True"
| "is_string _ = False"

definition type_of :: "json \<Rightarrow> bytes" where
  "type_of payload = (case json_get payload (map of_char ''type'') of JStr s \<Rightarrow> s | _ \<Rightarrow> [])"

text \<open>The elements of a tuple: a \<open>u64\<close>, and bytes in base64.\<close>

definition json_u64 :: "json \<Rightarrow> u64 option" where
  "json_u64 j = (case j of JNum i \<Rightarrow> if 0 \<le> i \<and> i < 2 ^ 64 then Some (word_of_int i) else None | _ \<Rightarrow> None)"

definition json_nat :: "json \<Rightarrow> nat option" where
  "json_nat j = map_option unat (json_u64 j)"

definition json_bytes :: "(bytes \<Rightarrow> bytes option) \<Rightarrow> json \<Rightarrow> bytes option" where
  "json_bytes decode64 j = (case j of JStr s \<Rightarrow> decode64 s | _ \<Rightarrow> None)"

section \<open>References and claims\<close>

record msg_ref =
  r_key :: bytes
  r_joined :: nat
  r_seq :: u64
  r_id :: bytes
  r_epoch :: nat

record claim =
  cl_key :: bytes
  cl_joined :: nat
  cl_seq :: u64

text \<open>\<open>leading\<close> keeps the first elements of an array: a later version may append more.\<close>

definition leading :: "json list \<Rightarrow> nat \<Rightarrow> json list" where
  "leading values n = take n values"

definition ref_of_values :: "(bytes \<Rightarrow> bytes option) \<Rightarrow> json list \<Rightarrow> msg_ref option" where
  "ref_of_values decode64 values =
     (case leading values 5 of
        [k, j, s, i, e] \<Rightarrow>
          (case (json_bytes decode64 k, json_nat j, json_u64 s, json_bytes decode64 i, json_nat e) of
             (Some key, Some joined, Some seq, Some ident, Some epoch) \<Rightarrow>
               Some \<lparr> r_key = key, r_joined = joined, r_seq = seq, r_id = ident, r_epoch = epoch \<rparr>
           | _ \<Rightarrow> None)
      | _ \<Rightarrow> None)"

definition ref_to_values :: "(bytes \<Rightarrow> bytes) \<Rightarrow> msg_ref \<Rightarrow> json list" where
  "ref_to_values encode64 r =
     [JStr (encode64 (r_key r)), JNum (int (r_joined r)), JNum (uint (r_seq r)), JStr (encode64 (r_id r)), JNum (int (r_epoch r))]"

definition claim_of_values :: "(bytes \<Rightarrow> bytes option) \<Rightarrow> json list \<Rightarrow> claim option" where
  "claim_of_values decode64 values =
     (case leading values 3 of
        [k, j, s] \<Rightarrow>
          (case (json_bytes decode64 k, json_nat j, json_u64 s) of
             (Some key, Some joined, Some seq) \<Rightarrow> Some \<lparr> cl_key = key, cl_joined = joined, cl_seq = seq \<rparr>
           | _ \<Rightarrow> None)
      | _ \<Rightarrow> None)"

definition claim_to_values :: "(bytes \<Rightarrow> bytes) \<Rightarrow> claim \<Rightarrow> json list" where
  "claim_to_values encode64 c = [JStr (encode64 (cl_key c)), JNum (int (cl_joined c)), JNum (uint (cl_seq c))]"

section \<open>Headers\<close>

record header =
  hd_group :: bytes
  hd_author :: bytes
  hd_joined :: nat
  hd_seq :: u64
  hd_epoch :: nat
  hd_prev :: "(bytes \<times> nat) option"
  hd_deps :: "msg_ref list"
  hd_reply_to :: "msg_ref option"
  hd_payload :: json

datatype header_error = NotJson | OutOfSequence | NoType | BadDeps | Uncovered

definition covered :: "header \<Rightarrow> msg_ref \<Rightarrow> bool" where
  "covered h r \<longleftrightarrow>
     (r_key r = hd_author h \<and> r_joined r = hd_joined h \<and> r_seq r < hd_seq h) \<or>
     list_ex (\<lambda>dep. r_key dep = r_key r \<and> r_joined dep = r_joined r \<and> r_seq dep \<ge> r_seq r) (hd_deps h)"

definition header_open :: "(bytes \<Rightarrow> header option) \<Rightarrow> bytes \<Rightarrow> header_error + header" where
  "header_open from_slice plaintext =
     rbind (context_of (from_slice plaintext) NotJson) (\<lambda>h.
     rbind (ensure (hd_seq h \<ge> 1 \<and> ((hd_prev h \<noteq> None) = (hd_seq h > 1))) OutOfSequence) (\<lambda>_.
     rbind (ensure (is_string (json_get (hd_payload h) (map of_char ''type''))) NoType) (\<lambda>_.
     (let memberships = remdups_adj (sort (map (\<lambda>dep. (r_key dep, r_joined dep)) (hd_deps h)))
      in rbind (ensure (length memberships = length (hd_deps h) \<and>
             (hd_author h, hd_joined h) \<notin> set memberships \<and> list_all (\<lambda>dep. r_seq dep \<ge> 1) (hd_deps h)) BadDeps) (\<lambda>_.
         rbind (ensure (case hd_reply_to h of None \<Rightarrow> True | Some r \<Rightarrow> covered h r) Uncovered) (\<lambda>_. Inr h))))))"

definition claim_of :: "header \<Rightarrow> claim" where
  "claim_of h = \<lparr> cl_key = hd_author h, cl_joined = hd_joined h, cl_seq = hd_seq h \<rparr>"

definition held_id :: "crypto \<Rightarrow> bytes \<Rightarrow> bytes" where
  "held_id C plaintext = sha256 C plaintext"

text \<open>The shape a held message must have.\<close>

definition header_ok :: "header \<Rightarrow> bool" where
  "header_ok h \<longleftrightarrow> 1 \<le> hd_seq h \<and> ((hd_prev h \<noteq> None) = (1 < hd_seq h)) \<and>
     is_string (json_get (hd_payload h) (map of_char ''type'')) \<and>
     distinct (map (\<lambda>dep. (r_key dep, r_joined dep)) (hd_deps h)) \<and>
     (\<forall>dep\<in>set (hd_deps h). (r_key dep, r_joined dep) \<noteq> (hd_author h, hd_joined h) \<and> 1 \<le> r_seq dep) \<and>
     (case hd_reply_to h of None \<Rightarrow> True | Some r \<Rightarrow> covered h r)"

lemma sorted_distinct_adj:
  fixes xs :: "'a :: linorder list"
  shows "sorted xs \<Longrightarrow> distinct_adj xs \<Longrightarrow> distinct xs"
proof (induction xs)
  case (Cons x xs)
  show ?case
  proof (cases xs)
    case (Cons y ys)
    have "x < y" using Cons.prems Cons by (auto simp: distinct_adj_Cons)
    moreover have "\<forall>z\<in>set xs. y \<le> z" using Cons.prems(1) Cons by auto
    ultimately have "x \<notin> set xs" by auto
    then show ?thesis using Cons.IH Cons.prems by (auto simp: distinct_adj_Cons)
  qed simp
qed simp

lemma sorted_remdups_adj_length:
  fixes xs :: "'a :: linorder list"
  assumes "sorted xs"
  shows "length (remdups_adj xs) = length xs \<longleftrightarrow> distinct xs"
  using sorted_distinct_adj [OF assms]
  by (auto simp: remdups_adj_distinct simp flip: distinct_adj_conv_length_remdups_adj)
    (simp add: distinct_adj_conv_length_remdups_adj remdups_adj_distinct)

lemma header_open_iff:
  "header_open from_slice plaintext = Inr h \<longleftrightarrow> from_slice plaintext = Some h \<and> header_ok h"
proof -
  let ?ms = "\<lambda>h'. map (\<lambda>dep. (r_key dep, r_joined dep)) (hd_deps h')"
  have "length (remdups_adj (sort (?ms h'))) = length (hd_deps h') \<longleftrightarrow> distinct (?ms h')" for h'
    using sorted_remdups_adj_length [of "sort (?ms h')"] by simp
  moreover have "(hd_author h', hd_joined h') \<notin> set (remdups_adj (sort (?ms h'))) \<longleftrightarrow>
      (\<forall>dep\<in>set (hd_deps h'). (r_key dep, r_joined dep) \<noteq> (hd_author h', hd_joined h'))" for h' by force
  ultimately have "header_open from_slice plaintext = Inr h \<longleftrightarrow>
      (\<exists>h'. from_slice plaintext = Some h' \<and> header_ok h' \<and> h' = h)"
    unfolding header_open_def header_ok_def Let_def rbind_Inr_iff ensure_Inr_iff context_of_Inr_iff list_all_iff
    by (simp only: ex_simps sum.inject) blast
  then show ?thesis by auto
qed


section \<open>Seqs and statements\<close>

record seqs =
  sq_key :: bytes
  sq_joined :: nat
  sq_seqs :: ranges

record summary =
  su_group :: bytes
  su_member :: bytes
  su_joined :: nat
  su_version :: nat
  su_time :: nat
  su_epoch :: nat
  su_held :: "seqs list"
  su_sealed :: "seqs list"

record signed_statement =
  sg_body :: bytes
  sg_sig :: bytes

text \<open>
  References and claims survive the wire, also from a later version that appends elements: reading the
  written array back, with anything after it, gives the same value.
\<close>

theorem ref_claim_round_trip:
  assumes "\<forall>b. decode64 (encode64 b) = Some b" and "r_joined r < 2 ^ 64" and "r_epoch r < 2 ^ 64" and "cl_joined c < 2 ^ 64"
  shows "ref_of_values decode64 (ref_to_values encode64 r @ appended) = Some r \<and>
    claim_of_values decode64 (claim_to_values encode64 c @ appended) = Some c"
proof -
  have n: "json_nat (JNum (int n)) = Some n" if "n < 2 ^ 64" for n
    using that by (simp add: json_nat_def json_u64_def unat_of_nat)
  have u: "json_u64 (JNum (uint x)) = Some x" for x
    using unsigned_less [of x, where 'a = int] by (simp add: json_u64_def)
  have b: "json_bytes decode64 (JStr (encode64 x)) = Some x" for x using assms(1) by (simp add: json_bytes_def)
  show ?thesis
    using n assms(2-4) u b
    by (simp add: ref_of_values_def ref_to_values_def claim_of_values_def claim_to_values_def leading_def)
qed

theorem ref_claim_round_trip_witness:
  "ref_of_values Some (ref_to_values id \<lparr> r_key = [1], r_joined = 2, r_seq = 3, r_id = [4], r_epoch = 5 \<rparr> @ [JNull]) =
     Some \<lparr> r_key = [1], r_joined = 2, r_seq = 3, r_id = [4], r_epoch = 5 \<rparr>"
  using ref_claim_round_trip [of Some id "\<lparr> r_key = [1], r_joined = 2, r_seq = 3, r_id = [4], r_epoch = 5 \<rparr>"
      "\<lparr> cl_key = [], cl_joined = 0, cl_seq = 0 \<rparr>" "[JNull]"] by simp

end
