(* ===== verification/BTree.thy ===== *)
theory BTree
  imports Prelude "HOL-Library.Option_ord"
begin

text \<open>
  \<open>BTreeMap\<close> and \<open>BTreeSet\<close>, as the peer protocol and the node use them: association lists in the
  order of their keys, without duplicates, so that iterating is walking the list. The interface the
  components rely on is the locale \<open>ordered_map\<close>; what \<open>entry(k).or_default()\<close> in a loop computes is
  proved there once.
\<close>

section \<open>Maps\<close>

type_synonym ('k, 'v) btree = "('k \<times> 'v) list"

definition bt_wf :: "('k :: linorder, 'v) btree \<Rightarrow> bool" where
  "bt_wf m \<longleftrightarrow> sorted_wrt (<) (map fst m)"

definition bt_get :: "('k, 'v) btree \<Rightarrow> 'k \<Rightarrow> 'v option" where
  "bt_get m k = map_of m k"

fun bt_insert :: "'k :: linorder \<Rightarrow> 'v \<Rightarrow> ('k, 'v) btree \<Rightarrow> ('k, 'v) btree" where
  "bt_insert k v [] = [(k, v)]"
| "bt_insert k v (e # m) =
     (if k < fst e then (k, v) # e # m else if k = fst e then (k, v) # m else e # bt_insert k v m)"

definition bt_remove :: "'k \<Rightarrow> ('k, 'v) btree \<Rightarrow> ('k, 'v) btree" where
  "bt_remove k m = filter (\<lambda>e. fst e \<noteq> k) m"

definition bt_retain :: "('k \<Rightarrow> 'v \<Rightarrow> bool) \<Rightarrow> ('k, 'v) btree \<Rightarrow> ('k, 'v) btree" where
  "bt_retain P m = filter (\<lambda>e. P (fst e) (snd e)) m"

definition bt_or :: "'v \<Rightarrow> ('k, 'v) btree \<Rightarrow> 'k \<Rightarrow> 'v" where
  "bt_or d m k = (case bt_get m k of None \<Rightarrow> d | Some v \<Rightarrow> v)"

text \<open>\<open>let v = m.entry(k).or_default(); *v = f(v)\<close>, \<open>values_mut\<close>, \<open>iter_mut\<close> and \<open>extend\<close>.\<close>

definition bt_entry :: "'v \<Rightarrow> 'k :: linorder \<Rightarrow> ('v \<Rightarrow> 'v) \<Rightarrow> ('k, 'v) btree \<Rightarrow> ('k, 'v) btree" where
  "bt_entry d k f m = bt_insert k (f (bt_or d m k)) m"

definition bt_update :: "('k \<Rightarrow> 'v \<Rightarrow> 'v) \<Rightarrow> ('k, 'v) btree \<Rightarrow> ('k, 'v) btree" where
  "bt_update f m = map (\<lambda>e. (fst e, f (fst e) (snd e))) m"

definition bt_extend :: "('k :: linorder \<times> 'v) list \<Rightarrow> ('k, 'v) btree \<Rightarrow> ('k, 'v) btree" where
  "bt_extend kvs m = foldl (\<lambda>m kv. bt_insert (fst kv) (snd kv) m) m kvs"

text \<open>A loop over \<open>&mut map\<close> that pushes to a vector.\<close>

definition bt_walk :: "('k \<Rightarrow> 'v \<Rightarrow> 'o list \<times> 'v) \<Rightarrow> ('k, 'v) btree \<Rightarrow> 'o list \<times> ('k, 'v) btree" where
  "bt_walk f m = (concat (map (\<lambda>e. fst (f (fst e) (snd e))) m), map (\<lambda>e. (fst e, snd (f (fst e) (snd e)))) m)"

section \<open>Sets\<close>

definition bs_wf :: "'k :: linorder list \<Rightarrow> bool" where
  "bs_wf s \<longleftrightarrow> sorted_wrt (<) s"

fun bs_insert :: "'k :: linorder \<Rightarrow> 'k list \<Rightarrow> 'k list" where
  "bs_insert k [] = [k]"
| "bs_insert k (x # s) = (if k < x then k # x # s else if k = x then x # s else x # bs_insert k s)"

definition bs_remove :: "'k \<Rightarrow> 'k list \<Rightarrow> 'k list" where
  "bs_remove k s = filter (\<lambda>x. x \<noteq> k) s"

definition bs_extend :: "'k :: linorder list \<Rightarrow> 'k list \<Rightarrow> 'k list" where
  "bs_extend ks s = foldl (\<lambda>s k. bs_insert k s) s ks"

lemma set_bs_insert [simp]: "set (bs_insert k s) = insert k (set s)"
  by (induction s) auto

lemma bs_wf_insert [wf_intros]: "bs_wf s \<Longrightarrow> bs_wf (bs_insert k s)"
  unfolding bs_wf_def by (induction s) auto

lemma set_bs_remove [simp]: "set (bs_remove k s) = set s - {k}"
  by (auto simp: bs_remove_def)

lemma bs_wf_filter: "bs_wf s \<Longrightarrow> bs_wf (filter P s)"
  by (simp add: bs_wf_def sorted_wrt_filter)

lemma bs_wf_remove [wf_intros]: "bs_wf s \<Longrightarrow> bs_wf (bs_remove k s)"
  by (simp add: bs_remove_def bs_wf_filter)

lemma set_bs_extend [simp]: "set (bs_extend ks s) = set ks \<union> set s"
  unfolding bs_extend_def by (induction ks arbitrary: s) auto

lemma bs_wf_extend [wf_intros]: "bs_wf s \<Longrightarrow> bs_wf (bs_extend ks s)"
  unfolding bs_extend_def by (induction ks arbitrary: s) (auto intro: wf_intros)

lemma bs_wf_Nil [simp, wf_intros]: "bs_wf []"
  by (simp add: bs_wf_def)

lemma bs_wf_distinct: "bs_wf s \<Longrightarrow> distinct s"
  unfolding bs_wf_def using strict_sorted_iff by blast

section \<open>Lookups\<close>

lemma bt_get_Nil [simp]: "bt_get [] k = None"
  by (simp add: bt_get_def)

lemma bt_get_Cons: "bt_get (e # m) k = (if fst e = k then Some (snd e) else bt_get m k)"
  by (cases e) (simp add: bt_get_def)

lemma bt_get_insert [simp]: "bt_get (bt_insert k v m) j = (if j = k then Some v else bt_get m j)"
  by (induction m) (auto simp: bt_get_def)

lemma bt_get_filter: "bt_get (filter (\<lambda>e. P (fst e)) m) j = (if P j then bt_get m j else None)"
  by (induction m) (auto simp: bt_get_def)

lemma bt_get_remove [simp]: "bt_get (bt_remove k m) j = (if j = k then None else bt_get m j)"
  using bt_get_filter [of "\<lambda>x. x \<noteq> k" m j] by (simp add: bt_remove_def)

lemma bt_get_update [simp]: "bt_get (bt_update f m) j = map_option (f j) (bt_get m j)"
  by (induction m) (auto simp: bt_get_def bt_update_def)

lemma bt_get_entry [simp]: "bt_get (bt_entry d k f m) j = (if j = k then Some (f (bt_or d m k)) else bt_get m j)"
  by (simp add: bt_entry_def)

lemma bt_or_entry [simp]: "bt_or d (bt_entry d k f m) j = (if j = k then f (bt_or d m k) else bt_or d m j)"
  by (simp add: bt_or_def)

lemma bt_get_in: "bt_get m k = Some v \<Longrightarrow> (k, v) \<in> set m"
  by (simp add: bt_get_def map_of_SomeD)

lemma bt_wf_distinct: "bt_wf m \<Longrightarrow> distinct (map fst m)"
  unfolding bt_wf_def using strict_sorted_iff by blast

lemma bt_in_get: "bt_wf m \<Longrightarrow> (k, v) \<in> set m \<longleftrightarrow> bt_get m k = Some v"
  by (simp add: bt_get_def bt_wf_distinct)

lemma bt_get_None_iff: "bt_get m k = None \<longleftrightarrow> k \<notin> fst ` set m"
  by (simp add: bt_get_def map_of_eq_None_iff)

lemma bt_wf_Nil [simp, wf_intros]: "bt_wf []"
  by (simp add: bt_wf_def)

lemma fst_set_bt_insert [simp]: "fst ` set (bt_insert k v m) = insert k (fst ` set m)"
  by (induction m) auto

lemma bt_insert_not_Nil [simp]: "bt_insert k v m \<noteq> []"
  by (cases m) auto

lemma bt_wf_insert [wf_intros]: "bt_wf m \<Longrightarrow> bt_wf (bt_insert k v m)"
proof (induction m)
  case (Cons e m)
  have "x \<in> insert k (fst ` set m)" if "x \<in> set (map fst (bt_insert k v m))" for x
    using that fst_set_bt_insert [of k v m] by auto
  then show ?case using Cons by (auto simp: bt_wf_def)
qed (simp add: bt_wf_def)

lemma bt_wf_filter: "bt_wf m \<Longrightarrow> bt_wf (filter P m)"
  by (induction m) (auto simp: bt_wf_def)

lemma bt_wf_remove [wf_intros]: "bt_wf m \<Longrightarrow> bt_wf (bt_remove k m)"
  by (simp add: bt_remove_def bt_wf_filter)

lemma bt_wf_retain [wf_intros]: "bt_wf m \<Longrightarrow> bt_wf (bt_retain P m)"
  by (simp add: bt_retain_def bt_wf_filter)

lemma bt_wf_entry [wf_intros]: "bt_wf m \<Longrightarrow> bt_wf (bt_entry d k f m)"
  by (simp add: bt_entry_def bt_wf_insert)

lemma bt_wf_update [wf_intros]: "bt_wf m \<Longrightarrow> bt_wf (bt_update f m)"
  by (simp add: bt_wf_def bt_update_def comp_def)

lemma bt_wf_extend [wf_intros]: "bt_wf m \<Longrightarrow> bt_wf (bt_extend kvs m)"
  unfolding bt_extend_def by (induction kvs arbitrary: m) (auto intro: wf_intros)

lemma bt_wf_walk [wf_intros]: "bt_wf m \<Longrightarrow> bt_wf (snd (bt_walk f m))"
  by (simp add: bt_wf_def bt_walk_def comp_def)

lemma bt_get_walk [simp]: "bt_get (snd (bt_walk f m)) k = map_option (\<lambda>v. snd (f k v)) (bt_get m k)"
  by (induction m) (auto simp: bt_walk_def bt_get_def)

lemma set_bt_walk: "x \<in> set (fst (bt_walk f m)) \<longleftrightarrow> (\<exists>k v. (k, v) \<in> set m \<and> x \<in> set (fst (f k v)))"
  by (force simp: bt_walk_def)

text \<open>Every value of a map keeps a property that inserting and updating keep.\<close>

definition bt_all :: "('k \<Rightarrow> 'v \<Rightarrow> bool) \<Rightarrow> ('k, 'v) btree \<Rightarrow> bool" where
  "bt_all P m \<longleftrightarrow> (\<forall>e\<in>set m. P (fst e) (snd e))"

lemma bt_all_Nil [simp]: "bt_all P []"
  by (simp add: bt_all_def)

lemma bt_all_insert: "bt_all P m \<Longrightarrow> P k v \<Longrightarrow> bt_all P (bt_insert k v m)"
  by (induction m) (auto simp: bt_all_def)

lemma bt_all_get: "bt_all P m \<Longrightarrow> bt_get m k = Some v \<Longrightarrow> P k v"
  by (auto simp: bt_all_def dest!: bt_get_in)

lemma bt_all_or: "bt_all P m \<Longrightarrow> P k d \<Longrightarrow> P k (bt_or d m k)"
  by (auto simp: bt_or_def dest: bt_all_get split: option.splits)

lemma bt_all_entry: "bt_all P m \<Longrightarrow> P k (f (bt_or d m k)) \<Longrightarrow> bt_all P (bt_entry d k f m)"
  by (simp add: bt_entry_def bt_all_insert)

lemma bt_all_filter: "bt_all P m \<Longrightarrow> bt_all P (filter Q m)"
  by (auto simp: bt_all_def)

lemma bt_all_remove: "bt_all P m \<Longrightarrow> bt_all P (bt_remove k m)"
  by (simp add: bt_remove_def bt_all_filter)

lemma bt_all_retain: "bt_all P m \<Longrightarrow> bt_all P (bt_retain Q m)"
  by (simp add: bt_retain_def bt_all_filter)

lemma bt_all_update: "bt_all P m \<Longrightarrow> (\<And>k v. (k, v) \<in> set m \<Longrightarrow> P k v \<Longrightarrow> P k (f k v)) \<Longrightarrow> bt_all P (bt_update f m)"
  by (force simp: bt_all_def bt_update_def)

lemma bt_all_walk: "bt_all P m \<Longrightarrow> (\<And>k v. (k, v) \<in> set m \<Longrightarrow> P k v \<Longrightarrow> P k (snd (f k v))) \<Longrightarrow> bt_all P (snd (bt_walk f m))"
  by (force simp: bt_all_def bt_walk_def)

lemma bt_all_extend: "bt_all P m \<Longrightarrow> (\<forall>e\<in>set kvs. P (fst e) (snd e)) \<Longrightarrow> bt_all P (bt_extend kvs m)"
  unfolding bt_extend_def by (induction kvs arbitrary: m) (auto simp: bt_all_insert)

lemmas bt_alls = bt_all_insert bt_all_entry bt_all_remove bt_all_retain

text \<open>A loop that inserts what it computes of some entries of another map.\<close>

lemma bt_get_collect:
  "distinct (map fst es) \<Longrightarrow>
   bt_get (foldl (\<lambda>m e. if P e then m else bt_insert (fst e) (f e) m) m es) k =
     (case bt_get es k of None \<Rightarrow> bt_get m k | Some v \<Rightarrow> if P (k, v) then bt_get m k else Some (f (k, v)))"
proof (induction es arbitrary: m)
  case (Cons e es)
  show ?case
  proof (cases "k = fst e")
    case True
    then have "bt_get es k = None" using Cons.prems by (simp add: bt_get_None_iff)
    then show ?thesis using Cons True by (cases e) (simp add: bt_get_Cons)
  next
    case False
    then show ?thesis using Cons by (cases e) (simp add: bt_get_Cons split: option.split)
  qed
qed simp

lemma bt_wf_collect: "bt_wf m \<Longrightarrow> bt_wf (foldl (\<lambda>m e. if P e then m else bt_insert (fst e) (f e) m) m es)"
  by (induction es arbitrary: m) (auto intro: wf_intros)

lemma bt_all_collect:
  "bt_all Q m \<Longrightarrow> \<forall>e\<in>set es. \<not> P e \<longrightarrow> Q (fst e) (f e) \<Longrightarrow>
   bt_all Q (foldl (\<lambda>m e. if P e then m else bt_insert (fst e) (f e) m) m es)"
  by (induction es arbitrary: m) (auto intro: bt_alls)

section \<open>The interface\<close>

text \<open>
  A map with lookup and insertion. A loop \<open>for (k, x) in xs { let v = m.entry(k).or_default(); *v = join(v, x) }\<close>
  leaves at each key the join of what was there with every \<open>x\<close> of that key: with values that stand for
  sets and a \<open>join\<close> that is union, the union.
\<close>

locale ordered_map =
  fixes invar :: "'m \<Rightarrow> bool"
    and empty :: 'm
    and lookup :: "'m \<Rightarrow> 'k \<Rightarrow> 'v option"
    and put :: "'k \<Rightarrow> 'v \<Rightarrow> 'm \<Rightarrow> 'm"
  assumes invar_empty: "invar empty"
    and invar_put: "invar m \<Longrightarrow> invar (put k v m)"
    and lookup_empty: "lookup empty k = None"
    and lookup_put: "invar m \<Longrightarrow> lookup (put k v m) j = (if j = k then Some v else lookup m j)"
begin

lemma join_loop:
  assumes "invar m"
    and ent: "\<And>m k f. ent k f m = put k (f (case lookup m k of None \<Rightarrow> d | Some v \<Rightarrow> v)) m"
    and elems: "elems d = {}" "\<And>v x. elems (join v x) = elems v \<union> E x"
  shows "invar (foldl (\<lambda>m kx. ent (fst kx) (\<lambda>v. join v (snd kx)) m) m kxs) \<and>
    elems (case lookup (foldl (\<lambda>m kx. ent (fst kx) (\<lambda>v. join v (snd kx)) m) m kxs) k of None \<Rightarrow> d | Some v \<Rightarrow> v) =
      elems (case lookup m k of None \<Rightarrow> d | Some v \<Rightarrow> v) \<union> (\<Union>kx\<in>{kx \<in> set kxs. fst kx = k}. E (snd kx))"
  using assms(1)
proof (induction kxs arbitrary: m)
  case (Cons kx kxs)
  let ?m = "ent (fst kx) (\<lambda>v. join v (snd kx)) m"
  have "invar ?m" using Cons.prems by (simp add: ent invar_put)
  moreover have "elems (case lookup ?m k of None \<Rightarrow> d | Some v \<Rightarrow> v) =
      elems (case lookup m k of None \<Rightarrow> d | Some v \<Rightarrow> v) \<union> (if k = fst kx then E (snd kx) else {})"
    using Cons.prems by (simp add: ent lookup_put elems(2))
  ultimately show ?case using Cons.IH [of ?m] by auto
qed (simp add: elems)

lemma put_all:
  assumes "invar m"
  shows "invar (foldl (\<lambda>m kv. put (fst kv) (snd kv) m) m kvs) \<and>
    lookup (foldl (\<lambda>m kv. put (fst kv) (snd kv) m) m kvs) k =
      (case map_of (rev kvs) k of None \<Rightarrow> lookup m k | Some v \<Rightarrow> Some v)"
  using assms
proof (induction kvs arbitrary: m)
  case (Cons kv kvs)
  then have "invar (put (fst kv) (snd kv) m)" by (simp add: invar_put)
  with Cons show ?case by (cases kv) (auto simp: lookup_put map_add_def split: option.splits)
qed simp

end

interpretation bt: ordered_map "\<lambda>_. True" "[]" bt_get "bt_insert :: 'k :: linorder \<Rightarrow> 'v \<Rightarrow> ('k, 'v) btree \<Rightarrow> ('k, 'v) btree"
  by unfold_locales auto

interpretation sorted_bt: ordered_map bt_wf "[]" bt_get "bt_insert :: 'k :: linorder \<Rightarrow> 'v \<Rightarrow> ('k, 'v) btree \<Rightarrow> ('k, 'v) btree"
  by unfold_locales (auto intro: wf_intros)

lemma bt_get_extend: "bt_get (bt_extend kvs m) k = (case map_of (rev kvs) k of None \<Rightarrow> bt_get m k | Some v \<Rightarrow> Some v)"
  using bt.put_all [of m kvs k] by (simp add: bt_extend_def)

section \<open>The first of the least\<close>

text \<open>\<open>Iterator::min_by_key\<close>: of equal keys, the first.\<close>

fun min_by :: "('a \<Rightarrow> 'b :: linorder) \<Rightarrow> 'a list \<Rightarrow> 'a option" where
  "min_by f [] = None"
| "min_by f (x # xs) = (case min_by f xs of None \<Rightarrow> Some x | Some y \<Rightarrow> if f y < f x then Some y else Some x)"

lemma min_by_None [simp]: "min_by f xs = None \<longleftrightarrow> xs = []"
  by (cases xs) (auto split: option.splits)

lemma min_by_Some: "min_by f xs = Some x \<Longrightarrow> x \<in> set xs \<and> (\<forall>y\<in>set xs. f x \<le> f y)"
  by (induction xs arbitrary: x) (fastforce split: option.splits if_splits)+

lemma min_by_in: "min_by f xs = Some x \<Longrightarrow> x \<in> set xs"
  by (drule min_by_Some) simp

end
