(* ===== verification/Peers.thy ===== *)
theory Peers
  imports BTree Header Chain
begin

text \<open>
  The peer protocol without I/O (\<open>crates/net/src/peers.rs\<close>): the state a member keeps of its groups and
  connections, and every operation on it. Times are milliseconds of the node's clock, which only goes
  forward (\<open>State::tick\<close> in \<open>crates/node/src/peering.rs\<close> keeps the latest), so they are naturals. The
  maps and sets are ordered, as \<open>BTreeMap\<close> and \<open>BTreeSet\<close> are. Where the code indexes a group it does not
  have, which panics, a public operation returns \<open>None\<close>; the private ones take the group looked up.
\<close>

section \<open>Constants\<close>

definition DEBOUNCE :: nat where "DEBOUNCE = 1000"
definition TIMEOUT :: nat where "TIMEOUT = 10000"
definition LARGE_TIMEOUT :: nat where "LARGE_TIMEOUT = 120000"
definition ANSWER :: nat where "ANSWER = 2 ^ 20"
definition K :: nat where "K = 6"
definition MESH :: nat where "MESH = 7"
definition BACKOFF :: nat where "BACKOFF = 10000"
definition MAX_BACKOFF :: nat where "MAX_BACKOFF = 600000"
definition RECENT :: nat where "RECENT = 7200000"
definition RETELL :: nat where "RETELL = 1800000"
definition BUSY :: nat where "BUSY = 250"
definition IDLE :: nat where "IDLE = 300000"
definition STRANGER :: nat where "STRANGER = 30000"
definition MAX_CONNECTIONS :: nat where "MAX_CONNECTIONS = 128"
definition WAIT :: nat where "WAIT = 120000"
definition HEAR :: nat where "HEAR = 15000"
definition DIALS :: nat where "DIALS = 4"

section \<open>Frames\<close>

type_synonym peer_key = bytes
type_synonym membership = "bytes \<times> nat"
type_synonym posset = "(membership, ranges) btree"

record at_group =
  at_gid :: bytes
  at_log :: bytes
  at_head :: "head option"
  at_seen :: "(bytes, nat) btree"
  at_intros :: "signed_statement list"
  at_expired :: "expiry list"

datatype frame =
    Hello "at_group list"
  | Entries bytes "bytes list" head
  | SummaryFrame bytes signed_statement
  | HeldFrame bytes "bytes list" "seqs list option"
  | Want bytes nat "seqs list"
  | Have bytes "seqs list"

text \<open>Whether a member acts on a frame from a peer.\<close>

definition takes :: "frame \<Rightarrow> bool \<Rightarrow> bool" where
  "takes f admitted \<longleftrightarrow> (case f of Hello _ \<Rightarrow> True | Entries _ _ _ \<Rightarrow> True | _ \<Rightarrow> False) \<or> admitted"

section \<open>State\<close>

record own =
  o_me :: membership
  o_epoch :: nat
  o_log :: bytes
  o_head :: "head option"
  o_earlier :: "head list"
  o_members :: "(membership \<times> peer_key) list"
  o_wanted :: "seqs list"
  o_stale :: "seqs list"
  o_intros :: "(membership, nat \<times> signed_statement) btree"
  o_expired :: "expiry list"

datatype out = OutFrame peer_key frame | OutEntries peer_key bytes u64 | Dial peer_key | Close peer_key

record heard_summary =
  hs_signed :: signed_statement
  hs_summary :: summary
  hs_at :: nat

record want_request =
  rq_holder :: peer_key
  rq_asked :: posset
  rq_epoch :: nat
  rq_until :: nat

record peer_group =
  g_own :: own
  g_heard :: "(membership, heard_summary) btree"
  g_seen :: "(peer_key, nat) btree"
  g_struck :: "(peer_key \<times> membership, ranges) btree"
  g_request :: "want_request option"
  g_waiting :: posset

record conn =
  c_dialed :: bool
  c_served :: "bytes list"
  c_served_at :: nat
  c_active :: nat
  c_hello :: bool
  c_opened :: "bytes list"
  c_sent :: "(bytes, nat) btree"
  c_theirs :: "(bytes, u64) btree"
  c_told :: "(bytes, (peer_key, nat) btree) btree"
  c_introduced :: "(bytes, (membership, nat) btree) btree"
  c_expired :: "(bytes, bytes list) btree"
  c_has :: "(bytes, posset) btree"

record backoff =
  b_failures :: nat
  b_until :: nat
  b_failed :: nat

record peers =
  p_me :: peer_key
  p_online :: nat
  p_changed :: "nat option"
  p_dial :: "bytes list"
  p_groups :: "(bytes, peer_group) btree"
  p_conns :: "(peer_key, conn) btree"
  p_backoff :: "(peer_key, backoff) btree"
  p_dialing :: "peer_key list"

definition peers_new :: "nat \<Rightarrow> peer_key \<Rightarrow> peers" where
  "peers_new now me = \<lparr> p_me = me, p_online = now, p_changed = None, p_dial = [], p_groups = [], p_conns = [],
     p_backoff = [], p_dialing = [] \<rparr>"

section \<open>Sets of positions by membership\<close>

definition rank :: "crypto \<Rightarrow> bytes \<Rightarrow> peer_key \<Rightarrow> peer_key \<Rightarrow> bytes" where
  "rank C gid a b = (let (low, high) = (if a \<le> b then (a, b) else (b, a))
     in sha256 C (map of_char ''letmeknow neighbours v1'' @ [0] @ gid @ low @ high))"

definition membership_of :: "seqs \<Rightarrow> membership" where
  "membership_of s = (sq_key s, sq_joined s)"

definition to_set :: "seqs list \<Rightarrow> posset" where
  "to_set ss = foldl (\<lambda>m s. bt_entry [] (membership_of s) (\<lambda>positions. union_of positions (sq_seqs s)) m) [] ss"

definition to_seqs :: "posset \<Rightarrow> seqs list" where
  "to_seqs m = map (\<lambda>e. \<lparr> sq_key = fst (fst e), sq_joined = snd (fst e), sq_seqs = snd e \<rparr>) m"

definition union_sets :: "posset \<Rightarrow> posset \<Rightarrow> posset" where
  "union_sets a b = foldl (\<lambda>m e. bt_entry [] (fst e) (\<lambda>positions. union_of positions (snd e)) m) a b"

definition offer :: "posset \<Rightarrow> posset \<Rightarrow> (peer_key \<times> membership, ranges) btree \<Rightarrow> peer_key \<Rightarrow> posset" where
  "offer want held struck peer = foldl (\<lambda>m e.
     (case bt_get held (fst e) of
        None \<Rightarrow> m
      | Some h \<Rightarrow>
          let positions = difference (intersection (snd e) h) (bt_or [] struck (peer, fst e))
          in if is_empty positions then m else bt_insert (fst e) positions m)) [] want"

definition lowest :: "posset \<Rightarrow> (membership \<times> u64) option" where
  "lowest m = (case filter (\<lambda>e. first_of (snd e) \<noteq> None) m of
     [] \<Rightarrow> None
   | e # _ \<Rightarrow> Some (fst e, the (first_of (snd e))))"

section \<open>Groups and connections\<close>

definition get_or_insert :: "nat \<Rightarrow> peers \<Rightarrow> peers" where
  "get_or_insert now p = (case p_changed p of None \<Rightarrow> p\<lparr> p_changed := Some now \<rparr> | Some _ \<Rightarrow> p)"

definition is_member :: "own \<Rightarrow> membership \<Rightarrow> bool" where
  "is_member own m \<longleftrightarrow> m = o_me own \<or> list_ex (\<lambda>e. fst e = m) (o_members own)"

definition has_peer :: "own \<Rightarrow> peer_key \<Rightarrow> bool" where
  "has_peer own k \<longleftrightarrow> list_ex (\<lambda>e. snd e = k) (o_members own)"

definition push_group :: "peers \<Rightarrow> bytes \<Rightarrow> peers" where
  "push_group p ident = p\<lparr> p_dial := bs_insert ident (p_dial p) \<rparr>"

definition renew_group :: "own \<Rightarrow> peer_group \<Rightarrow> peer_group" where
  "renew_group own g = g\<lparr> g_struck := (if o_epoch own > o_epoch (g_own g) then [] else g_struck g),
     g_heard := bt_retain (\<lambda>m _. is_member own m) (g_heard g),
     g_seen := bt_retain (\<lambda>k _. has_peer own k) (g_seen g),
     g_own := own \<rparr>"

definition new_group :: "own \<Rightarrow> peer_group" where
  "new_group own = \<lparr> g_own = own, g_heard = [], g_seen = [], g_struck = [], g_request = None, g_waiting = [] \<rparr>"

definition set_group :: "peers \<Rightarrow> bytes \<Rightarrow> own \<Rightarrow> nat \<Rightarrow> peers" where
  "set_group p ident own now =
     (let (changed, members, g') =
        (case bt_get (p_groups p) ident of
           Some g \<Rightarrow>
             ((o_epoch (g_own g), o_log (g_own g), o_head (g_own g), o_intros (g_own g), o_expired (g_own g)) \<noteq>
                (o_epoch own, o_log own, o_head own, o_intros own, o_expired own),
              o_members (g_own g) \<noteq> o_members own, renew_group own g)
         | None \<Rightarrow> (True, True, new_group own));
      p = p\<lparr> p_groups := bt_insert ident g' (p_groups p) \<rparr>;
      p = (if changed then get_or_insert now p else p)
      in if members then push_group p ident else p)"

definition forget_in :: "bytes \<Rightarrow> conn \<Rightarrow> conn" where
  "forget_in ident c = c\<lparr> c_served := bs_remove ident (c_served c), c_opened := bs_remove ident (c_opened c),
     c_sent := bt_remove ident (c_sent c), c_told := bt_remove ident (c_told c),
     c_introduced := bt_remove ident (c_introduced c), c_expired := bt_remove ident (c_expired c), c_has := bt_remove ident (c_has c) \<rparr>"

definition forget :: "peers \<Rightarrow> bytes \<Rightarrow> peers" where
  "forget p ident = p\<lparr> p_groups := bt_remove ident (p_groups p), p_dial := bs_remove ident (p_dial p),
     p_conns := bt_update (\<lambda>_. forget_in ident) (p_conns p) \<rparr>"

definition drop_request :: "peer_key \<Rightarrow> peer_group \<Rightarrow> peer_group" where
  "drop_request peer g = (case g_request g of
     Some r \<Rightarrow> if rq_holder r = peer then g\<lparr> g_request := None \<rparr> else g
   | None \<Rightarrow> g)"

definition disconnect :: "peers \<Rightarrow> peer_key \<Rightarrow> nat \<Rightarrow> peers" where
  "disconnect p peer now = p\<lparr> p_conns := bt_remove peer (p_conns p),
     p_groups := bt_update (\<lambda>_ g.
       let g = drop_request peer g
       in if has_peer (g_own g) peer then g\<lparr> g_seen := bt_insert peer now (g_seen g) \<rparr> else g) (p_groups p) \<rparr>"

definition new_conn :: "bytes list \<Rightarrow> bool \<Rightarrow> nat \<Rightarrow> conn" where
  "new_conn served dialed now = \<lparr> c_dialed = dialed, c_served = served, c_served_at = now, c_active = now, c_hello = True,
     c_opened = served, c_sent = [], c_theirs = [], c_told = [], c_introduced = [], c_expired = [], c_has = [] \<rparr>"

definition connect :: "peers \<Rightarrow> peer_key \<Rightarrow> bytes list \<Rightarrow> bool \<Rightarrow> nat \<Rightarrow> peers" where
  "connect p peer served dialed now =
     (let p = disconnect p peer now;
          p = (if p_conns p = [] then p\<lparr> p_online := now \<rparr> else p);
          p = (if served \<noteq> [] then get_or_insert now p else p)
      in p\<lparr> p_backoff := bt_remove peer (p_backoff p), p_conns := bt_insert peer (new_conn served dialed now) (p_conns p) \<rparr>)"

definition restrict_to :: "bytes list \<Rightarrow> conn \<Rightarrow> conn" where
  "restrict_to served c = c\<lparr>
     c_sent := bt_retain (\<lambda>ident _. ident \<in> set served) (c_sent c),
     c_told := bt_retain (\<lambda>ident _. ident \<in> set served) (c_told c),
     c_introduced := bt_retain (\<lambda>ident _. ident \<in> set served) (c_introduced c),
     c_expired := bt_retain (\<lambda>ident _. ident \<in> set served) (c_expired c),
     c_has := bt_retain (\<lambda>ident _. ident \<in> set served) (c_has c),
     c_served := served \<rparr>"

definition set_served :: "peers \<Rightarrow> peer_key \<Rightarrow> bytes list \<Rightarrow> nat \<Rightarrow> peers" where
  "set_served p peer served now =
     (case bt_get (p_conns p) peer of
        None \<Rightarrow> p
      | Some c \<Rightarrow>
          if c_served c = served then p
          else
            let newly = filter (\<lambda>ident. ident \<notin> set (c_served c)) served;
                c = (if newly = [] then c else c\<lparr> c_hello := True, c_opened := bs_extend newly (c_opened c) \<rparr>);
                p = (if newly = [] then p else get_or_insert now p);
                c = (if served = [] then c else c\<lparr> c_served_at := now \<rparr>);
                c = restrict_to served c
            in p\<lparr> p_conns := bt_insert peer c (p_conns p),
                 p_groups := bt_update (\<lambda>ident g. if ident \<in> set served then g else drop_request peer g) (p_groups p) \<rparr>)"

definition with_conn :: "peers \<Rightarrow> peer_key \<Rightarrow> (conn \<Rightarrow> conn) \<Rightarrow> peers" where
  "with_conn p peer f = (case bt_get (p_conns p) peer of
     None \<Rightarrow> p
   | Some c \<Rightarrow> p\<lparr> p_conns := bt_insert peer (f c) (p_conns p) \<rparr>)"

definition behind :: "peers \<Rightarrow> peer_key \<Rightarrow> peers" where
  "behind p peer = with_conn p peer (\<lambda>c. c\<lparr> c_hello := True \<rparr>)"

definition used :: "peers \<Rightarrow> peer_key \<Rightarrow> nat \<Rightarrow> peers" where
  "used p peer now = with_conn p peer (\<lambda>c. c\<lparr> c_active := now \<rparr>)"

definition connected :: "peers \<Rightarrow> peer_key list" where
  "connected p = map fst (p_conns p)"

definition is_connected :: "peers \<Rightarrow> peer_key \<Rightarrow> bool" where
  "is_connected p peer \<longleftrightarrow> bt_get (p_conns p) peer \<noteq> None"

definition serves :: "peers \<Rightarrow> peer_key \<Rightarrow> bytes \<Rightarrow> bool" where
  "serves p peer gid \<longleftrightarrow> (case bt_get (p_conns p) peer of None \<Rightarrow> False | Some c \<Rightarrow> gid \<in> set (c_served c))"

definition dialed :: "peers \<Rightarrow> peer_key \<Rightarrow> bool \<Rightarrow> nat \<Rightarrow> peers" where
  "dialed p peer ok now =
     (let p = p\<lparr> p_dialing := bs_remove peer (p_dialing p) \<rparr>
      in if ok then p
         else
           let failures = b_failures (bt_or \<lparr> b_failures = 0, b_until = 0, b_failed = 0 \<rparr> (p_backoff p) peer) + 1;
               b = \<lparr> b_failures = failures,
                     b_until = now + min (BACKOFF * 2 ^ min (failures - 1) 6) MAX_BACKOFF, b_failed = now \<rparr>
           in p\<lparr> p_backoff := bt_insert peer b (p_backoff p),
                p_dial := bs_extend (map fst (filter (\<lambda>e. has_peer (g_own (snd e)) peer) (p_groups p))) (p_dial p) \<rparr>)"

section \<open>Who is online\<close>

definition backing :: "peers \<Rightarrow> peer_key \<Rightarrow> nat \<Rightarrow> bool" where
  "backing p peer now \<longleftrightarrow> (case bt_get (p_backoff p) peer of None \<Rightarrow> False | Some b \<Rightarrow> now < b_until b)"

definition untried :: "peers \<Rightarrow> bytes \<Rightarrow> peer_key \<Rightarrow> nat \<Rightarrow> bool" where
  "untried p gid peer now = (case bt_get (p_conns p) peer of
     Some c \<Rightarrow> gid \<in> set (c_served c)
   | None \<Rightarrow> peer \<in> set (p_dialing p) \<or> \<not> backing p peer now)"

definition alive :: "peers \<Rightarrow> peer_key \<Rightarrow> nat \<Rightarrow> nat \<Rightarrow> bool" where
  "alive p peer at now \<longleftrightarrow> now < at + RECENT \<and> (case bt_get (p_backoff p) peer of None \<Rightarrow> True | Some b \<Rightarrow> at > b_failed b)"

definition seen_alive :: "peers \<Rightarrow> peer_group \<Rightarrow> peer_key \<Rightarrow> nat \<Rightarrow> bool" where
  "seen_alive p g peer now \<longleftrightarrow> (case bt_get (g_seen g) peer of None \<Rightarrow> False | Some at \<Rightarrow> alive p peer at now)"

definition tier :: "peers \<Rightarrow> peer_group \<Rightarrow> membership \<Rightarrow> peer_key \<Rightarrow> nat \<Rightarrow> nat" where
  "tier p g member peer now =
     (if is_connected p peer then 0
      else if seen_alive p g peer now then 1
      else if (case bt_get (g_heard g) member of None \<Rightarrow> False | Some h \<Rightarrow> now < hs_at h + RECENT) then 2
      else 3)"

definition saw :: "peers \<Rightarrow> peer_key \<Rightarrow> bytes \<Rightarrow> (bytes, nat) btree \<Rightarrow> nat \<Rightarrow> peers" where
  "saw p peer gid seen now =
     (case (bt_get (p_groups p) gid, bt_get (p_conns p) peer) of
        (Some g, Some c) \<Rightarrow>
          let sightings = map (\<lambda>e. (fst e, now - snd e))
                (filter (\<lambda>e. length (fst e) = 32 \<and> has_peer (g_own g) (fst e)) seen);
              known = (\<lambda>k. is_connected p k \<or> seen_alive p g k now);
              news = list_ex (\<lambda>e. alive p (fst e) (snd e) now \<and> \<not> known (fst e)) sightings;
              latest = foldl (\<lambda>m e. bt_entry 0 (fst e) (\<lambda>at. max at (snd e)) m);
              p = p\<lparr> p_conns := bt_insert peer (c\<lparr> c_told := bt_entry [] gid (\<lambda>told. latest told sightings) (c_told c) \<rparr>) (p_conns p),
                    p_groups := bt_insert gid (g\<lparr> g_seen := latest (g_seen g) sightings \<rparr>) (p_groups p) \<rparr>
          in if news then push_group (get_or_insert now p) gid else p
      | _ \<Rightarrow> p)"

definition neighbours :: "peers \<Rightarrow> bytes \<Rightarrow> peer_key list" where
  "neighbours p gid = map fst (filter (\<lambda>e. gid \<in> set (c_served (snd e))) (p_conns p))"

definition sightings :: "peers \<Rightarrow> bytes \<Rightarrow> peer_group \<Rightarrow> nat \<Rightarrow> (peer_key, nat) btree" where
  "sightings p gid g now = bt_extend (map (\<lambda>k. (k, now)) (neighbours p gid)) (g_seen g)"

definition presence :: "peers \<Rightarrow> bytes \<Rightarrow> nat \<Rightarrow> (peer_key, nat \<times> bool) btree" where
  "presence p gid now = (case bt_get (p_groups p) gid of
     None \<Rightarrow> []
   | Some g \<Rightarrow> bt_extend (map (\<lambda>e. (snd e, (now, True))) (filter (\<lambda>e. is_connected p (snd e)) (o_members (g_own g))))
       (map (\<lambda>e. (fst e, (snd e, False))) (g_seen g)))"

definition targets :: "crypto \<Rightarrow> peers \<Rightarrow> bytes \<Rightarrow> peer_group \<Rightarrow> nat \<Rightarrow> peer_key list" where
  "targets C p gid g now =
     map (snd \<circ> snd) (take K (sort (map (\<lambda>e. (tier p g (fst e) (snd e) now, rank C gid (p_me p) (snd e), snd e))
       (filter (\<lambda>e. \<not> backing p (snd e) now) (o_members (g_own g))))))"

definition targeted :: "crypto \<Rightarrow> peers \<Rightarrow> nat \<Rightarrow> peer_key list" where
  "targeted C p now = concat (map (\<lambda>e. targets C p (fst e) (snd e) now) (p_groups p))"

definition flight :: "peer_key list \<Rightarrow> peer_group \<Rightarrow> nat" where
  "flight dialing g = length (filter (\<lambda>e. snd e \<in> set dialing) (o_members (g_own g)))"


section \<open>Frames and summaries\<close>

text \<open>
  A \<open>hello\<close>: what the peer showed of each log, and, in the groups served to it, the sightings, intros
  and expiries it told.
\<close>

definition heard_log :: "at_group \<Rightarrow> conn \<Rightarrow> conn" where
  "heard_log at c = c\<lparr> c_theirs := bt_entry 0 (at_log at)
     (\<lambda>theirs. max theirs (case at_head at of None \<Rightarrow> 0 | Some h \<Rightarrow> h_length h)) (c_theirs c) \<rparr>"

definition heard_at :: "peer_key \<Rightarrow> nat \<Rightarrow> peers \<Rightarrow> at_group \<Rightarrow> peers" where
  "heard_at peer now p at =
     (let p = saw p peer (at_gid at) (at_seen at) now
      in case bt_get (p_groups p) (at_gid at) of
           None \<Rightarrow> p
         | Some g \<Rightarrow>
             with_conn p peer (\<lambda>c. c\<lparr>
               c_introduced := bt_entry [] (at_gid at) (\<lambda>introduced.
                 foldl (\<lambda>m e. bt_insert (fst e) (fst (snd e)) m) introduced
                   (filter (\<lambda>e. snd (snd e) \<in> set (at_intros at)) (o_intros (g_own g)))) (c_introduced c),
               c_expired := bt_entry [] (at_gid at) (bs_extend (map e_log_ref (at_expired at))) (c_expired c) \<rparr>))"

definition strike :: "peer_key \<Rightarrow> posset \<Rightarrow> (peer_key \<times> membership, ranges) btree \<Rightarrow> (peer_key \<times> membership, ranges) btree" where
  "strike peer cov struck =
     foldl (\<lambda>m e. bt_entry [] (peer, fst e) (\<lambda>positions. union_of positions (snd e)) m) struck cov"

definition take_answer :: "peer_key \<Rightarrow> bytes list \<Rightarrow> seqs list \<Rightarrow> peer_group \<Rightarrow> peer_group" where
  "take_answer peer items answers g =
     (case g_request g of
        Some r \<Rightarrow>
          if rq_holder r = peer then
            let g = g\<lparr> g_request := None \<rparr>
            in if rq_epoch r = o_epoch (g_own g) then
                 let whole = (answers = [] \<or> sum_list (map length items) < ANSWER);
                     cov = (if whole then rq_asked r else to_set answers)
                 in g\<lparr> g_struck := strike peer cov (g_struck g) \<rparr>
               else g
          else g
      | None \<Rightarrow> g)"

definition take_frame :: "peers \<Rightarrow> peer_key \<Rightarrow> frame \<Rightarrow> nat \<Rightarrow> peers" where
  "take_frame p peer frame now =
     (case bt_get (p_conns p) peer of
        None \<Rightarrow> p
      | Some c \<Rightarrow>
          (case frame of
             Hello groups \<Rightarrow>
               let p = p\<lparr> p_conns := bt_insert peer (foldl (\<lambda>c at. heard_log at c) c groups) (p_conns p) \<rparr>
               in foldl (heard_at peer now) p (filter (\<lambda>at. at_gid at \<in> set (c_served c)) groups)
           | HeldFrame gid items (Some answers) \<Rightarrow>
               let p = used p peer now
               in (case bt_get (p_groups p) gid of
                     None \<Rightarrow> p
                   | Some g \<Rightarrow> p\<lparr> p_groups := bt_insert gid (take_answer peer items answers g) (p_groups p) \<rparr>)
           | Want _ _ _ \<Rightarrow> used p peer now
           | Have gid held \<Rightarrow>
               if gid \<in> set (c_served c)
               then p\<lparr> p_conns := bt_insert peer (c\<lparr> c_has := bt_entry [] gid (\<lambda>has. union_sets has (to_set held)) (c_has c) \<rparr>) (p_conns p) \<rparr>
               else p
           | _ \<Rightarrow> p))"

definition take_summary :: "peers \<Rightarrow> bytes \<Rightarrow> heard_summary \<Rightarrow> bool \<Rightarrow> bool \<times> peers" where
  "take_summary p gid heard own =
     (case bt_get (p_groups p) gid of
        None \<Rightarrow> (False, p)
      | Some g \<Rightarrow>
          let m = (su_member (hs_summary heard), su_joined (hs_summary heard))
          in if \<not> is_member (g_own g) m \<or>
               (case bt_get (g_heard g) m of None \<Rightarrow> False | Some h \<Rightarrow> su_version (hs_summary h) \<ge> su_version (hs_summary heard))
             then (False, p)
             else
               let p = p\<lparr> p_groups := bt_insert gid (g\<lparr> g_heard := bt_insert m heard (g_heard g) \<rparr>) (p_groups p) \<rparr>
               in (True, if own
                         then p\<lparr> p_conns := bt_update (\<lambda>_ c. if gid \<in> set (c_served c)
                                  then c\<lparr> c_opened := bs_insert gid (c_opened c) \<rparr> else c) (p_conns p) \<rparr>
                         else p))"

definition heard_of :: "peers \<Rightarrow> bytes \<Rightarrow> heard_summary list" where
  "heard_of p gid = (case bt_get (p_groups p) gid of None \<Rightarrow> [] | Some g \<Rightarrow> map snd (g_heard g))"

definition full_mesh :: "peers \<Rightarrow> bytes \<Rightarrow> bool option" where
  "full_mesh p gid = map_option (\<lambda>g. length (o_members (g_own g)) < MESH) (bt_get (p_groups p) gid)"

section \<open>Who holds what\<close>

definition holding :: "peers \<Rightarrow> bytes \<Rightarrow> peer_group \<Rightarrow> membership \<times> peer_key \<Rightarrow> (peer_key \<times> posset \<times> posset) option" where
  "holding p gid g e =
     (let summary = map_option hs_summary (bt_get (g_heard g) (fst e));
          announced = (case bt_get (p_conns p) (snd e) of None \<Rightarrow> None | Some c \<Rightarrow> bt_get (c_has c) gid)
      in if summary = None \<and> announced = None then None
         else
           let held = (case summary of None \<Rightarrow> [] | Some s \<Rightarrow> to_set (su_held s));
               held = (case announced of Some a \<Rightarrow> union_sets held a | None \<Rightarrow> held);
               sealed = (case summary of Some s \<Rightarrow> if su_epoch s = o_epoch (g_own g) then to_set (su_sealed s) else [] | None \<Rightarrow> [])
           in Some (snd e, held, sealed))"

definition holds :: "peers \<Rightarrow> bytes \<Rightarrow> peer_group \<Rightarrow> (peer_key \<times> posset \<times> posset) list" where
  "holds p gid g = List.map_filter (holding p gid g) (o_members (g_own g))"

definition may_hold :: "peers \<Rightarrow> bytes \<Rightarrow> peer_group \<Rightarrow> seqs list \<Rightarrow> nat \<Rightarrow> bool" where
  "may_hold p gid g lacking now =
     list_ex (\<lambda>h. untried p gid (fst h) now \<and> offer (to_set lacking) (fst (snd h)) (g_struck g) (fst h) \<noteq> []) (holds p gid g)"

definition holder :: "peers \<Rightarrow> bytes \<Rightarrow> seqs list \<Rightarrow> nat \<Rightarrow> bool option" where
  "holder p gid lacking now = map_option (\<lambda>g. may_hold p gid g lacking now) (bt_get (p_groups p) gid)"

definition wait :: "peers \<Rightarrow> bytes \<Rightarrow> seqs list \<Rightarrow> nat \<Rightarrow> nat \<Rightarrow> (bool \<times> peers) option" where
  "wait p gid lacking read now =
     (case bt_get (p_groups p) gid of
        None \<Rightarrow> None
      | Some g \<Rightarrow>
          let lack = to_set lacking;
              since = max read (p_online p);
              open_still = (lack \<noteq> [] \<and> now < since + WAIT \<and> (now < since + HEAR \<or> may_hold p gid g lacking now))
          in Some (open_still, p\<lparr> p_groups := bt_insert gid (g\<lparr> g_waiting := (if open_still then lack else []) \<rparr>) (p_groups p) \<rparr>))"

section \<open>Polling\<close>

definition time_out :: "nat \<Rightarrow> peer_group \<Rightarrow> peer_group" where
  "time_out now g = (case g_request g of
     Some r \<Rightarrow>
       if now \<ge> rq_until r then
         let g = g\<lparr> g_request := None \<rparr>
         in if rq_epoch r = o_epoch (g_own g) then g\<lparr> g_struck := strike (rq_holder r) (rq_asked r) (g_struck g) \<rparr> else g
       else g
   | None \<Rightarrow> g)"

definition timeouts :: "peers \<Rightarrow> nat \<Rightarrow> peers" where
  "timeouts p now = p\<lparr> p_groups := bt_update (\<lambda>_. time_out now) (p_groups p) \<rparr>"

definition served_groups :: "peers \<Rightarrow> conn \<Rightarrow> (bytes \<times> peer_group) list" where
  "served_groups p c = List.map_filter (\<lambda>gid. map_option (\<lambda>g. (gid, g)) (bt_get (p_groups p) gid)) (c_served c)"

fun send_entries :: "peer_key \<Rightarrow> head list \<Rightarrow> conn \<Rightarrow> out list \<times> conn" where
  "send_entries key [] c = ([], c)"
| "send_entries key (h # hs) c =
     (case bt_get (c_theirs c) (h_log_ref h) of
        Some theirs \<Rightarrow>
          if theirs < h_length h
          then let (outs, c') = send_entries key hs (c\<lparr> c_theirs := bt_insert (h_log_ref h) (h_length h) (c_theirs c) \<rparr>)
               in (OutEntries key (h_log_ref h) theirs # outs, c')
          else send_entries key hs c
      | None \<Rightarrow> send_entries key hs c)"

definition heads_of :: "(bytes \<times> peer_group) list \<Rightarrow> head list" where
  "heads_of gs = concat (map (\<lambda>e. (case o_head (g_own (snd e)) of None \<Rightarrow> [] | Some h \<Rightarrow> [h]) @ o_earlier (g_own (snd e))) gs)"

fun new_intros :: "(membership, nat \<times> signed_statement) btree \<Rightarrow> (membership, nat) btree \<Rightarrow> signed_statement list \<times> (membership, nat) btree" where
  "new_intros [] introduced = ([], introduced)"
| "new_intros (e # es) introduced =
     (if (case bt_get introduced (fst e) of None \<Rightarrow> True | Some told \<Rightarrow> told < fst (snd e))
      then let (intros, introduced') = new_intros es (bt_insert (fst e) (fst (snd e)) introduced)
           in (snd (snd e) # intros, introduced')
      else new_intros es introduced)"

fun new_expiries :: "expiry list \<Rightarrow> bytes list \<Rightarrow> expiry list \<times> bytes list" where
  "new_expiries [] expiries = ([], expiries)"
| "new_expiries (e # es) expiries =
     (if e_log_ref e \<in> set expiries then new_expiries es expiries
      else let (fresh, expiries') = new_expiries es (bs_insert (e_log_ref e) expiries) in (e # fresh, expiries'))"

definition untold :: "peer_key \<Rightarrow> (peer_key, nat) btree \<Rightarrow> (peer_key, nat) btree \<Rightarrow> (peer_key, nat) btree" where
  "untold key told seen = filter (\<lambda>e. fst e \<noteq> key \<and> (case bt_get told (fst e) of None \<Rightarrow> True | Some t \<Rightarrow> snd e > t + RETELL)) seen"

definition hello_at :: "nat \<Rightarrow> peer_key \<Rightarrow> (peer_key, nat) btree \<Rightarrow> bytes \<Rightarrow> peer_group \<Rightarrow> conn \<Rightarrow> at_group \<times> conn" where
  "hello_at now key seen gid g c =
     (let fresh = untold key (bt_or [] (c_told c) gid) seen;
          (intros, introduced) = new_intros (o_intros (g_own g)) (bt_or [] (c_introduced c) gid);
          (expired, expiries) = new_expiries (o_expired (g_own g)) (bt_or [] (c_expired c) gid)
      in (\<lparr> at_gid = gid, at_log = o_log (g_own g), at_head = o_head (g_own g),
            at_seen = map (\<lambda>e. (fst e, now - snd e)) fresh, at_intros = intros, at_expired = expired \<rparr>,
          c\<lparr> c_told := bt_entry [] gid (bt_extend fresh) (c_told c),
            c_introduced := bt_insert gid introduced (c_introduced c),
            c_expired := bt_insert gid expiries (c_expired c) \<rparr>))"

fun hello_ats :: "peers \<Rightarrow> nat \<Rightarrow> peer_key \<Rightarrow> (bytes \<times> peer_group) list \<Rightarrow> conn \<Rightarrow> at_group list \<times> conn" where
  "hello_ats p now key [] c = ([], c)"
| "hello_ats p now key (e # es) c =
     (let (at, c1) = hello_at now key (sightings p (fst e) (snd e) now) (fst e) (snd e) c;
          (ats, c2) = hello_ats p now key es c1
      in (at # ats, c2))"

definition hello_conn :: "peers \<Rightarrow> bool \<Rightarrow> nat \<Rightarrow> peer_key \<Rightarrow> conn \<Rightarrow> out list \<times> conn" where
  "hello_conn p due now key c =
     (let served = served_groups p c;
          (entries, c) = send_entries key (heads_of served) c
      in if c_hello c \<or> due
         then let c = c\<lparr> c_hello := False \<rparr>
              in if served = [] then (entries, c)
                 else let (ats, c) = hello_ats p now key served c in (entries @ [OutFrame key (Hello ats)], c)
         else (entries, c))"

definition hellos :: "peers \<Rightarrow> nat \<Rightarrow> out list \<times> peers" where
  "hellos p now =
     (let due = (case p_changed p of None \<Rightarrow> False | Some since \<Rightarrow> now - since \<ge> DEBOUNCE);
          (outs, conns) = bt_walk (hello_conn p due now) (p_conns p)
      in (outs, p\<lparr> p_conns := conns, p_changed := (if due then None else p_changed p) \<rparr>))"

fun sync_groups :: "peers \<Rightarrow> peer_key \<Rightarrow> bytes list \<Rightarrow> conn \<Rightarrow> out list \<times> conn" where
  "sync_groups p key [] c = ([], c)"
| "sync_groups p key (gid # gids) c =
     (case (case bt_get (p_groups p) gid of None \<Rightarrow> None | Some g \<Rightarrow> bt_get (g_heard g) (o_me (g_own g))) of
        None \<Rightarrow> sync_groups p key gids c
      | Some h \<Rightarrow>
          let sent = bt_or 0 (c_sent c) gid; version = su_version (hs_summary h)
          in if gid \<in> set (c_served c) \<and> sent < version
             then let (outs, c') = sync_groups p key gids (c\<lparr> c_sent := bt_insert gid version (c_sent c) \<rparr>)
                  in (OutFrame key (SummaryFrame gid (hs_signed h)) # outs, c')
             else sync_groups p key gids (c\<lparr> c_sent := bt_insert gid sent (c_sent c) \<rparr>))"

definition sync :: "peers \<Rightarrow> out list \<times> peers" where
  "sync p =
     (let (outs, conns) = bt_walk (\<lambda>key c. sync_groups p key (c_opened c) (c\<lparr> c_opened := [] \<rparr>)) (p_conns p)
      in (outs, p\<lparr> p_conns := conns \<rparr>))"

text \<open>The dials of a repair: each peer once, while fewer than \<open>DIALS\<close> are in flight to the group's members.\<close>

fun dial_each :: "peer_group \<Rightarrow> peer_key list \<Rightarrow> peer_key list \<Rightarrow> out list \<times> peer_key list" where
  "dial_each g [] dialing = ([], dialing)"
| "dial_each g (k # ks) dialing =
     (if flight dialing g \<ge> DIALS then ([], dialing)
      else if k \<in> set dialing then dial_each g ks dialing
      else let (outs, dialing') = dial_each g ks (bs_insert k dialing) in (Dial k # outs, dialing'))"

definition reachable_peer :: "peers \<Rightarrow> nat \<Rightarrow> peer_key \<Rightarrow> bool" where
  "reachable_peer p now k \<longleftrightarrow> \<not> is_connected p k \<and> k \<notin> set (p_dialing p) \<and> \<not> backing p k now"

definition waiting_holders :: "peers \<Rightarrow> bytes \<Rightarrow> peer_group \<Rightarrow> nat \<Rightarrow> peer_key list" where
  "waiting_holders p gid g now = map snd (sort (List.map_filter (\<lambda>h.
     (case lowest (offer (g_waiting g) (fst (snd h)) (g_struck g) (fst h)) of
        None \<Rightarrow> None | Some l \<Rightarrow> Some (l, fst h)))
     (filter (\<lambda>h. reachable_peer p now (fst h)) (holds p gid g))))"

definition offers :: "peers \<Rightarrow> bytes \<Rightarrow> peer_group \<Rightarrow> (peer_key \<times> posset) list" where
  "offers p gid g =
     (let wanted = union_sets (to_set (o_wanted (g_own g))) (g_waiting g); stale = to_set (o_stale (g_own g))
      in filter (\<lambda>h. snd h \<noteq> []) (map (\<lambda>h. (fst h, union_sets (offer wanted (fst (snd h)) (g_struck g) (fst h))
           (offer stale (snd (snd h)) (g_struck g) (fst h)))) (holds p gid g)))"

definition take_512 :: "posset \<Rightarrow> posset" where
  "take_512 asked = bt_update (\<lambda>_ r. from_iter (take 512 (iter r))) asked"

definition pick_request :: "peers \<Rightarrow> bytes \<Rightarrow> peer_group \<Rightarrow> (peer_key \<times> posset) option" where
  "pick_request p gid g =
     (if g_request g = None
      then min_by (\<lambda>h. (lowest (snd h), fst h)) (filter (\<lambda>h. serves p (fst h) gid) (offers p gid g)) else None)"

definition pick_dial :: "nat \<Rightarrow> peers \<Rightarrow> bytes \<Rightarrow> peer_group \<Rightarrow> peer_key list" where
  "pick_dial now p gid g =
     (if g_request g = None \<and> pick_request p gid g = None \<and> flight (p_dialing p) g = 0
      then (case min_by (\<lambda>h. (lowest (snd h), fst h)) (filter (\<lambda>h. reachable_peer p now (fst h)) (offers p gid g)) of
              None \<Rightarrow> [] | Some h \<Rightarrow> [fst h])
      else [])"

definition ask :: "nat \<Rightarrow> peers \<Rightarrow> bytes \<Rightarrow> peer_group \<Rightarrow> peer_key \<Rightarrow> posset \<Rightarrow> out \<times> peers" where
  "ask now p gid g k wish =
     (let asked = take_512 wish;
          announced = (case bt_get (p_conns p) k of
              None \<Rightarrow> False
            | Some c \<Rightarrow> (case bt_get (c_has c) gid of None \<Rightarrow> False | Some has \<Rightarrow> offer asked has [] k \<noteq> []));
          until = now + (if announced then LARGE_TIMEOUT else TIMEOUT);
          r = \<lparr> rq_holder = k, rq_asked = asked, rq_epoch = o_epoch (g_own g), rq_until = until \<rparr>;
          p = used p k now
      in (OutFrame k (Want gid (o_epoch (g_own g)) (to_seqs asked)),
          p\<lparr> p_groups := bt_insert gid (g\<lparr> g_request := Some r \<rparr>) (p_groups p) \<rparr>))"

definition repair_group :: "nat \<Rightarrow> peers \<Rightarrow> bytes \<Rightarrow> out list \<times> peers" where
  "repair_group now p gid =
     (case bt_get (p_groups p) gid of
        None \<Rightarrow> ([], p)
      | Some g \<Rightarrow>
          let (outs, dialing) = dial_each g (waiting_holders p gid g now @ pick_dial now p gid g) (p_dialing p);
              p' = p\<lparr> p_dialing := dialing \<rparr>
          in (case pick_request p gid g of
                None \<Rightarrow> (outs, p')
              | Some h \<Rightarrow> let (want, p'') = ask now p' gid g (fst h) (snd h) in (outs @ [want], p'')))"

fun repair_groups :: "nat \<Rightarrow> bytes list \<Rightarrow> peers \<Rightarrow> out list \<times> peers" where
  "repair_groups now [] p = ([], p)"
| "repair_groups now (gid # gids) p =
     (let (outs, p1) = repair_group now p gid; (outs', p2) = repair_groups now gids p1 in (outs @ outs', p2))"

definition repair :: "peers \<Rightarrow> nat \<Rightarrow> out list \<times> peers" where
  "repair p now = repair_groups now (map fst (p_groups p)) p"

text \<open>The targets of a group due to dial; whether some were left for the next poll.\<close>

fun dial_targets :: "peer_group \<Rightarrow> peer_key list \<Rightarrow> peer_key list \<Rightarrow> bool \<times> out list \<times> peer_key list" where
  "dial_targets g [] dialing = (False, [], dialing)"
| "dial_targets g (k # ks) dialing =
     (if flight dialing g \<ge> DIALS then (True, [], dialing)
      else let (left, outs, dialing') = dial_targets g ks (bs_insert k dialing) in (left, Dial k # outs, dialing'))"

fun dial_groups :: "crypto \<Rightarrow> nat \<Rightarrow> bytes list \<Rightarrow> peers \<Rightarrow> out list \<times> peers" where
  "dial_groups C now [] p = ([], p)"
| "dial_groups C now (gid # gids) p =
     (case bt_get (p_groups p) gid of
        None \<Rightarrow> dial_groups C now gids p
      | Some g \<Rightarrow>
          let undialed = filter (\<lambda>k. \<not> is_connected p k \<and> k \<notin> set (p_dialing p)) (targets C p gid g now);
              (left, outs, dialing) = dial_targets g undialed (p_dialing p);
              p = p\<lparr> p_dialing := dialing, p_dial := (if left then bs_insert gid (p_dial p) else p_dial p) \<rparr>;
              (outs', p) = dial_groups C now gids p
          in (outs @ outs', p))"

definition dials :: "crypto \<Rightarrow> peers \<Rightarrow> nat \<Rightarrow> out list \<times> peers" where
  "dials C p now = dial_groups C now (p_dial p) (p\<lparr> p_dial := [] \<rparr>)"

definition close_due :: "peers \<Rightarrow> peer_key list \<Rightarrow> nat \<Rightarrow> peer_key list" where
  "close_due p t now = map fst (filter (\<lambda>e.
     if c_served (snd e) = [] then now - c_served_at (snd e) \<ge> STRANGER
     else c_dialed (snd e) \<and> fst e \<notin> set t \<and> now - c_active (snd e) \<ge> IDLE) (p_conns p))"

function close_more :: "(peer_key, conn) btree \<Rightarrow> peer_key list \<Rightarrow> peer_key list \<Rightarrow> peer_key list" where
  "close_more conns t close =
     (if length conns - length close > MAX_CONNECTIONS then
        (case min_by (\<lambda>e. c_active (snd e)) (filter (\<lambda>e. fst e \<notin> set t \<and> fst e \<notin> set close) conns) of
           None \<Rightarrow> close
         | Some e \<Rightarrow> close_more conns t (close @ [fst e]))
      else close)"
  by pat_completeness auto

termination
  by (relation "measure (\<lambda>(conns, t, close). length conns - length close)") auto

declare close_more.simps [simp del]

fun close_all :: "peer_key list \<Rightarrow> nat \<Rightarrow> peers \<Rightarrow> peers" where
  "close_all [] now p = p"
| "close_all (k # ks) now p = close_all ks now (disconnect p k now)"

definition closes :: "crypto \<Rightarrow> peers \<Rightarrow> nat \<Rightarrow> out list \<times> peers" where
  "closes C p now =
     (let t = targeted C p now; close = close_more (p_conns p) t (close_due p t now)
      in (map Close close, close_all close now p))"

definition poll :: "crypto \<Rightarrow> peers \<Rightarrow> nat \<Rightarrow> out list \<times> peers" where
  "poll C p now =
     (let p = timeouts p now;
          (hello_outs, p) = hellos p now;
          (sync_outs, p) = sync p;
          (repair_outs, p) = repair p now;
          (dial_outs, p) = dials C p now;
          (close_outs, p) = closes C p now
      in (hello_outs @ sync_outs @ repair_outs @ dial_outs @ close_outs, p))"

definition next_poll :: "crypto \<Rightarrow> peers \<Rightarrow> nat \<Rightarrow> nat option" where
  "next_poll C p now =
     (let busy = list_ex (\<lambda>e. g_request (snd e) \<noteq> None \<or> o_wanted (g_own (snd e)) \<noteq> [] \<or> o_stale (g_own (snd e)) \<noteq> [] \<or> g_waiting (snd e) \<noteq> []) (p_groups p);
          dial = list_ex (\<lambda>gid. case bt_get (p_groups p) gid of None \<Rightarrow> False | Some g \<Rightarrow> flight (p_dialing p) g < DIALS) (p_dial p);
          due = (dial \<or> list_ex (\<lambda>e. c_hello (snd e) \<or> c_opened (snd e) \<noteq> []) (p_conns p));
          t = targeted C p now;
          ends = List.map_filter (\<lambda>e.
            if c_served (snd e) = [] then Some (c_served_at (snd e) + STRANGER)
            else if c_dialed (snd e) \<and> fst e \<notin> set t then Some (c_active (snd e) + IDLE)
            else None) (p_conns p);
          times = (if due then [now] else []) @ (if busy then [now + BUSY] else []) @
            (case p_changed p of None \<Rightarrow> [] | Some since \<Rightarrow> [since + DEBOUNCE]) @ ends
      in min_by id times)"

section \<open>Answering\<close>

fun answer_seqs :: "(u64 \<Rightarrow> bytes option) \<Rightarrow> u64 list \<Rightarrow> bytes list \<Rightarrow> nat \<Rightarrow> bytes list \<times> nat \<times> u64 option" where
  "answer_seqs cipher [] items sz = (items, sz, None)"
| "answer_seqs cipher (s # ss) items sz =
     (if sz \<ge> ANSWER then (items, sz, Some s)
      else case cipher s of
             Some c \<Rightarrow> answer_seqs cipher ss (items @ [c]) (sz + length c)
           | None \<Rightarrow> answer_seqs cipher ss items sz)"

fun answer_loop :: "(bytes \<Rightarrow> nat \<Rightarrow> u64 \<Rightarrow> bytes option) \<Rightarrow> posset \<Rightarrow> posset \<Rightarrow> posset \<Rightarrow> bytes list \<Rightarrow> nat \<Rightarrow> posset \<times> bytes list" where
  "answer_loop cipher held [] cov items sz = (cov, items)"
| "answer_loop cipher held (e # rest) cov items sz =
     (case bt_get held (fst e) of
        None \<Rightarrow> answer_loop cipher held rest cov items sz
      | Some h \<Rightarrow>
          (case answer_seqs (cipher (fst (fst e)) (snd (fst e))) (iter (intersection (snd e) h)) items sz of
             (items, sz, None) \<Rightarrow> answer_loop cipher held rest cov items sz
           | (items, sz, Some s) \<Rightarrow>
               (bt_insert (fst e) (through (snd e) (s - 1)) (bt_retain (\<lambda>n _. n \<le> fst e) cov), items)))"

definition answer_want :: "bytes \<Rightarrow> seqs list \<Rightarrow> seqs list \<Rightarrow> (bytes \<Rightarrow> nat \<Rightarrow> u64 \<Rightarrow> bytes option) \<Rightarrow> frame" where
  "answer_want gid asked held cipher =
     (let asked = to_set asked; held = to_set held;
          (cov, items) = answer_loop cipher held asked asked [] 0
      in HeldFrame gid items (Some (to_seqs cov)))"

end
