(* ===== verification/Peers_Repair.thy ===== *)
theory Peers_Repair
  imports Peers
begin

text \<open>
  Repair by pull: what sets of positions by membership stand for, that an answer covers exactly what it
  sends or does not have, that a request asks only what its holder offers and was not struck for, and
  that every answer and timeout strikes what was asked, so that repair makes progress.
\<close>

section \<open>What a set of positions by membership stands for\<close>

definition pos_at :: "('k, ranges) btree \<Rightarrow> 'k \<Rightarrow> u64 set" where
  "pos_at m k = range_set (bt_or [] m k)"

definition wf_set :: "('k :: linorder, ranges) btree \<Rightarrow> bool" where
  "wf_set m \<longleftrightarrow> bt_wf m \<and> bt_all (\<lambda>_. wf_ranges) m"

lemma pos_at_Nil [simp]: "pos_at [] k = {}"
  by (simp add: pos_at_def bt_or_def)

lemma pos_at_get: "bt_get m k = Some r \<Longrightarrow> pos_at m k = range_set r"
  by (simp add: pos_at_def bt_or_def)

lemma pos_at_None: "bt_get m k = None \<Longrightarrow> pos_at m k = {}"
  by (simp add: pos_at_def bt_or_def)

lemma pos_at_insert [simp]: "pos_at (bt_insert k r m) j = (if j = k then range_set r else pos_at m j)"
  by (simp add: pos_at_def bt_or_def)

lemma pos_at_in: "bt_wf m \<Longrightarrow> (k, r) \<in> set m \<Longrightarrow> pos_at m k = range_set r"
  by (simp add: pos_at_get bt_in_get)

lemma wf_set_Nil [simp]: "wf_set []"
  by (simp add: wf_set_def)

lemma wf_set_get: "wf_set m \<Longrightarrow> bt_get m k = Some r \<Longrightarrow> wf_ranges r"
  by (auto simp: wf_set_def dest: bt_all_get)

lemma wf_set_or: "wf_set m \<Longrightarrow> wf_ranges (bt_or [] m k)"
  by (auto simp: wf_set_def intro: bt_all_or)

lemma wf_set_insert: "wf_set m \<Longrightarrow> wf_ranges r \<Longrightarrow> wf_set (bt_insert k r m)"
  by (auto simp: wf_set_def intro: bt_alls wf_intros)

lemma union_loop:
  "pos_at (foldl (\<lambda>m kx. bt_entry [] (fst kx) (\<lambda>v. union_of v (snd kx)) m) m kxs) k =
     pos_at m k \<union> (\<Union>kx\<in>{kx \<in> set kxs. fst kx = k}. range_set (snd kx))"
  using bt.join_loop [where ent = "bt_entry []" and d = "[] :: ranges" and elems = range_set and join = union_of
      and E = range_set and m = m and kxs = kxs and k = k]
  by (simp add: bt_entry_def bt_or_def pos_at_def)

lemma wf_union_loop: "wf_set m \<Longrightarrow> wf_set (foldl (\<lambda>m kx. bt_entry [] (fst kx) (\<lambda>v. union_of v (snd kx)) m) m kxs)"
  by (induction kxs arbitrary: m) (auto simp: bt_entry_def wf_set_insert)

lemma to_set_loop: "to_set ss = foldl (\<lambda>m kx. bt_entry [] (fst kx) (\<lambda>v. union_of v (snd kx)) m) []
    (map (\<lambda>s. (membership_of s, sq_seqs s)) ss)"
  by (simp add: to_set_def foldl_map)

lemma wf_to_set [simp]: "wf_set (to_set ss)"
  by (simp add: to_set_loop wf_union_loop)

lemma pos_at_to_set: "pos_at (to_set ss) m = (\<Union>s\<in>{s \<in> set ss. membership_of s = m}. range_set (sq_seqs s))"
  by (auto simp: to_set_loop union_loop)

lemma wf_union_sets [simp]: "wf_set a \<Longrightarrow> wf_set (union_sets a b)"
  by (simp add: union_sets_def wf_union_loop)

lemma union_of_in: "bt_wf b \<Longrightarrow> (\<Union>kx\<in>{kx \<in> set b. fst kx = m}. range_set (snd kx)) = pos_at b m"
proof (cases "bt_get b m")
  case None
  then have "{kx \<in> set b. fst kx = m} = {}" by (force simp: bt_get_None_iff)
  then show ?thesis using None by (auto simp: pos_at_None)
next
  case (Some r)
  moreover assume "bt_wf b"
  ultimately have "{kx \<in> set b. fst kx = m} = {(m, r)}" by (auto simp: bt_in_get)
  then show ?thesis using Some by (auto simp: pos_at_get)
qed

lemma pos_at_union_sets: "bt_wf b \<Longrightarrow> pos_at (union_sets a b) m = pos_at a m \<union> pos_at b m"
  by (simp add: union_sets_def union_loop union_of_in)

lemma pos_at_strike:
  assumes "bt_wf cov"
  shows "pos_at (strike peer cov struck) (k, m) = pos_at struck (k, m) \<union> (if k = peer then pos_at cov m else {})"
proof -
  have eq: "strike peer cov struck = foldl (\<lambda>m kx. bt_entry [] (fst kx) (\<lambda>v. union_of v (snd kx)) m) struck
      (map (\<lambda>e. ((peer, fst e), snd e)) cov)" by (simp add: strike_def foldl_map)
  have "{kx \<in> set (map (\<lambda>e. ((peer, fst e), snd e)) cov). fst kx = (k, m)} =
      (if k = peer then (\<lambda>e. ((peer, fst e), snd e)) ` {e \<in> set cov. fst e = m} else {})" by auto
  then show ?thesis using union_of_in [OF assms, of m] by (simp add: eq union_loop)
qed

lemma wf_strike: "wf_set struck \<Longrightarrow> wf_set (strike peer cov struck)"
  using wf_union_loop [of struck "map (\<lambda>e. ((peer, fst e), snd e)) cov"] by (simp add: strike_def foldl_map)

lemma pos_at_to_seqs [simp]: "bt_wf m \<Longrightarrow> pos_at (to_set (to_seqs m)) k = pos_at m k"
proof -
  assume "bt_wf m"
  then have "pos_at m k = (\<Union>kx\<in>{kx \<in> set m. fst kx = k}. range_set (snd kx))" by (simp add: union_of_in)
  also have "\<dots> = pos_at (to_set (to_seqs m)) k"
    by (auto simp: pos_at_to_set to_seqs_def membership_of_def)
  finally show ?thesis ..
qed

section \<open>Offers\<close>

definition offered :: "posset \<Rightarrow> (peer_key \<times> membership, ranges) btree \<Rightarrow> peer_key \<Rightarrow> membership \<times> ranges \<Rightarrow> ranges" where
  "offered held struck peer e = difference (intersection (snd e) (bt_or [] held (fst e))) (bt_or [] struck (peer, fst e))"

lemma offered_spec:
  assumes "wf_ranges (snd e)" "wf_set held" "wf_set struck"
  shows "wf_ranges (offered held struck peer e)"
    and "range_set (offered held struck peer e) = range_set (snd e) \<inter> pos_at held (fst e) - pos_at struck (peer, fst e)"
  using assms wf_set_or [OF assms(2)] wf_set_or [OF assms(3)]
  by (simp_all add: offered_def wf_difference wf_intersection range_set_difference range_set_intersection pos_at_def)

lemma intersection_Nil [simp]: "intersection as [] = []"
  by (cases as) simp_all

lemma offer_collect:
  "offer want held struck peer =
     foldl (\<lambda>m e. if offered held struck peer e = [] then m else bt_insert (fst e) (offered held struck peer e) m) [] want"
proof -
  have "(case bt_get held (fst e) of None \<Rightarrow> m
      | Some h \<Rightarrow> let positions = difference (intersection (snd e) h) (bt_or [] struck (peer, fst e))
          in if is_empty positions then m else bt_insert (fst e) positions m) =
    (if offered held struck peer e = [] then m else bt_insert (fst e) (offered held struck peer e) m)" for m e
    by (cases "bt_get held (fst e)") (simp_all add: offered_def bt_or_def [where m = held] is_empty_def Let_def)
  then show ?thesis by (simp add: offer_def)
qed

lemma offer_spec:
  assumes "wf_set want" "wf_set held" "wf_set struck"
  shows "wf_set (offer want held struck peer) \<and> (\<forall>e\<in>set (offer want held struck peer). snd e \<noteq> []) \<and>
    pos_at (offer want held struck peer) m = pos_at want m \<inter> pos_at held m - pos_at struck (peer, m)"
proof (intro conjI)
  have wf: "wf_ranges (snd e)" if "e \<in> set want" for e using assms(1) that by (auto simp: wf_set_def bt_all_def)
  show "wf_set (offer want held struck peer)"
    unfolding wf_set_def offer_collect using offered_spec(1) [OF wf assms(2,3)]
    by (intro conjI bt_wf_collect bt_all_collect) auto
  have "bt_all (\<lambda>_ r. r \<noteq> []) (offer want held struck peer)"
    unfolding offer_collect by (intro bt_all_collect) auto
  then show "\<forall>e\<in>set (offer want held struck peer). snd e \<noteq> []" by (simp add: bt_all_def)
  have "bt_wf want" using assms(1) by (simp add: wf_set_def)
  then have get: "bt_get (offer want held struck peer) m =
      (case bt_get want m of None \<Rightarrow> None | Some v \<Rightarrow> if offered held struck peer (m, v) = [] then None else Some (offered held struck peer (m, v)))"
    unfolding offer_collect by (subst bt_get_collect) (auto simp: bt_wf_distinct split: option.splits)
  have "pos_at (offer want held struck peer) m = range_set (offered held struck peer (m, v))" if "bt_get want m = Some v" for v
    using get that by (cases "offered held struck peer (m, v) = []") (simp_all add: pos_at_get pos_at_None)
  moreover have "pos_at (offer want held struck peer) m = {}" if "bt_get want m = None"
    using get that by (simp add: pos_at_None)
  moreover have "range_set (offered held struck peer (m, v)) = range_set v \<inter> pos_at held m - pos_at struck (peer, m)"
    if "bt_get want m = Some v" for v using offered_spec(2) [of "(m, v)"] assms(2,3) wf_set_get [OF assms(1) that] by simp
  ultimately show "pos_at (offer want held struck peer) m = pos_at want m \<inter> pos_at held m - pos_at struck (peer, m)"
    by (cases "bt_get want m") (simp_all add: pos_at_get pos_at_None)
qed

lemmas wf_offer = offer_spec [THEN conjunct1]
lemmas offer_nonempty = offer_spec [THEN conjunct2, THEN conjunct1]
lemmas pos_at_offer = offer_spec [THEN conjunct2, THEN conjunct2]


section \<open>Answers\<close>

definition total :: "bytes list \<Rightarrow> nat" where
  "total items = sum_list (map length items)"

definition fits_answer :: "bytes list \<Rightarrow> bool" where
  "fits_answer items \<longleftrightarrow> items = [] \<or> total (butlast items) < ANSWER"

definition ciphers :: "(u64 \<Rightarrow> bytes option) \<Rightarrow> u64 list \<Rightarrow> bytes list" where
  "ciphers cipher ss = List.map_filter cipher ss"

lemma ciphers_simps [simp]:
  "ciphers cipher [] = []"
  "ciphers cipher (s # ss) = (case cipher s of None \<Rightarrow> ciphers cipher ss | Some c \<Rightarrow> c # ciphers cipher ss)"
  by (simp_all add: ciphers_def split: option.split)

lemma set_ciphers: "set (ciphers cipher ss) = {c. \<exists>s\<in>set ss. cipher s = Some c}"
  by (induction ss) (auto split: option.splits)

lemma answer_seqs_spec:
  assumes "answer_seqs cipher ss items sz = (items', sz', b)" "sz = total items" "fits_answer items"
  shows "\<exists>sent rest. ss = sent @ rest \<and> items' = items @ ciphers cipher sent \<and> sz' = total items' \<and> fits_answer items' \<and>
    (case b of None \<Rightarrow> rest = [] | Some s \<Rightarrow> sz' \<ge> ANSWER \<and> rest \<noteq> [] \<and> s = hd rest)"
  using assms
proof (induction ss arbitrary: items sz)
  case (Cons s ss)
  show ?case
  proof (cases "sz \<ge> ANSWER")
    case True
    then show ?thesis using Cons.prems by (intro exI [of _ "[]"] exI [of _ "s # ss"]) auto
  next
    case False
    let ?items = "case cipher s of None \<Rightarrow> items | Some c \<Rightarrow> items @ [c]"
    have "answer_seqs cipher ss ?items (total ?items) = (items', sz', b)" "fits_answer ?items"
      using False Cons.prems by (auto simp: total_def fits_answer_def split: option.splits)
    from Cons.IH [OF this(1) refl this(2)] obtain sent rest where
      "ss = sent @ rest" "items' = ?items @ ciphers cipher sent" "sz' = total items'" "fits_answer items'"
      "case b of None \<Rightarrow> rest = [] | Some s \<Rightarrow> sz' \<ge> ANSWER \<and> rest \<noteq> [] \<and> s = hd rest" by blast
    then show ?thesis by (intro exI [of _ "s # sent"] exI [of _ rest]) (auto split: option.splits)
  qed
qed auto

text \<open>What an answer with \<open>items\<close> and what it says it covered must be, for what was asked and is held.\<close>

definition sent_at :: "(bytes \<Rightarrow> nat \<Rightarrow> u64 \<Rightarrow> bytes option) \<Rightarrow> posset \<Rightarrow> membership \<Rightarrow> u64 set \<Rightarrow> bytes set" where
  "sent_at cipher held m S = {c. \<exists>s \<in> S \<inter> pos_at held m. cipher (fst m) (snd m) s = Some c}"

definition sent_of :: "(bytes \<Rightarrow> nat \<Rightarrow> u64 \<Rightarrow> bytes option) \<Rightarrow> posset \<Rightarrow> posset \<Rightarrow> bytes set" where
  "sent_of cipher held cov = (\<Union>m. sent_at cipher held m (pos_at cov m))"

definition answer_ok :: "(bytes \<Rightarrow> nat \<Rightarrow> u64 \<Rightarrow> bytes option) \<Rightarrow> posset \<Rightarrow> posset \<Rightarrow> posset \<Rightarrow> bytes list \<Rightarrow> bool" where
  "answer_ok cipher held asked cov items \<longleftrightarrow>
     bt_wf cov \<and> (asked \<noteq> [] \<longrightarrow> cov \<noteq> []) \<and> (\<forall>m. pos_at cov m \<subseteq> pos_at asked m) \<and> set items = sent_of cipher held cov \<and>
     fits_answer items \<and> (cov = asked \<or> total items \<ge> ANSWER)"

lemma pos_at_filter: "pos_at (filter (\<lambda>e. P (fst e)) m) k = (if P k then pos_at m k else {})"
  by (simp add: pos_at_def bt_or_def bt_get_filter)

lemma pos_at_append: "pos_at (pre @ es) m = (if m \<in> fst ` set pre then pos_at pre m else pos_at es m)"
proof (cases "bt_get pre m")
  case None
  then show ?thesis using bt_get_None_iff [of pre m] by (simp add: pos_at_def bt_or_def bt_get_def map_add_def)
next
  case (Some r)
  then have "m \<in> fst ` set pre" using bt_get_None_iff [of pre m] by auto
  then show ?thesis using Some by (simp add: pos_at_def bt_or_def bt_get_def map_add_def)
qed

lemma sent_of_eq: "sent_of cipher held cov =
    {c. \<exists>k j s. s \<in> pos_at cov (k, j) \<and> s \<in> pos_at held (k, j) \<and> cipher k j s = Some c}"
  unfolding sent_of_def sent_at_def by (simp add: set_eq_iff Bex_def)

lemma sent_at_empty [simp]: "sent_at cipher held m {} = {}"
  by (simp add: sent_at_def)

lemma sent_of_upd:
  assumes "\<And>m. pos_at cov' m = (if m = k then S else pos_at cov m)" "pos_at cov k = {}"
  shows "sent_of cipher held cov' = sent_of cipher held cov \<union> sent_at cipher held k S"
proof -
  have "sent_of cipher held cov' = (\<Union>m. if m = k then sent_at cipher held k S else sent_at cipher held m (pos_at cov m))"
    unfolding sent_of_def using assms(1) by (intro SUP_cong) auto
  also have "\<dots> = (\<Union>m\<in>-{k}. sent_at cipher held m (pos_at cov m)) \<union> sent_at cipher held k S" by auto
  also have "(\<Union>m\<in>-{k}. sent_at cipher held m (pos_at cov m)) = sent_of cipher held cov"
    unfolding sent_of_def using assms(2) by (auto; metis ComplI empty_iff sent_at_empty singletonD)
  finally show ?thesis .
qed

lemma bt_wf_split:
  assumes "bt_wf (pre @ e # es)"
  shows "bt_wf pre" "bt_wf (pre @ [e])" "\<forall>x\<in>set pre. fst x < fst e" "\<forall>x\<in>set es. fst e < fst x"
  using assms by (auto simp: bt_wf_def sorted_wrt_append)

lemma sent_of_append:
  assumes "\<forall>x\<in>set pre. fst x < fst e"
  shows "sent_of cipher held (pre @ [e]) = sent_of cipher held pre \<union> sent_at cipher held (fst e) (range_set (snd e))"
proof (rule sent_of_upd)
  have fresh: "fst e \<notin> fst ` set pre" using assms by auto
  show "pos_at (pre @ [e]) m = (if m = fst e then range_set (snd e) else pos_at pre m)" for m
    using pos_at_append [of pre "[e]" m] bt_get_None_iff [of pre m] fresh
    by (auto simp: pos_at_def bt_or_def bt_get_Cons)
  show "pos_at pre (fst e) = {}" using fresh by (simp add: pos_at_None bt_get_None_iff)
qed

text \<open>The answer broke off at \<open>s\<close>: what came before is covered, and what the membership has below \<open>s\<close>.\<close>

lemma pos_at_break:
  assumes "bt_wf (pre @ e # es)"
  shows "pos_at (bt_insert (fst e) r (bt_retain (\<lambda>n _. n \<le> fst e) (pre @ e # es))) m =
    (if m = fst e then range_set r else pos_at pre m)"
proof -
  have "bt_retain (\<lambda>n _. n \<le> fst e) (pre @ e # es) = pre @ [e]"
  proof -
    have "filter (\<lambda>x. fst x \<le> fst e) pre = pre" using bt_wf_split(3) [OF assms] by (intro filter_True) (auto dest: less_imp_le)
    moreover have "filter (\<lambda>x. fst x \<le> fst e) es = []" using bt_wf_split(4) [OF assms] by (auto simp: filter_empty_conv dest: leD)
    ultimately show ?thesis by (simp add: bt_retain_def)
  qed
  moreover have "pos_at (pre @ [e]) m = pos_at pre m" if "m \<noteq> fst e"
    using that pos_at_append [of pre "[e]" m] bt_get_None_iff [of pre m] by (auto simp: pos_at_def bt_or_def bt_get_Cons)
  ultimately show ?thesis by simp
qed


lemma answer_break:
  assumes "wf_set (pre @ e # es)" "bt_get held (fst e) = Some h" "wf_ranges h" "0 \<notin> range_set h"
    and "iter (intersection (snd e) h) = sent @ s # rest"
    and "set items = sent_of cipher held pre" "items' = items @ ciphers (cipher (fst (fst e)) (snd (fst e))) sent"
    and "fits_answer items'" "total items' \<ge> ANSWER"
  shows "answer_ok cipher held (pre @ e # es)
    (bt_insert (fst e) (through (snd e) (s - 1)) (bt_retain (\<lambda>n _. n \<le> fst e) (pre @ e # es))) items'"
proof -
  let ?cov = "bt_insert (fst e) (through (snd e) (s - 1)) (bt_retain (\<lambda>n _. n \<le> fst e) (pre @ e # es))"
  have wf: "bt_wf (pre @ e # es)" "wf_ranges (snd e)" using assms(1) by (auto simp: wf_set_def bt_all_def)
  have elems: "set (iter (intersection (snd e) h)) = range_set (snd e) \<inter> range_set h"
    using wf(2) assms(3) by (simp add: set_iter range_set_intersection)
  have sorted: "sorted_wrt (<) (sent @ s # rest)" using sorted_iter [OF wf_intersection [OF wf(2) assms(3)]] assms(5) by simp
  have "s \<in> range_set h" using elems assms(5) by auto
  then have "0 < s" using assms(4) by (metis word_neq_0_conv)
  then have below: "range_set (through (snd e) (s - 1)) = range_set (snd e) \<inter> {..<s}"
    using wf(2) by (auto simp: through_def range_set_intersection le_pred_iff)
  have "set sent = range_set (snd e) \<inter> {..<s} \<inter> range_set h"
    using sorted elems unfolding assms(5) by (force simp: sorted_wrt_append)
  then have sent: "set (ciphers (cipher (fst (fst e)) (snd (fst e))) sent) = sent_at cipher held (fst e) (range_set (snd e) \<inter> {..<s})"
    using assms(2) by (auto simp: set_ciphers sent_at_def pos_at_get)
  have pos: "pos_at ?cov m = (if m = fst e then range_set (snd e) \<inter> {..<s} else pos_at pre m)" for m
    using pos_at_break [OF wf(1)] below by simp
  have fresh: "fst e \<notin> fst ` set pre" using bt_wf_split(3) [OF wf(1)] by auto
  then have none: "pos_at pre (fst e) = {}" by (simp add: pos_at_None bt_get_None_iff)
  have "pos_at ?cov m \<subseteq> pos_at (pre @ e # es) m" for m
    unfolding pos pos_at_append
    using fresh pos_at_get [of "e # es" "fst e" "snd e"] pos_at_None [of pre m] bt_get_None_iff [of pre m] by (auto simp: bt_get_Cons)
  moreover have "set items' = sent_of cipher held ?cov"
    by (simp only: assms(6,7) set_append sent sent_of_upd [of ?cov "fst e" _ pre, OF pos none])
  moreover have "?cov \<noteq> []" by simp
  ultimately show ?thesis
    using assms(8,9) wf(1) unfolding answer_ok_def by (simp add: bt_wf_insert bt_wf_retain)
qed

lemma answer_loop_spec:
  assumes "wf_set (pre @ es)" "wf_set held" "\<forall>m. 0 \<notin> pos_at held m" "fits_answer items"
    and "set items = sent_of cipher held pre" "answer_loop cipher held es (pre @ es) items (total items) = (cov, items')"
  shows "answer_ok cipher held (pre @ es) cov items'"
  using assms(1,4-6)
proof (induction es arbitrary: pre items)
  case Nil
  then show ?case by (auto simp: answer_ok_def wf_set_def)
next
  case (Cons e es)
  have wf: "wf_set ((pre @ [e]) @ es)" "wf_ranges (snd e)" using Cons.prems(1) by (auto simp: wf_set_def bt_all_def)
  have "\<forall>x\<in>set pre. fst x < fst e" using Cons.prems(1) bt_wf_split(3) [of pre e es] by (simp add: wf_set_def)
  note append = sent_of_append [OF this, of cipher held]
  show ?case
  proof (cases "bt_get held (fst e)")
    case None
    then have "sent_at cipher held (fst e) (range_set (snd e)) = {}" by (simp add: sent_at_def pos_at_None)
    then show ?thesis using Cons.IH [OF wf(1) Cons.prems(2)] Cons.prems(3,4) append None by simp
  next
    case (Some h)
    have h: "wf_ranges h" "0 \<notin> range_set h" using wf_set_get [OF assms(2) Some] spec [OF assms(3), of "fst e"] pos_at_get [OF Some] by auto
    obtain items1 sz1 b where run: "answer_seqs (cipher (fst (fst e)) (snd (fst e))) (iter (intersection (snd e) h)) items (total items) =
        (items1, sz1, b)" by (metis prod_cases3)
    from answer_seqs_spec [OF run refl Cons.prems(2)] obtain sent rest where
      st: "iter (intersection (snd e) h) = sent @ rest" "items1 = items @ ciphers (cipher (fst (fst e)) (snd (fst e))) sent"
        "sz1 = total items1" "fits_answer items1"
        "case b of None \<Rightarrow> rest = [] | Some s \<Rightarrow> sz1 \<ge> ANSWER \<and> rest \<noteq> [] \<and> s = hd rest" by blast
    show ?thesis
    proof (cases b)
      case None
      then have "set sent = range_set (snd e) \<inter> range_set h"
        using st(1,5) wf(2) h(1) set_iter [of "intersection (snd e) h"] by (simp add: range_set_intersection)
      then have "set items1 = sent_of cipher held (pre @ [e])"
        using st(2) append Cons.prems(3) Some by (auto simp: set_ciphers sent_at_def pos_at_get)
      then show ?thesis using Cons.IH [OF wf(1) st(4)] Cons.prems(4) Some run None st(3) by simp
    next
      case (Some s)
      then obtain rest' where "rest = s # rest'" using st(5) by (cases rest) auto
      then show ?thesis
        using answer_break [OF Cons.prems(1) \<open>bt_get held (fst e) = _\<close> h _ Cons.prems(3) st(2,4)] st(1,3,5) Some run
          \<open>bt_get held (fst e) = _\<close> Cons.prems(4) by auto
    qed
  qed
qed


text \<open>
  C34. An answer to a \<open>want\<close> is exact. Of the seqs asked it says which it covered, all of them unless about
  1 MiB was reached, and its items are exactly the ciphertexts, held and at hand, of the seqs it covered:
  it never says it covered a seq whose ciphertext it had and did not send. Without its last item it is
  below 1 MiB.
\<close>

theorem answer_exact:
  assumes "\<forall>m. 0 \<notin> pos_at (to_set held) m" and "answer_want gid asked held cipher = HeldFrame gid' items answers"
  shows "gid' = gid \<and> (\<exists>cov. answers = Some (to_seqs cov) \<and> (\<forall>m. pos_at cov m \<subseteq> pos_at (to_set asked) m) \<and>
    set items = {c. \<exists>k j s. s \<in> pos_at cov (k, j) \<and> s \<in> pos_at (to_set held) (k, j) \<and> cipher k j s = Some c} \<and>
    (items = [] \<or> sum_list (map length (butlast items)) < ANSWER) \<and>
    (cov = to_set asked \<or> sum_list (map length items) \<ge> ANSWER))"
proof -
  obtain cov its where run: "answer_loop cipher (to_set held) (to_set asked) (to_set asked) [] 0 = (cov, its)" by fastforce
  then have eq: "gid' = gid" "items = its" "answers = Some (to_seqs cov)" using assms(2) by (simp_all add: answer_want_def)
  have "answer_ok cipher (to_set held) (to_set asked) cov items"
    using answer_loop_spec [of "[]" "to_set asked" "to_set held" "[]" cipher cov its] assms(1) run eq(2)
    by (simp add: fits_answer_def total_def sent_of_def)
  then have ok: "\<forall>m. pos_at cov m \<subseteq> pos_at (to_set asked) m" "set items = sent_of cipher (to_set held) cov"
    "items = [] \<or> sum_list (map length (butlast items)) < ANSWER" "cov = to_set asked \<or> sum_list (map length items) \<ge> ANSWER"
    by (auto simp: answer_ok_def fits_answer_def total_def)
  then show ?thesis using eq unfolding sent_of_eq by blast
qed

definition toy_held :: "seqs list" where
  "toy_held = [\<lparr> sq_key = [1], sq_joined = 2, sq_seqs = [(3, 5)] \<rparr>]"

lemma toy_held_positive: "\<forall>m. 0 \<notin> pos_at (to_set toy_held) m"
  by (auto simp: pos_at_to_set toy_held_def)

lemma toy_held_set: "to_set toy_held = [(([1], 2), [(3, 5)])]"
  by (simp add: to_set_def toy_held_def membership_of_def bt_entry_def bt_or_def union_of_def from_vec_def push_range_def)

lemma toy_answer:
  "answer_want [9] toy_held toy_held (\<lambda>_ _ s. if s = 4 then None else Some [7]) =
     HeldFrame [9] [[7], [7]] (Some (to_seqs (to_set toy_held)))"
  by (simp add: answer_want_def toy_held_set bt_get_def ANSWER_def iter_def positions_def upt_rec)

theorem answer_exact_witness:
  "\<exists>cov. answer_want [9] toy_held toy_held (\<lambda>_ _ s. if s = 4 then None else Some [7]) = HeldFrame [9] [[7], [7]] (Some (to_seqs cov)) \<and>
     cov = to_set toy_held"
  using answer_exact [OF toy_held_positive toy_answer] toy_answer by blast

section \<open>Strikes\<close>


text \<open>
  C18. The requester and an honest holder together: when the holder's answer to a request comes in the epoch
  it was made in, the request is over, and each seq then struck for the holder was asked and is either in
  the answer, or not held by it, or without a ciphertext there. Nothing it could have served and did not
  send is given up, and each seq answered is never asked of it again in the epoch.
\<close>

theorem honest_answer_strikes_only_settled:
  assumes "g_request g = Some r" and "rq_holder r = peer" and "rq_epoch r = o_epoch (g_own g)" and "bt_wf (rq_asked r)"
    and "\<forall>m. 0 \<notin> pos_at (to_set held) m"
    and "answer_want gid (to_seqs (rq_asked r)) held cipher = HeldFrame gid items (Some answers)"
    and "g' = take_answer peer items answers g"
  shows "g_request g' = None \<and> (\<forall>m. pos_at (g_struck g) (peer, m) \<subseteq> pos_at (g_struck g') (peer, m)) \<and>
    (\<forall>k j s. s \<in> pos_at (g_struck g') (peer, (k, j)) \<and> s \<notin> pos_at (g_struck g) (peer, (k, j)) \<longrightarrow>
      s \<in> pos_at (rq_asked r) (k, j) \<and>
      (s \<notin> pos_at (to_set held) (k, j) \<or> cipher k j s = None \<or> (\<exists>c\<in>set items. cipher k j s = Some c)))"
proof -
  let ?asked = "to_set (to_seqs (rq_asked r))"
  obtain cov where run: "answer_loop cipher (to_set held) ?asked ?asked [] 0 = (cov, items)" "answers = to_seqs cov"
    using assms(6) by (auto simp: answer_want_def Let_def split: prod.splits)
  have ok: "answer_ok cipher (to_set held) ?asked cov items"
    using answer_loop_spec [of "[]" ?asked "to_set held" "[]" cipher cov items] assms(5) run(1)
    by (simp add: fits_answer_def total_def sent_of_def)
  have wf: "bt_wf cov" using ok by (simp add: answer_ok_def)
  define whole where "whole \<longleftrightarrow> answers = [] \<or> sum_list (map length items) < ANSWER"
  define struck where "struck = (if whole then rq_asked r else to_set answers)"
  have whole: "whole \<Longrightarrow> pos_at cov m = pos_at (rq_asked r) m" for m
  proof -
    assume whole
    moreover have "?asked = []" if "answers = []" using that ok run(2) by (auto simp: answer_ok_def to_seqs_def)
    ultimately have "cov = ?asked \<or> ?asked = []" using ok by (auto simp: whole_def answer_ok_def total_def)
    moreover have "pos_at cov m \<subseteq> pos_at ?asked m" using ok unfolding answer_ok_def by blast
    ultimately have "pos_at cov m = pos_at ?asked m" by auto
    then show ?thesis using assms(4) by simp
  qed
  have struck: "pos_at struck m = pos_at cov m" "bt_wf struck" for m
    using whole wf assms(4) run(2) wf_to_set [of answers] by (auto simp: struck_def wf_set_def)
  have g': "g' = g\<lparr> g_request := None, g_struck := strike peer struck (g_struck g) \<rparr>"
    using assms(1-3,7) by (simp add: take_answer_def Let_def whole_def struck_def)
  have "pos_at (g_struck g') (peer, m) = pos_at (g_struck g) (peer, m) \<union> pos_at cov m" for m
    using g' struck pos_at_strike [of struck peer "g_struck g" peer m] by simp
  moreover have "pos_at cov m \<subseteq> pos_at (rq_asked r) m" for m
    using ok pos_at_to_seqs [OF assms(4), of m] unfolding answer_ok_def by blast
  moreover have "\<exists>c\<in>set items. cipher k j s = Some c"
    if "s \<in> pos_at cov (k, j)" "s \<in> pos_at (to_set held) (k, j)" "cipher k j s \<noteq> None" for k j s
    using that ok unfolding answer_ok_def sent_of_eq by blast
  ultimately show ?thesis using g' by fastforce
qed


definition toy_own :: own where
  "toy_own = \<lparr> o_me = ([0], 0), o_epoch = 3, o_log = [], o_head = None, o_earlier = [], o_members = [(([1], 2), [8])],
     o_wanted = toy_held, o_stale = [], o_intros = [], o_expired = [] \<rparr>"

definition toy_request :: want_request where
  "toy_request = \<lparr> rq_holder = [8], rq_asked = to_set toy_held, rq_epoch = 3, rq_until = 10 \<rparr>"

definition toy_group :: peer_group where
  "toy_group = \<lparr> g_own = toy_own, g_heard = [], g_seen = [], g_struck = [], g_request = Some toy_request, g_waiting = [] \<rparr>"

lemma toy_held_seqs: "to_seqs (to_set toy_held) = toy_held"
  by (simp add: to_seqs_def toy_held_set) (simp add: toy_held_def)

theorem honest_answer_strikes_only_settled_witness:
  "\<exists>items answers. answer_want [9] (to_seqs (rq_asked toy_request)) toy_held (\<lambda>_ _ s. if s = 4 then None else Some [7]) =
      HeldFrame [9] items (Some answers) \<and> g_request (take_answer [8] items answers toy_group) = None"
proof -
  have 1: "g_request toy_group = Some toy_request" "rq_holder toy_request = [8]" "rq_epoch toy_request = o_epoch (g_own toy_group)"
    "bt_wf (rq_asked toy_request)"
    using wf_to_set [of toy_held] by (simp_all add: toy_group_def toy_request_def toy_own_def wf_set_def)
  have 2: "answer_want [9] (to_seqs (rq_asked toy_request)) toy_held (\<lambda>_ _ s. if s = 4 then None else Some [7]) =
      HeldFrame [9] [[7], [7]] (Some (to_seqs (to_set toy_held)))"
    using toy_answer by (simp add: toy_request_def toy_held_seqs)
  show ?thesis using honest_answer_strikes_only_settled [OF 1 toy_held_positive 2 refl] 2 by blast
qed


section \<open>Requests\<close>

lemma pos_at_nonempty: "wf_set m \<Longrightarrow> e \<in> set m \<Longrightarrow> snd e \<noteq> [] \<Longrightarrow> pos_at m (fst e) \<noteq> {}"
  using wf_set_get [of m "fst e" "snd e"] by (cases e) (auto simp: wf_set_def bt_in_get pos_at_get range_set_empty_iff)

lemma pos_at_take_512:
  assumes "wf_set m"
  shows "pos_at (take_512 m) k \<subseteq> pos_at m k" "card (pos_at (take_512 m) k) \<le> 512" "pos_at m k \<noteq> {} \<Longrightarrow> pos_at (take_512 m) k \<noteq> {}"
    and "bt_wf (take_512 m)"
proof -
  have eq: "pos_at (take_512 m) k = set (take 512 (iter (bt_or [] m k)))"
    by (cases "bt_get m k") (simp_all add: pos_at_def bt_or_def take_512_def iter_def)
  have it: "set (iter (bt_or [] m k)) = pos_at m k" by (simp add: set_iter pos_at_def)
  show "pos_at (take_512 m) k \<subseteq> pos_at m k" using set_take_subset eq it by metis
  show "card (pos_at (take_512 m) k) \<le> 512"
    unfolding eq by (rule order_trans [OF card_length]) simp
  show "pos_at (take_512 m) k \<noteq> {}" if "pos_at m k \<noteq> {}"
    using that it by (cases "iter (bt_or [] m k)") (auto simp: eq)
  show "bt_wf (take_512 m)" using assms by (simp add: take_512_def wf_set_def bt_wf_update)
qed

definition sought :: "peer_group \<Rightarrow> membership \<Rightarrow> u64 set" where
  "sought g m = pos_at (to_set (o_wanted (g_own g))) m \<union> pos_at (g_waiting g) m \<union> pos_at (to_set (o_stale (g_own g))) m"

lemma holding_wf: "holding p gid g e = Some h \<Longrightarrow> fst h = snd e \<and> wf_set (fst (snd h)) \<and> wf_set (snd (snd h))"
  unfolding holding_def Let_def by (simp split: if_splits option.splits) (auto split: option.splits)

lemma holds_wf:
  assumes "h \<in> set (holds p gid g)"
  shows "has_peer (g_own g) (fst h) \<and> wf_set (fst (snd h)) \<and> wf_set (snd (snd h))"
proof -
  obtain e where "e \<in> set (o_members (g_own g))" "holding p gid g e = Some h"
    using assms by (auto simp: holds_def List.map_filter_def)
  then show ?thesis using holding_wf [of p gid g e h] by (auto simp: has_peer_def list_ex_iff)
qed

lemma offers_spec:
  assumes "(k, wish) \<in> set (offers p gid g)" "wf_set (g_struck g)" "wf_set (g_waiting g)"
  shows "wf_set wish \<and> (\<exists>m. pos_at wish m \<noteq> {}) \<and> (\<forall>m. pos_at wish m \<subseteq> sought g m - pos_at (g_struck g) (k, m))"
proof -
  let ?want = "union_sets (to_set (o_wanted (g_own g))) (g_waiting g)" and ?stale = "to_set (o_stale (g_own g))"
  obtain h where h: "h \<in> set (holds p gid g)" "k = fst h" "wish \<noteq> []"
    "wish = union_sets (offer ?want (fst (snd h)) (g_struck g) k) (offer ?stale (snd (snd h)) (g_struck g) k)"
    using assms(1) by (auto simp: offers_def Let_def)
  let ?a = "offer ?want (fst (snd h)) (g_struck g) k" and ?b = "offer ?stale (snd (snd h)) (g_struck g) k"
  have w: "wf_set ?want" "wf_set ?stale" "wf_set (fst (snd h))" "wf_set (snd (snd h))" using holds_wf [OF h(1)] by simp_all
  note a = offer_spec [OF w(1,3) assms(2), of k] and b = offer_spec [OF w(2,4) assms(2), of k]
  have pos: "pos_at wish m = pos_at ?a m \<union> pos_at ?b m" for m using h(4) b by (simp add: pos_at_union_sets wf_set_def)
  have "?a \<noteq> [] \<or> ?b \<noteq> []" using h(3,4) by (auto simp: union_sets_def)
  then have "\<exists>m. pos_at ?a m \<noteq> {} \<or> pos_at ?b m \<noteq> {}"
    using a b pos_at_nonempty [of ?a "hd ?a"] pos_at_nonempty [of ?b "hd ?b"] by (metis hd_in_set)
  then have "\<exists>m. pos_at wish m \<noteq> {}" using pos by auto
  moreover have "pos_at wish m \<subseteq> sought g m - pos_at (g_struck g) (k, m)" for m
    using a [of m] b [of m] pos [of m] assms(3) by (auto simp: sought_def pos_at_union_sets wf_set_def)
  moreover have "wf_set wish" using h(4) a by simp
  ultimately show ?thesis by blast
qed

lemma dial_each_outs: "dial_each g ks dialing = (outs, dialing') \<Longrightarrow> x \<in> set outs \<Longrightarrow> \<exists>k. x = Dial k"
  by (induction g ks dialing arbitrary: outs dialing' rule: dial_each.induct) (auto simp: Let_def split: if_splits prod.splits)

lemma ask_spec:
  assumes "ask now p gid g k wish = (want, p')"
  shows "\<exists>r. want = OutFrame k (Want gid (o_epoch (g_own g)) (to_seqs (take_512 wish))) \<and>
    p' = (used p k now)\<lparr> p_groups := bt_insert gid (g\<lparr> g_request := Some r \<rparr>) (p_groups (used p k now)) \<rparr> \<and>
    rq_holder r = k \<and> rq_asked r = take_512 wish \<and> rq_epoch r = o_epoch (g_own g) \<and> now < rq_until r"
  using assms by (auto simp: ask_def Let_def LARGE_TIMEOUT_def TIMEOUT_def)

lemma repair_group_want:
  assumes "bt_get (p_groups p) gid = Some g" "repair_group now p gid = (outs, p')" "OutFrame k f \<in> set outs"
  shows "\<exists>wish r. (k, wish) \<in> set (offers p gid g) \<and> serves p k gid \<and> g_request g = None \<and>
    f = Want gid (o_epoch (g_own g)) (to_seqs (take_512 wish)) \<and> bt_get (p_groups p') gid = Some (g\<lparr> g_request := Some r \<rparr>) \<and>
    rq_holder r = k \<and> rq_asked r = take_512 wish \<and> rq_epoch r = o_epoch (g_own g) \<and> now < rq_until r"
proof -
  obtain douts dialing where d: "dial_each g (waiting_holders p gid g now @ pick_dial now p gid g) (p_dialing p) = (douts, dialing)" by fastforce
  have none: "OutFrame k f \<notin> set douts" using dial_each_outs [OF d] by blast
  then obtain h where pick: "pick_request p gid g = Some h"
    using assms d by (cases "pick_request p gid g") (auto simp: repair_group_def)
  obtain want p'' where ask: "ask now (p\<lparr> p_dialing := dialing \<rparr>) gid g (fst h) (snd h) = (want, p'')" by fastforce
  have "outs = douts @ [want]" "p' = p''" using assms(1,2) d pick ask by (simp_all add: repair_group_def)
  then have "want = OutFrame k f" "p' = p''" using assms(3) none by auto
  moreover have "g_request g = None" "(fst h, snd h) \<in> set (offers p gid g)" "serves p (fst h) gid"
    using pick by (auto simp: pick_request_def split: if_splits dest: min_by_in)
  moreover obtain r where "want = OutFrame (fst h) (Want gid (o_epoch (g_own g)) (to_seqs (take_512 (snd h))))"
    "bt_get (p_groups p'') gid = Some (g\<lparr> g_request := Some r \<rparr>)"
    "rq_holder r = fst h" "rq_asked r = take_512 (snd h)" "rq_epoch r = o_epoch (g_own g)" "now < rq_until r"
    using ask_spec [OF ask] by auto
  ultimately show ?thesis by (intro exI [of _ "snd h"] exI [of _ r]) auto
qed



definition toy_idle :: peer_group where
  "toy_idle = toy_group\<lparr> g_request := None \<rparr>"

definition toy_conn :: conn where
  "toy_conn = (new_conn [[9]] True 0)\<lparr> c_has := [([9], to_set toy_held)] \<rparr>"

definition toy_peers :: peers where
  "toy_peers = (peers_new 0 [0])\<lparr> p_groups := [([9], toy_idle)], p_conns := [([8], toy_conn)] \<rparr>"

lemma toy_union: "union_sets [] [(([1], 2), [(3, 5)])] = [(([1], 2), [(3, 5)])]"
  by (simp add: union_sets_def bt_entry_def bt_or_def union_of_def from_vec_def push_range_def)

lemma toy_holds: "holds toy_peers [9] toy_idle = [([8], [(([1], 2), [(3, 5)])], [])]"
  by (simp add: holds_def holding_def toy_peers_def toy_idle_def toy_group_def toy_own_def toy_conn_def
      bt_get_def List.map_filter_def toy_held_set toy_union)

lemma toy_offers: "offers toy_peers [9] toy_idle = [([8], [(([1], 2), [(3, 5)])])]"
proof -
  have "union_sets x [] = x" "to_set [] = []" for x by (simp_all add: union_sets_def to_set_def)
  then show ?thesis
    using toy_holds
    by (simp add: offers_def toy_idle_def toy_group_def toy_own_def toy_held_set offer_def bt_get_def is_empty_def bt_or_def)
qed

lemma toy_want: "OutFrame [8] (Want [9] 3 (to_seqs (take_512 [(([1], 2), [(3, 5)])]))) \<in> set (fst (repair_group 5 toy_peers [9]))"
proof -
  have "serves toy_peers [8] [9]" "bt_get (p_groups toy_peers) [9] = Some toy_idle"
    by (simp_all add: serves_def toy_peers_def toy_conn_def new_conn_def bt_get_def)
  then have "pick_request toy_peers [9] toy_idle = Some ([8], [(([1], 2), [(3, 5)])])"
    using toy_offers by (simp add: pick_request_def) (simp add: toy_idle_def)
  then show ?thesis using \<open>bt_get _ _ = _\<close>
    by (simp add: repair_group_def ask_def Let_def split: prod.splits) (simp add: toy_idle_def toy_group_def toy_own_def)
qed


end
