(* ===== verification/Peers_Inv.thy ===== *)
theory Peers_Inv
  imports Peers_Repair
begin

text \<open>
  The invariant of the peer protocol's state, over any sequence of the node's calls with a clock that
  does not go back: an outstanding request is always to a connected peer the group is served to, only
  current members have kept summaries and sightings, and no time kept is in the future, so that none of
  the code's subtractions from \<open>now\<close> underflows.
\<close>

section \<open>The invariant\<close>

definition hs_member :: "heard_summary \<Rightarrow> membership" where
  "hs_member h = (su_member (hs_summary h), su_joined (hs_summary h))"

definition g_ok :: "nat \<Rightarrow> peer_group \<Rightarrow> bool" where
  "g_ok now g \<longleftrightarrow> wf_set (g_struck g) \<and> wf_set (g_waiting g) \<and>
     bt_all (\<lambda>k at. has_peer (g_own g) k \<and> at \<le> now) (g_seen g) \<and>
     bt_all (\<lambda>m h. is_member (g_own g) m \<and> hs_member h = m) (g_heard g)"

definition c_ok :: "nat \<Rightarrow> conn \<Rightarrow> bool" where
  "c_ok now c \<longleftrightarrow> c_served_at c \<le> now \<and> c_active c \<le> now \<and> bt_all (\<lambda>_. wf_set) (c_has c)"

definition requests_ok :: "peers \<Rightarrow> bool" where
  "requests_ok p \<longleftrightarrow> (\<forall>gid g r. bt_get (p_groups p) gid = Some g \<longrightarrow> g_request g = Some r \<longrightarrow> serves p (rq_holder r) gid)"

definition peers_ok :: "nat \<Rightarrow> peers \<Rightarrow> bool" where
  "peers_ok now p \<longleftrightarrow> bt_wf (p_groups p) \<and> bt_wf (p_conns p) \<and> bt_all (\<lambda>_. g_ok now) (p_groups p) \<and> bt_all (\<lambda>_. c_ok now) (p_conns p) \<and>
     (\<forall>since. p_changed p = Some since \<longrightarrow> since \<le> now) \<and> requests_ok p"

lemma g_ok_mono: "g_ok t g \<Longrightarrow> t \<le> now \<Longrightarrow> g_ok now g"
  by (fastforce simp: g_ok_def bt_all_def)

lemma c_ok_mono: "c_ok t c \<Longrightarrow> t \<le> now \<Longrightarrow> c_ok now c"
  by (auto simp: c_ok_def)

lemma peers_ok_mono: "peers_ok t p \<Longrightarrow> t \<le> now \<Longrightarrow> peers_ok now p"
  by (fastforce simp: peers_ok_def bt_all_def intro: g_ok_mono c_ok_mono)

lemma peers_ok_get: "peers_ok now p \<Longrightarrow> bt_get (p_groups p) gid = Some g \<Longrightarrow> g_ok now g"
  by (auto simp: peers_ok_def dest: bt_all_get)

lemma peers_ok_conn: "peers_ok now p \<Longrightarrow> bt_get (p_conns p) k = Some c \<Longrightarrow> c_ok now c"
  by (auto simp: peers_ok_def dest: bt_all_get)

lemma serves_get: "serves p k gid \<longleftrightarrow> (\<exists>c. bt_get (p_conns p) k = Some c \<and> gid \<in> set (c_served c))"
  by (auto simp: serves_def split: option.splits)

lemma requests_okI:
  assumes "requests_ok p"
    and "\<And>gid g' r. bt_get (p_groups p') gid = Some g' \<Longrightarrow> g_request g' = Some r \<Longrightarrow>
      \<exists>g. bt_get (p_groups p) gid = Some g \<and> g_request g = Some r \<and> (serves p (rq_holder r) gid \<longrightarrow> serves p' (rq_holder r) gid)"
  shows "requests_ok p'"
  using assms unfolding requests_ok_def by blast

section \<open>Calls\<close>

lemma peers_ok_new: "peers_ok now (peers_new now me)"
  by (simp add: peers_ok_def peers_new_def requests_ok_def)

lemma get_or_insert_simps [simp]:
  "p_groups (get_or_insert now p) = p_groups p" "p_conns (get_or_insert now p) = p_conns p"
  "p_dialing (get_or_insert now p) = p_dialing p" "p_backoff (get_or_insert now p) = p_backoff p"
  "serves (get_or_insert now p) = serves p"
  by (auto simp: get_or_insert_def serves_def fun_eq_iff split: option.split)

lemma peers_ok_changed [wf_intros]: "peers_ok now p \<Longrightarrow> peers_ok now (get_or_insert now p)"
  unfolding peers_ok_def requests_ok_def by (simp del: serves_def) (auto simp: get_or_insert_def split: option.split)

lemma peers_ok_same:
  "peers_ok now p \<Longrightarrow> p_groups p' = p_groups p \<Longrightarrow> p_conns p' = p_conns p \<Longrightarrow> p_changed p' = p_changed p \<or> p_changed p' = None \<Longrightarrow>
   peers_ok now p'"
  by (auto simp: peers_ok_def requests_ok_def serves_def)

lemma peers_ok_push [wf_intros]: "peers_ok now p \<Longrightarrow> peers_ok now (push_group p gid)"
  by (erule peers_ok_same) (simp_all add: push_group_def)

text \<open>Writing one group back: its own parts are kept, and its request is the one it had, or none.\<close>

lemma peers_ok_group:
  assumes "peers_ok now p" "g_ok now g'"
    and "\<And>r. g_request g' = Some r \<Longrightarrow> serves p (rq_holder r) gid"
  shows "peers_ok now (p\<lparr> p_groups := bt_insert gid g' (p_groups p) \<rparr>)"
  using assms by (auto simp: peers_ok_def requests_ok_def serves_def intro: bt_alls wf_intros)

text \<open>Writing one connection back that serves the same groups.\<close>

lemma peers_ok_link:
  assumes "peers_ok now p" "bt_get (p_conns p) k = Some c" "c_ok now c'" "c_served c' = c_served c"
  shows "peers_ok now (p\<lparr> p_conns := bt_insert k c' (p_conns p) \<rparr>)"
proof -
  have "serves (p\<lparr> p_conns := bt_insert k c' (p_conns p) \<rparr>) = serves p" using assms(2,4) by (simp add: serves_def fun_eq_iff)
  then show ?thesis using assms(1,3) by (auto simp: peers_ok_def requests_ok_def intro: bt_alls wf_intros)
qed

lemma serves_group [simp]: "serves (p\<lparr> p_groups := gs \<rparr>) = serves p"
  by (simp add: serves_def fun_eq_iff)

lemma request_served: "peers_ok now p \<Longrightarrow> bt_get (p_groups p) gid = Some g \<Longrightarrow> g_request g = Some r \<Longrightarrow> serves p (rq_holder r) gid"
  by (auto simp: peers_ok_def requests_ok_def)

lemma g_ok_renew: "g_ok now g \<Longrightarrow> g_ok now (renew_group own g)" "g_ok now (new_group own)"
  by (auto simp: g_ok_def renew_group_def new_group_def bt_all_def bt_retain_def)

lemma peers_ok_set_group [wf_intros]:
  assumes "peers_ok now p" shows "peers_ok now (set_group p gid own now)"
proof (cases "bt_get (p_groups p) gid")
  case None
  have "peers_ok now (p\<lparr> p_groups := bt_insert gid (new_group own) (p_groups p) \<rparr>)"
    by (rule peers_ok_group [OF assms g_ok_renew(2)]) (simp add: new_group_def)
  then show ?thesis using None by (auto simp: set_group_def intro: wf_intros)
next
  case (Some g)
  have "peers_ok now (p\<lparr> p_groups := bt_insert gid (renew_group own g) (p_groups p) \<rparr>)"
    using request_served [OF assms Some] peers_ok_get [OF assms Some]
    by (intro peers_ok_group [OF assms g_ok_renew(1)]) (auto simp: renew_group_def)
  then show ?thesis using Some by (auto simp: set_group_def Let_def intro: wf_intros)
qed

lemma forget_in_simps: "c_served (forget_in gid c) = bs_remove gid (c_served c)" "c_ok now c \<Longrightarrow> c_ok now (forget_in gid c)"
  by (simp_all add: forget_in_def c_ok_def bt_all_remove)

lemma peers_ok_forget [wf_intros]:
  assumes "peers_ok now p" shows "peers_ok now (forget p gid)"
proof -
  have "serves (forget p gid) k i" if "serves p k i" "i \<noteq> gid" for k i
    using that by (auto simp: serves_get forget_def forget_in_simps)
  then have "requests_ok (forget p gid)"
    using assms unfolding peers_ok_def requests_ok_def by (simp add: forget_def split: if_splits)
  then show ?thesis
    using assms by (auto simp: peers_ok_def forget_def forget_in_simps intro: bt_all_remove bt_all_update wf_intros)
qed

lemma drop_request_simps [simp]:
  "g_own (drop_request k g) = g_own g" "g_seen (drop_request k g) = g_seen g" "g_ok now (drop_request k g) = g_ok now g"
  "g_request (drop_request k g) = Some r \<longleftrightarrow> g_request g = Some r \<and> rq_holder r \<noteq> k"
  by (auto simp: drop_request_def g_ok_def split: option.split)


lemma disconnect_conns: "p_conns (disconnect p k now) = bt_remove k (p_conns p)" "p_changed (disconnect p k now) = p_changed p"
  by (simp_all add: disconnect_def)

lemma peers_ok_disconnect [wf_intros]:
  assumes "peers_ok now p" shows "peers_ok now (disconnect p k now)"
proof -
  have "requests_ok (disconnect p k now)"
  proof (rule requests_okI)
    show "requests_ok p" using assms by (simp add: peers_ok_def)
    fix gid g' r assume "bt_get (p_groups (disconnect p k now)) gid = Some g'" "g_request g' = Some r"
    then obtain g where "bt_get (p_groups p) gid = Some g" "g_request g = Some r" "rq_holder r \<noteq> k"
      by (auto simp: disconnect_def Let_def split: if_splits)
    then show "\<exists>g. bt_get (p_groups p) gid = Some g \<and> g_request g = Some r \<and>
        (serves p (rq_holder r) gid \<longrightarrow> serves (disconnect p k now) (rq_holder r) gid)"
      by (auto simp: serves_get disconnect_conns)
  qed
  moreover have "bt_all (\<lambda>_. g_ok now) (p_groups (disconnect p k now))"
  proof -
    have "g_ok now (let g = drop_request k g in if has_peer (g_own g) k then g\<lparr> g_seen := bt_insert k now (g_seen g) \<rparr> else g)"
      if "g_ok now g" for g
      using that drop_request_simps(3) [of now k g] by (auto simp: g_ok_def Let_def intro: bt_all_insert)
    then show ?thesis using assms by (auto simp: peers_ok_def disconnect_def intro!: bt_all_update)
  qed
  ultimately show ?thesis
    using assms by (auto simp: peers_ok_def disconnect_conns disconnect_def intro: bt_all_remove wf_intros)
qed

lemma peers_ok_connect [wf_intros]:
  assumes "peers_ok now p" shows "peers_ok now (connect p k served d now)"
proof -
  let ?p = "disconnect p k now"
  have ok: "peers_ok now ?p" using assms by (rule peers_ok_disconnect)
  define q where "q = (let p = ?p; p = (if p_conns p = [] then p\<lparr> p_online := now \<rparr> else p)
    in if served \<noteq> [] then get_or_insert now p else p)"
  have q: "p_groups q = p_groups ?p" "p_conns q = p_conns ?p" by (simp_all add: q_def Let_def)
  have "peers_ok now q"
  proof -
    have "peers_ok now (if p_conns ?p = [] then ?p\<lparr> p_online := now \<rparr> else ?p)" using ok by (auto intro: peers_ok_same)
    then show ?thesis unfolding q_def Let_def by (auto intro: wf_intros)
  qed
  moreover have "connect p k served d now =
      q\<lparr> p_backoff := bt_remove k (p_backoff q), p_conns := bt_insert k (new_conn served d now) (p_conns q) \<rparr>"
    by (simp add: connect_def q_def Let_def)
  moreover have "serves (q\<lparr> p_backoff := b, p_conns := bt_insert k (new_conn served d now) (p_conns q) \<rparr>) j gid"
    if "serves q j gid" for j gid b using that q(2) by (auto simp: serves_get disconnect_conns split: if_splits)
  ultimately show ?thesis
    by (auto simp: peers_ok_def requests_ok_def new_conn_def c_ok_def intro: bt_alls wf_intros)
qed

lemma restrict_to_simps [simp]: "c_served (restrict_to served c) = served" "c_ok now c \<Longrightarrow> c_ok now (restrict_to served c)"
  by (simp_all add: restrict_to_def c_ok_def bt_all_retain)

lemma peers_ok_set_served [wf_intros]:
  assumes "peers_ok now p" shows "peers_ok now (set_served p k served now)"
proof (cases "bt_get (p_conns p) k")
  case (Some c)
  define q where "q = (if filter (\<lambda>gid. gid \<notin> set (c_served c)) served = [] then p else get_or_insert now p)"
  have q: "peers_ok now q" "p_groups q = p_groups p" "p_conns q = p_conns p" using assms by (auto simp: q_def intro: wf_intros)
  obtain c' where c': "c_ok now c'" "c_served c' = served" "c_served c \<noteq> served \<Longrightarrow> set_served p k served now =
      q\<lparr> p_conns := bt_insert k c' (p_conns q),
         p_groups := bt_update (\<lambda>gid g. if gid \<in> set served then g else drop_request k g) (p_groups q) \<rparr>"
  proof
    let ?newly = "filter (\<lambda>gid. gid \<notin> set (c_served c)) served"
    let ?c = "if ?newly = [] then c else c\<lparr> c_hello := True, c_opened := bs_extend ?newly (c_opened c) \<rparr>"
    let ?d = "restrict_to served (if served = [] then ?c else ?c\<lparr> c_served_at := now \<rparr>)"
    show "c_ok now ?d" using peers_ok_conn [OF assms Some] by (intro restrict_to_simps(2)) (simp add: c_ok_def)
    show "c_served ?d = served" by simp
    show "set_served p k served now = q\<lparr> p_conns := bt_insert k ?d (p_conns q),
         p_groups := bt_update (\<lambda>gid g. if gid \<in> set served then g else drop_request k g) (p_groups q) \<rparr>"
      if "c_served c \<noteq> served" using Some that by (simp add: set_served_def q_def Let_def)
  qed
  let ?q = "q\<lparr> p_conns := bt_insert k c' (p_conns q),
      p_groups := bt_update (\<lambda>gid g. if gid \<in> set served then g else drop_request k g) (p_groups q) \<rparr>"
  have "requests_ok ?q"
  proof (rule requests_okI [of q])
    show "requests_ok q" using q(1) by (simp add: peers_ok_def)
    fix gid g' r assume r: "bt_get (p_groups ?q) gid = Some g'" "g_request g' = Some r"
    then obtain g where g: "bt_get (p_groups q) gid = Some g" "g' = (if gid \<in> set served then g else drop_request k g)" by auto
    then have "g_request g = Some r" "gid \<notin> set served \<Longrightarrow> rq_holder r \<noteq> k" using r(2) by (auto split: if_splits)
    then show "\<exists>g. bt_get (p_groups q) gid = Some g \<and> g_request g = Some r \<and> (serves q (rq_holder r) gid \<longrightarrow> serves ?q (rq_holder r) gid)"
      using g(1) c'(2) by (auto simp: serves_get)
  qed
  then have "peers_ok now ?q"
    using q(1) c'(1) by (auto simp: peers_ok_def intro: bt_all_insert bt_all_update wf_intros)
  then show ?thesis using c'(3) assms Some by (cases "c_served c = served") (auto simp: set_served_def)
qed (simp add: set_served_def assms)

lemma peers_ok_with_conn:
  "peers_ok now p \<Longrightarrow> (\<And>c. c_ok now c \<Longrightarrow> c_ok now (f c) \<and> c_served (f c) = c_served c) \<Longrightarrow> peers_ok now (with_conn p k f)"
  using peers_ok_conn [of now p k] by (auto simp: with_conn_def intro!: peers_ok_link split: option.split)

lemma peers_ok_behind [wf_intros]: "peers_ok now p \<Longrightarrow> peers_ok now (behind p k)"
  unfolding behind_def by (rule peers_ok_with_conn) (auto simp: c_ok_def)

lemma peers_ok_used [wf_intros]: "peers_ok now p \<Longrightarrow> peers_ok now (used p k now)"
  unfolding used_def by (rule peers_ok_with_conn) (auto simp: c_ok_def)

lemma peers_ok_dialed [wf_intros]: "peers_ok now p \<Longrightarrow> peers_ok now (dialed p k ok now)"
  by (erule peers_ok_same) (simp_all add: dialed_def Let_def)


section \<open>Frames and summaries\<close>

lemma latest_all:
  assumes "bt_all (\<lambda>k at. Q k \<and> at \<le> now) m" "\<forall>e\<in>set es. Q (fst e) \<and> snd e \<le> now"
  shows "bt_all (\<lambda>k at. Q k \<and> at \<le> (now :: nat)) (foldl (\<lambda>m e. bt_entry 0 (fst e) (\<lambda>at. max at (snd e)) m) m es)"
  using assms
proof (induction es arbitrary: m)
  case (Cons e es)
  have "Q (fst e) \<and> bt_or 0 m (fst e) \<le> now" using Cons.prems by (intro bt_all_or [of "\<lambda>k at. Q k \<and> at \<le> now"]) auto
  then have "bt_all (\<lambda>k at. Q k \<and> at \<le> now) (bt_entry 0 (fst e) (\<lambda>at. max at (snd e)) m)"
    using Cons.prems by (intro bt_all_entry) auto
  then show ?case using Cons.IH Cons.prems(2) by simp
qed simp

lemma peers_ok_saw [wf_intros]:
  assumes "peers_ok now p" shows "peers_ok now (saw p k gid seen now)"
proof (cases "bt_get (p_groups p) gid")
  case (Some g)
  show ?thesis
  proof (cases "bt_get (p_conns p) k")
    case conn: (Some c)
    define sight where "sight = map (\<lambda>e. (fst e, now - snd e)) (filter (\<lambda>e. length (fst e) = 32 \<and> has_peer (g_own g) (fst e)) seen)"
    define latest :: "(peer_key, nat) btree \<Rightarrow> (peer_key \<times> nat) list \<Rightarrow> (peer_key, nat) btree" where "latest = foldl (\<lambda>m e. bt_entry 0 (fst e) (\<lambda>at. max at (snd e)) m)"
    define c' where "c' = c\<lparr> c_told := bt_entry [] gid (\<lambda>told. latest told sight) (c_told c) \<rparr>"
    define g' where "g' = g\<lparr> g_seen := latest (g_seen g) sight \<rparr>"
    have "bt_all (\<lambda>k at. has_peer (g_own g) k \<and> at \<le> now) (g_seen g')"
      using peers_ok_get [OF assms Some] unfolding g'_def latest_def
      by (auto simp: g_ok_def sight_def intro!: latest_all)
    then have g': "g_ok now g'" "g_request g' = g_request g" using peers_ok_get [OF assms Some] by (auto simp: g_ok_def g'_def)
    have c: "peers_ok now (p\<lparr> p_conns := bt_insert k c' (p_conns p) \<rparr>)"
      using peers_ok_conn [OF assms conn] by (intro peers_ok_link [OF assms conn]) (auto simp: c'_def c_ok_def)
    have "peers_ok now (p\<lparr> p_conns := bt_insert k c' (p_conns p), p_groups := bt_insert gid g' (p_groups p) \<rparr>)"
      using peers_ok_group [OF c g'(1), of gid] request_served [OF c, of gid g] Some g'(2) by simp
    then show ?thesis
      using Some conn unfolding saw_def Let_def
      by (simp add: sight_def [symmetric] latest_def [symmetric] c'_def [symmetric] g'_def [symmetric] wf_intros)
  qed (simp add: saw_def Some assms)
qed (simp add: saw_def assms)

lemma peers_ok_heard_at [wf_intros]: "peers_ok now p \<Longrightarrow> peers_ok now (heard_at k now p at)"
  unfolding heard_at_def Let_def
  by (auto simp: c_ok_def intro!: peers_ok_with_conn wf_intros split: option.split)

lemma heard_log_simps: "c_served (heard_log at c) = c_served c" "c_ok now (heard_log at c) = c_ok now c"
  by (simp_all add: heard_log_def c_ok_def)

lemma g_ok_strike: "g_ok now g \<Longrightarrow> g_ok now (g\<lparr> g_request := x, g_struck := strike k cov (g_struck g) \<rparr>)" "g_ok now g \<Longrightarrow> g_ok now (g\<lparr> g_request := x \<rparr>)"
  by (simp_all add: g_ok_def wf_strike)

lemma take_answer_ok:
  "g_ok now g \<Longrightarrow> g_ok now (take_answer k items answers g)" "g_request (take_answer k items answers g) = Some r \<Longrightarrow> g_request g = Some r"
  by (auto simp: take_answer_def Let_def g_ok_strike split: option.splits if_splits)

lemma used_groups [simp]: "p_groups (used p k now) = p_groups p" "p_changed (used p k now) = p_changed p" "p_dialing (used p k now) = p_dialing p"
  by (simp_all add: used_def with_conn_def split: option.split)

lemma heard_all:
  "peers_ok now p \<Longrightarrow> peers_ok now (foldl (heard_at k now) p ats)"
  by (induction ats arbitrary: p) (auto intro: wf_intros)

lemma peers_ok_take_frame [wf_intros]:
  assumes "peers_ok now p" shows "peers_ok now (take_frame p k f now)"
proof (cases "bt_get (p_conns p) k")
  case (Some c)
  show ?thesis
  proof (cases f)
    case (Hello ats)
    have "c_served (foldl (\<lambda>c at. heard_log at c) c ats) = c_served c \<and> (c_ok now c \<longrightarrow> c_ok now (foldl (\<lambda>c at. heard_log at c) c ats))"
      by (induction ats arbitrary: c) (simp_all add: heard_log_simps)
    then have "peers_ok now (p\<lparr> p_conns := bt_insert k (foldl (\<lambda>c at. heard_log at c) c ats) (p_conns p) \<rparr>)"
      using peers_ok_link [OF assms Some] peers_ok_conn [OF assms Some] by blast
    then show ?thesis using Hello Some by (simp add: take_frame_def heard_all)
  next
    case (HeldFrame gid items answers)
    have u: "peers_ok now (used p k now)" using assms by (rule wf_intros)
    have "peers_ok now ((used p k now)\<lparr> p_groups := bt_insert gid (take_answer k items as g) (p_groups (used p k now)) \<rparr>)"
      if g: "bt_get (p_groups (used p k now)) gid = Some g" for as g
      by (rule peers_ok_group [OF u take_answer_ok(1) [OF peers_ok_get [OF u g]]])
        (erule request_served [OF u g take_answer_ok(2)])
    then show ?thesis
      using HeldFrame Some assms u by (cases answers; cases "bt_get (p_groups p) gid") (simp_all add: take_frame_def)
  next
    case (Have gid held)
    then show ?thesis
      using Some assms peers_ok_conn [OF assms Some] bt_all_or [of "\<lambda>_. wf_set" "c_has c" gid "[]"]
      by (auto simp: take_frame_def c_ok_def intro!: peers_ok_link [OF assms Some] bt_all_entry)
  qed (use Some assms in \<open>auto simp: take_frame_def intro: wf_intros\<close>)
qed (simp add: take_frame_def assms)

lemma peers_ok_links:
  assumes "peers_ok now p" "\<And>k c. c_served (f k c) = c_served c" "\<And>k c. c_ok now c \<Longrightarrow> c_ok now (f k c)"
  shows "peers_ok now (p\<lparr> p_conns := bt_update f (p_conns p) \<rparr>)"
proof -
  have "serves (p\<lparr> p_conns := bt_update f (p_conns p) \<rparr>) = serves p"
    using assms(2) by (auto simp: serves_def fun_eq_iff split: option.split)
  then show ?thesis using assms(1,3) by (auto simp: peers_ok_def requests_ok_def intro: bt_all_update wf_intros)
qed

lemma peers_ok_take_summary [wf_intros]:
  assumes "peers_ok now p" shows "peers_ok now (snd (take_summary p gid h own))"
proof (cases "bt_get (p_groups p) gid")
  case (Some g)
  let ?m = "(su_member (hs_summary h), su_joined (hs_summary h))"
  let ?p = "p\<lparr> p_groups := bt_insert gid (g\<lparr> g_heard := bt_insert ?m h (g_heard g) \<rparr>) (p_groups p) \<rparr>"
  have ok: "peers_ok now ?p" if "is_member (g_own g) ?m"
    using that peers_ok_get [OF assms Some] request_served [OF assms Some]
    by (intro peers_ok_group [OF assms]) (auto simp: g_ok_def hs_member_def intro: bt_all_insert)
  have "peers_ok now (?p\<lparr> p_conns := bt_update (\<lambda>_ c. if gid \<in> set (c_served c) then c\<lparr> c_opened := bs_insert gid (c_opened c) \<rparr> else c) (p_conns p) \<rparr>)"
    if "is_member (g_own g) ?m"
    using peers_ok_links [OF ok [OF that], of "\<lambda>_ c. if gid \<in> set (c_served c) then c\<lparr> c_opened := bs_insert gid (c_opened c) \<rparr> else c"]
    by (simp add: c_ok_def)
  then show ?thesis using Some assms ok by (simp add: take_summary_def Let_def)
qed (simp add: take_summary_def assms)

lemma peers_ok_wait [wf_intros]:
  assumes "peers_ok now p" "wait p gid lacking read now = Some (b, p')" shows "peers_ok now p'"
proof -
  obtain g where g: "bt_get (p_groups p) gid = Some g" using assms(2) by (auto simp: wait_def split: option.splits)
  obtain w where w: "p' = p\<lparr> p_groups := bt_insert gid (g\<lparr> g_waiting := w \<rparr>) (p_groups p) \<rparr>" "wf_set w"
    using assms(2) g by (auto simp: wait_def Let_def split: if_splits)
  then show ?thesis using peers_ok_get [OF assms(1) g] request_served [OF assms(1) g]
    by (auto simp: g_ok_def intro!: peers_ok_group [OF assms(1)])
qed


section \<open>Polling\<close>

lemma peers_ok_groups:
  assumes "peers_ok now p" "\<And>gid g. g_ok now g \<Longrightarrow> g_ok now (f gid g)" "\<And>gid g r. g_request (f gid g) = Some r \<Longrightarrow> g_request g = Some r"
  shows "peers_ok now (p\<lparr> p_groups := bt_update f (p_groups p) \<rparr>)"
proof -
  have "serves p (rq_holder r) gid" if up: "bt_get (bt_update f (p_groups p)) gid = Some g'" "g_request g' = Some r" for gid g' r
  proof -
    obtain g where "bt_get (p_groups p) gid = Some g" "g' = f gid g" using up(1) by auto
    then show ?thesis using up(2) request_served [OF assms(1) _ assms(3)] by blast
  qed
  then show ?thesis using assms(1,2) by (auto simp: peers_ok_def requests_ok_def intro: bt_all_update wf_intros)
qed

lemma time_out_ok: "g_ok now' g \<Longrightarrow> g_ok now' (time_out now g)" "g_request (time_out now g) = Some r \<Longrightarrow> g_request g = Some r"
  by (auto simp: time_out_def Let_def g_ok_strike split: option.splits if_splits)

lemma peers_ok_timeouts [wf_intros]: "peers_ok now p \<Longrightarrow> peers_ok now (timeouts p now)"
  unfolding timeouts_def by (rule peers_ok_groups) (erule time_out_ok(1) time_out_ok(2) | assumption)+

definition same_link :: "conn \<Rightarrow> conn \<Rightarrow> bool" where
  "same_link c c' \<longleftrightarrow> c_served c' = c_served c \<and> c_served_at c' = c_served_at c \<and> c_active c' = c_active c \<and> c_dialed c' = c_dialed c \<and>
     c_has c' = c_has c"

lemma same_link_trans [trans]: "same_link a b \<Longrightarrow> same_link b c \<Longrightarrow> same_link a c"
  by (simp add: same_link_def)

lemma same_link_simps [simp]:
  "same_link c c" "same_link (c\<lparr> c_theirs := t \<rparr>) d = same_link c d" "same_link (c\<lparr> c_sent := s \<rparr>) d = same_link c d"
  "same_link (c\<lparr> c_opened := o' \<rparr>) d = same_link c d" "same_link (c\<lparr> c_hello := b \<rparr>) d = same_link c d"
  by (simp_all add: same_link_def)

lemma send_entries_link: "same_link c (snd (send_entries k hs c))"
proof (induction hs arbitrary: c)
  case (Cons h hs)
  show ?case
    using Cons [of c] Cons [of "c\<lparr> c_theirs := bt_insert (h_log_ref h) (h_length h) (c_theirs c) \<rparr>"]
    by (cases "bt_get (c_theirs c) (h_log_ref h)") (simp_all add: case_prod_unfold Let_def)
qed simp

lemma hello_ats_link: "same_link c (snd (hello_ats p now k es c))"
proof (induction es arbitrary: c)
  case (Cons e es)
  have "same_link c (snd (hello_at now k (sightings p (fst e) (snd e) now) (fst e) (snd e) c))"
    by (simp add: hello_at_def same_link_def Let_def case_prod_unfold)
  then show ?case using Cons same_link_trans by (simp add: case_prod_unfold Let_def)
qed simp

lemma hello_conn_link: "same_link c (snd (hello_conn p due now k c))"
proof -
  obtain outs c1 where s: "send_entries k (heads_of (served_groups p c)) c = (outs, c1)" by fastforce
  have "same_link c c1" using send_entries_link [of c k "heads_of (served_groups p c)"] s by simp
  moreover have "same_link (c1\<lparr> c_hello := False \<rparr>) (snd (hello_ats p now k (served_groups p c) (c1\<lparr> c_hello := False \<rparr>)))"
    by (rule hello_ats_link)
  ultimately show ?thesis using s
    by (simp add: hello_conn_def Let_def case_prod_unfold) (simp add: same_link_def)
qed

lemma sync_groups_link: "same_link c (snd (sync_groups p k gids c))"
proof (induction gids arbitrary: c)
  case (Cons gid gids)
  let ?h = "case bt_get (p_groups p) gid of None \<Rightarrow> None | Some g \<Rightarrow> bt_get (g_heard g) (o_me (g_own g))"
  have "same_link c (snd (sync_groups p k gids (c\<lparr> c_sent := t \<rparr>)))" for t using Cons [of "c\<lparr> c_sent := t \<rparr>"] by simp
  then show ?case using Cons [of c] by (cases ?h) (simp_all add: case_prod_unfold Let_def)
qed simp

lemma peers_ok_walk:
  assumes "peers_ok now p" "\<And>k c. same_link c (snd (f k c))" "ch = p_changed p \<or> ch = None"
  shows "peers_ok now (p\<lparr> p_conns := snd (bt_walk f (p_conns p)), p_changed := ch \<rparr>)"
proof -
  have "bt_get (snd (bt_walk f (p_conns p))) k = map_option (\<lambda>c. snd (f k c)) (bt_get (p_conns p) k)" for k by simp
  then have "serves (p\<lparr> p_conns := snd (bt_walk f (p_conns p)), p_changed := ch \<rparr>) = serves p"
    using assms(2) by (auto simp: serves_def fun_eq_iff same_link_def split: option.split)
  moreover have "c_ok now (snd (f k c))" if "c_ok now c" for k c using that assms(2) [of c k] by (simp add: c_ok_def same_link_def)
  ultimately show ?thesis using assms(1,3) by (auto simp: peers_ok_def requests_ok_def intro: bt_all_walk wf_intros)
qed

lemma peers_ok_hellos [wf_intros]: "peers_ok now p \<Longrightarrow> peers_ok now (snd (hellos p now))"
  using peers_ok_walk [of now p "hello_conn p due now" for due] hello_conn_link
  by (simp add: hellos_def Let_def case_prod_unfold)

lemma peers_ok_sync [wf_intros]: "peers_ok now p \<Longrightarrow> peers_ok now (snd (sync p))"
proof -
  have "same_link c (snd (sync_groups p k (c_opened c) (c\<lparr> c_opened := [] \<rparr>)))" for k c
    using sync_groups_link [of "c\<lparr> c_opened := [] \<rparr>" p k "c_opened c"] by (simp add: same_link_def)
  moreover assume "peers_ok now p"
  ultimately have "peers_ok now (p\<lparr> p_conns := snd (bt_walk (\<lambda>k c. sync_groups p k (c_opened c) (c\<lparr> c_opened := [] \<rparr>)) (p_conns p)),
      p_changed := p_changed p \<rparr>)" by (intro peers_ok_walk) auto
  then show ?thesis by (simp add: sync_def Let_def case_prod_unfold)
qed

lemma peers_ok_dialing: "peers_ok now p \<Longrightarrow> peers_ok now (p\<lparr> p_dialing := d \<rparr>)" "peers_ok now p \<Longrightarrow> peers_ok now (p\<lparr> p_dialing := d, p_dial := e \<rparr>)"
  "peers_ok now p \<Longrightarrow> peers_ok now (p\<lparr> p_dial := e \<rparr>)"
  by (auto elim: peers_ok_same)

lemma peers_ok_repair_group: "peers_ok now p \<Longrightarrow> peers_ok now (snd (repair_group now p gid))"
proof -
  assume p: "peers_ok now p"
  show ?thesis
  proof (cases "bt_get (p_groups p) gid")
    case (Some g)
    obtain outs d where d: "dial_each g (waiting_holders p gid g now @ pick_dial now p gid g) (p_dialing p) = (outs, d)" by fastforce
    let ?p = "p\<lparr> p_dialing := d \<rparr>"
    show ?thesis
    proof (cases "pick_request p gid g")
      case None
      then show ?thesis using Some d p by (simp add: repair_group_def peers_ok_dialing)
    next
      case (Some h)
      then have "serves p (fst h) gid" by (auto simp: pick_request_def split: if_splits dest: min_by_in)
      moreover have u: "peers_ok now (used ?p (fst h) now)" using p by (intro peers_ok_used peers_ok_dialing)
      moreover obtain want p' where ask: "ask now ?p gid g (fst h) (snd h) = (want, p')" by fastforce
      moreover have "g_ok now g" using peers_ok_get [OF p \<open>bt_get _ _ = _\<close>] .
      moreover have "serves (used ?p (fst h) now) = serves p"
        by (auto simp: serves_def used_def with_conn_def fun_eq_iff split: option.split)
      ultimately obtain r where "g_ok now (g\<lparr> g_request := Some r \<rparr>)" "rq_holder r = fst h"
        "p' = (used ?p (fst h) now)\<lparr> p_groups := bt_insert gid (g\<lparr> g_request := Some r \<rparr>) (p_groups (used ?p (fst h) now)) \<rparr>"
        "serves (used ?p (fst h) now) (rq_holder r) gid"
        using ask_spec [OF ask] g_ok_strike(2) by metis
      then have "peers_ok now p'" using peers_ok_group [OF u, of "g\<lparr> g_request := Some r \<rparr>" gid] by simp
      then show ?thesis using Some \<open>bt_get _ _ = _\<close> d ask by (simp add: repair_group_def)
    qed
  qed (simp add: repair_group_def p)
qed

lemma peers_ok_repair [wf_intros]: "peers_ok now p \<Longrightarrow> peers_ok now (snd (repair p now))"
proof -
  have "peers_ok now p \<Longrightarrow> peers_ok now (snd (repair_groups now gids p))" for gids p
    by (induction gids arbitrary: p) (simp_all add: peers_ok_repair_group case_prod_unfold Let_def)
  then show "peers_ok now p \<Longrightarrow> ?thesis" by (simp add: repair_def)
qed

lemma peers_ok_dials [wf_intros]: "peers_ok now p \<Longrightarrow> peers_ok now (snd (dials C p now))"
proof -
  have "peers_ok now p \<Longrightarrow> peers_ok now (snd (dial_groups C now' gids p))" for gids p now'
  proof (induction gids arbitrary: p)
    case (Cons gid gids)
    then show ?case by (cases "bt_get (p_groups p) gid") (simp_all add: Let_def peers_ok_dialing case_prod_unfold)
  qed simp
  then show "peers_ok now p \<Longrightarrow> ?thesis" by (simp add: dials_def peers_ok_dialing)
qed

lemma peers_ok_closes [wf_intros]: "peers_ok now p \<Longrightarrow> peers_ok now (snd (closes C p now))"
proof -
  have "peers_ok now p \<Longrightarrow> peers_ok now (close_all ks now p)" for ks p
    by (induction ks arbitrary: p) (simp_all add: peers_ok_disconnect)
  then show "peers_ok now p \<Longrightarrow> ?thesis" by (simp add: closes_def Let_def)
qed

lemma peers_ok_poll [wf_intros]: "peers_ok now p \<Longrightarrow> peers_ok now (snd (poll C p now))"
  unfolding poll_def Let_def case_prod_unfold by (simp add: wf_intros)


section \<open>Runs\<close>

text \<open>Every call of the node, at its time.\<close>

inductive peers_step :: "crypto \<Rightarrow> nat \<Rightarrow> peers \<Rightarrow> peers \<Rightarrow> bool" for C now where
  Group: "peers_step C now p (set_group p gid own now)"
| Push: "peers_step C now p (push_group p gid)"
| Forget: "peers_step C now p (forget p gid)"
| Connect: "peers_step C now p (connect p k served d now)"
| Disconnect: "peers_step C now p (disconnect p k now)"
| Served: "peers_step C now p (set_served p k served now)"
| Behind: "peers_step C now p (behind p k)"
| Used: "peers_step C now p (used p k now)"
| Dialed: "peers_step C now p (dialed p k ok now)"
| Frame: "peers_step C now p (take_frame p k f now)"
| Summary: "take_summary p gid h own = (kept, p') \<Longrightarrow> peers_step C now p p'"
| Wait: "wait p gid lacking read now = Some (b, p') \<Longrightarrow> peers_step C now p p'"
| Poll: "poll C p now = (outs, p') \<Longrightarrow> peers_step C now p p'"

inductive peers_run :: "crypto \<Rightarrow> nat \<Rightarrow> peers \<Rightarrow> bool" for C where
  New: "peers_run C now (peers_new now me)"
| Step: "peers_run C t p \<Longrightarrow> t \<le> now \<Longrightarrow> peers_step C now p p' \<Longrightarrow> peers_run C now p'"

inductive_cases peers_stepE: "peers_step C now p p'"

lemma peers_step_ok: "peers_step C now p p' \<Longrightarrow> peers_ok now p \<Longrightarrow> peers_ok now p'"
proof (induction rule: peers_step.induct)
  case (Summary p gid h own kept p')
  then show ?case using peers_ok_take_summary [of now p gid h own] by simp
next
  case (Poll p outs p')
  then show ?case using peers_ok_poll [of now p C] by simp
qed (auto intro: wf_intros)

lemma peers_run_ok: "peers_run C now p \<Longrightarrow> peers_ok now p"
proof (induction rule: peers_run.induct)
  case (Step t p now p')
  then show ?case using peers_step_ok peers_ok_mono by blast
qed (rule peers_ok_new)



end
