(* ===== verification/Peers_Poll.thy ===== *)
theory Peers_Poll
  imports Peers_Inv
begin

text \<open>
  What a poll dials and closes, and how long a commit waits: no peer is dialed that is connected, being
  dialed or backing off; at most 128 connections stay beyond those targeted, and a targeted peer that is
  served a group is never closed; a wait ends within two minutes, and after 15 seconds holds only while a
  holder is left to ask.
\<close>

section \<open>Closing\<close>

lemma close_more_spec:
  assumes "set close \<subseteq> fst ` set conns" "distinct close" "distinct (map fst conns)"
  shows "\<exists>more. close_more conns t close = close @ more \<and> set more \<subseteq> fst ` set conns - set t \<and> distinct (close @ more) \<and>
    (length conns - length (close @ more) \<le> MAX_CONNECTIONS \<or> fst ` set conns \<subseteq> set t \<union> set (close @ more))"
  using assms
proof (induction conns t close rule: close_more.induct)
  case (1 conns t close)
  let ?left = "filter (\<lambda>e. fst e \<notin> set t \<and> fst e \<notin> set close) conns"
  show ?case
  proof (cases "length conns - length close > MAX_CONNECTIONS \<and> ?left \<noteq> []")
    case True
    then obtain e where e: "min_by (\<lambda>e. c_active (snd e)) ?left = Some e" by (cases "min_by (\<lambda>e. c_active (snd e)) ?left") auto
    then have in_left: "e \<in> set conns" "fst e \<notin> set t" "fst e \<notin> set close" using min_by_in [OF e] by auto
    have "\<exists>more. close_more conns t (close @ [fst e]) = (close @ [fst e]) @ more \<and> set more \<subseteq> fst ` set conns - set t \<and>
        distinct ((close @ [fst e]) @ more) \<and> (length conns - length ((close @ [fst e]) @ more) \<le> MAX_CONNECTIONS \<or>
          fst ` set conns \<subseteq> set t \<union> set ((close @ [fst e]) @ more))"
      using 1(1) [OF conjunct1 [OF True] e] 1(2-4) in_left by auto
    then obtain more where "close_more conns t (close @ [fst e]) = (close @ [fst e]) @ more" "set more \<subseteq> fst ` set conns - set t"
      "distinct ((close @ [fst e]) @ more)" "length conns - length ((close @ [fst e]) @ more) \<le> MAX_CONNECTIONS \<or>
          fst ` set conns \<subseteq> set t \<union> set ((close @ [fst e]) @ more)" by blast
    then show ?thesis using True e in_left by (intro exI [of _ "fst e # more"]) (auto simp: close_more.simps [of conns t close])
  next
    case False
    then have "close_more conns t close = close" by (auto simp: close_more.simps [of conns t close])
    moreover have "fst ` set conns \<subseteq> set t \<union> set close" if "?left = []" using that by (auto simp: filter_empty_conv)
    ultimately show ?thesis using False 1(3) by (intro exI [of _ "[]"]) auto
  qed
qed

lemma close_all_conns: "p_conns (close_all ks now p) = filter (\<lambda>e. fst e \<notin> set ks) (p_conns p)"
  by (induction ks arbitrary: p) (auto simp: disconnect_conns bt_remove_def intro: filter_cong)

text \<open>
  C37. Closing connections is bounded and spares the peers a group targets. The peers closed are connected
  ones, each once, and no longer connected after; either at most 128 connections are left, or all that are
  left are targeted; and a connection that serves some group, to a targeted peer, is never closed.
\<close>

theorem closes_bounded_and_safe:
  assumes "bt_wf (p_conns p)" and "closes C p now = (outs, p')"
  shows "\<exists>ks. outs = map Close ks \<and> distinct ks \<and> set ks \<subseteq> fst ` set (p_conns p) \<and>
    p_conns p' = filter (\<lambda>e. fst e \<notin> set ks) (p_conns p) \<and>
    (length (p_conns p') \<le> MAX_CONNECTIONS \<or> fst ` set (p_conns p') \<subseteq> set (targeted C p now)) \<and>
    (\<forall>k c. bt_get (p_conns p) k = Some c \<longrightarrow> c_served c \<noteq> [] \<longrightarrow> k \<in> set (targeted C p now) \<longrightarrow> k \<notin> set ks)"
proof -
  let ?t = "targeted C p now" and ?due = "close_due p (targeted C p now) now"
  have d: "distinct (map fst (p_conns p))" using assms(1) by (rule bt_wf_distinct)
  have due: "set ?due \<subseteq> fst ` set (p_conns p)" "distinct ?due"
    using d by (auto simp: close_due_def distinct_map_filter)
  from close_more_spec [OF due d, of ?t] obtain more where more:
    "close_more (p_conns p) ?t ?due = ?due @ more" "set more \<subseteq> fst ` set (p_conns p) - set ?t" "distinct (?due @ more)"
    "length (p_conns p) - length (?due @ more) \<le> MAX_CONNECTIONS \<or> fst ` set (p_conns p) \<subseteq> set ?t \<union> set (?due @ more)" by blast
  let ?ks = "?due @ more"
  have run: "outs = map Close ?ks" "p_conns p' = filter (\<lambda>e. fst e \<notin> set ?ks) (p_conns p)"
    using assms(2) more(1) by (auto simp: closes_def Let_def close_all_conns)
  have "length (p_conns p') = length (p_conns p) - length ?ks"
  proof -
    have eq: "length (p_conns p') = card (fst ` set (p_conns p'))" "length (p_conns p) = card (fst ` set (p_conns p))"
      using d distinct_card [of "map fst (p_conns p)"] distinct_card [of "map fst (p_conns p')"] run(2) by (simp_all add: distinct_map_filter)
    have "fst ` set (p_conns p') = fst ` set (p_conns p) - set ?ks" using run(2) by auto
    moreover have "set ?ks \<subseteq> fst ` set (p_conns p)" using due(1) more(2) by auto
    ultimately show ?thesis using eq card_Diff_subset [of "set ?ks"] distinct_card [OF more(3)] by simp
  qed
  moreover have "k \<notin> set ?ks" if "bt_get (p_conns p) k = Some c" "c_served c \<noteq> []" "k \<in> set ?t" for k c
  proof -
    have "c' = c" if "(k, c') \<in> set (p_conns p)" for c' using that \<open>bt_get _ _ = _\<close> by (simp add: bt_in_get [OF assms(1)])
    then show ?thesis using that more(2) by (auto simp: close_due_def)
  qed
  ultimately show ?thesis using run more due(1) by (intro exI [of _ ?ks]) auto
qed

theorem closes_bounded_and_safe_witness:
  "length (p_conns (snd (closes toy_crypto toy_peers 400000))) \<le> MAX_CONNECTIONS \<or>
   fst ` set (p_conns (snd (closes toy_crypto toy_peers 400000))) \<subseteq> set (targeted toy_crypto toy_peers 400000)"
proof -
  have "bt_wf (p_conns toy_peers)" by (simp add: toy_peers_def bt_wf_def)
  from closes_bounded_and_safe [OF this surjective_pairing, of toy_crypto 400000] show ?thesis by blast
qed


section \<open>Dialing\<close>

text \<open>What a dial depends on, and no step of a poll before the closes changes.\<close>

definition view :: "peers \<Rightarrow> (peer_key \<Rightarrow> bool) \<times> (peer_key, backoff) btree \<times> (bytes \<Rightarrow> own option)" where
  "view p = (is_connected p, p_backoff p, \<lambda>gid. map_option g_own (bt_get (p_groups p) gid))"

definition dialable :: "peers \<Rightarrow> nat \<Rightarrow> peer_key \<Rightarrow> bool" where
  "dialable p now k \<longleftrightarrow> \<not> is_connected p k \<and> k \<notin> set (p_dialing p) \<and> \<not> backing p k now \<and>
     (\<exists>gid g. bt_get (p_groups p) gid = Some g \<and> has_peer (g_own g) k)"

definition dials_ok :: "peers \<Rightarrow> nat \<Rightarrow> out list \<Rightarrow> peers \<Rightarrow> bool" where
  "dials_ok p now outs p' \<longleftrightarrow> view p' = view p \<and> set (p_dialing p) \<subseteq> set (p_dialing p') \<and>
     (\<forall>k. Dial k \<in> set outs \<longrightarrow> dialable p now k \<and> k \<in> set (p_dialing p'))"

lemma dialable_view: "view p' = view p \<Longrightarrow> set (p_dialing p) \<subseteq> set (p_dialing p') \<Longrightarrow> dialable p' now k \<Longrightarrow> dialable p now k"
proof -
  assume v: "view p' = view p" and s: "set (p_dialing p) \<subseteq> set (p_dialing p')" and d: "dialable p' now k"
  obtain gid g where g: "bt_get (p_groups p') gid = Some g" "has_peer (g_own g) k" using d by (auto simp: dialable_def)
  have "(\<lambda>gid. map_option g_own (bt_get (p_groups p') gid)) = (\<lambda>gid. map_option g_own (bt_get (p_groups p) gid))"
    using v by (simp add: view_def)
  from fun_cong [OF this, of gid] have "map_option g_own (bt_get (p_groups p) gid) = Some (g_own g)" using g(1) by simp
  then obtain g' where "bt_get (p_groups p) gid = Some g'" "g_own g' = g_own g" by auto
  then have "\<exists>gid g. bt_get (p_groups p) gid = Some g \<and> has_peer (g_own g) k" using g(2) by metis
  then show ?thesis using v s d by (auto simp: dialable_def view_def backing_def)
qed

lemma dials_ok_refl: "(\<forall>k. Dial k \<notin> set outs) \<Longrightarrow> view p' = view p \<Longrightarrow> p_dialing p' = p_dialing p \<Longrightarrow> dials_ok p now outs p'"
  by (simp add: dials_ok_def)

lemma dials_ok_trans: "dials_ok p now outs p1 \<Longrightarrow> dials_ok p1 now outs' p2 \<Longrightarrow> dials_ok p now (outs @ outs') p2"
  unfolding dials_ok_def by (auto intro: dialable_view)

lemma view_walk: "view (p\<lparr> p_conns := snd (bt_walk f (p_conns p)), p_changed := ch \<rparr>) = view p"
  by (simp add: view_def is_connected_def fun_eq_iff)

lemma view_dialing [simp]: "view (p\<lparr> p_dialing := d \<rparr>) = view p" "view (p\<lparr> p_dialing := d, p_dial := e \<rparr>) = view p"
  by (simp_all add: view_def is_connected_def fun_eq_iff)

lemma view_timeouts: "view (timeouts p now) = view p"
proof -
  have "g_own (time_out now g) = g_own g" for g by (auto simp: time_out_def Let_def split: option.split)
  then have "map_option g_own (map_option (time_out now) x) = map_option g_own x" for x by (cases x) auto
  then show ?thesis by (simp add: view_def timeouts_def is_connected_def fun_eq_iff)
qed

lemma no_dials:
  "Dial k' \<notin> set (fst (send_entries k hs c))" "Dial k' \<notin> set (fst (sync_groups p k gids c))" "Dial k' \<notin> set (fst (hello_conn p due now k c))"
proof -
  show 1: "Dial k' \<notin> set (fst (send_entries k hs c))" for hs c
    by (induction hs arbitrary: c) (auto simp: case_prod_unfold Let_def split: option.split)
  show "Dial k' \<notin> set (fst (sync_groups p k gids c))"
  proof (induction gids arbitrary: c)
    case (Cons gid gids)
    then show ?case
      by (cases "case bt_get (p_groups p) gid of None \<Rightarrow> None | Some g \<Rightarrow> bt_get (g_heard g) (o_me (g_own g))")
        (simp_all add: case_prod_unfold Let_def)
  qed simp
  show "Dial k' \<notin> set (fst (hello_conn p due now k c))"
    using 1 by (simp add: hello_conn_def case_prod_unfold Let_def)
qed

lemma hellos_dials: "dials_ok p now (fst (hellos p now)) (snd (hellos p now))"
  by (rule dials_ok_refl) (auto simp: hellos_def case_prod_unfold Let_def set_bt_walk no_dials view_walk)

lemma sync_dials: "dials_ok p now (fst (sync p)) (snd (sync p))"
proof (rule dials_ok_refl)
  show "view (snd (sync p)) = view p"
    using view_walk [where p = p and f = "\<lambda>k c. sync_groups p k (c_opened c) (c\<lparr> c_opened := [] \<rparr>)" and ch = "p_changed p"] by (simp add: sync_def case_prod_unfold Let_def)
qed (auto simp: sync_def case_prod_unfold Let_def set_bt_walk no_dials)

lemma dial_each_spec:
  "dial_each g ks d = (outs, d') \<Longrightarrow> set d \<subseteq> set d' \<and> (\<forall>k. Dial k \<in> set outs \<longrightarrow> k \<in> set ks \<and> k \<notin> set d \<and> k \<in> set d')"
proof (induction ks arbitrary: d outs d')
  case (Cons k ks)
  show ?case
  proof (cases "flight d g \<ge> DIALS \<or> k \<in> set d")
    case True
    then show ?thesis using Cons by (auto split: if_splits)
  next
    case False
    obtain o1 d1 where r: "dial_each g ks (bs_insert k d) = (o1, d1)" by fastforce
    then show ?thesis using Cons.IH [OF r] Cons.prems False by auto
  qed
qed simp

lemma dial_targets_spec:
  "dial_targets g ks d = (b, outs, d') \<Longrightarrow> set d \<subseteq> set d' \<and> (\<forall>k. Dial k \<in> set outs \<longrightarrow> k \<in> set ks \<and> k \<in> set d')"
proof (induction ks arbitrary: d outs d' b)
  case (Cons k ks)
  obtain b1 o1 d1 where r: "dial_targets g ks (bs_insert k d) = (b1, o1, d1)" by (metis prod_cases3)
  then show ?case using Cons.IH [OF r] Cons.prems by (auto split: if_splits)
qed simp

lemma holds_member: "h \<in> set (offers p gid g) \<Longrightarrow> has_peer (g_own g) (fst h)"
  "k \<in> set (waiting_holders p gid g now) \<Longrightarrow> has_peer (g_own g) k \<and> reachable_peer p now k"
  using holds_wf [of _ p gid g]
  by (auto simp: offers_def Let_def waiting_holders_def List.map_filter_def split: option.splits)

lemma pick_dial_member: "k \<in> set (pick_dial now p gid g) \<Longrightarrow> has_peer (g_own g) k \<and> reachable_peer p now k"
proof -
  let ?pick = "min_by (\<lambda>h. (lowest (snd h), fst h)) (filter (\<lambda>h. reachable_peer p now (fst h)) (offers p gid g))"
  assume k: "k \<in> set (pick_dial now p gid g)"
  have "pick_dial now p gid g = [] \<or> pick_dial now p gid g = (case ?pick of None \<Rightarrow> [] | Some h \<Rightarrow> [fst h])"
    unfolding pick_dial_def by presburger
  then obtain h where h: "?pick = Some h" "k = fst h" using k by (cases ?pick) auto
  show ?thesis using min_by_in [OF h(1)] h(2) holds_member(1) [of h p gid g] by simp
qed

lemma repair_group_dials: "dials_ok p now (fst (repair_group now p gid)) (snd (repair_group now p gid))"
proof (cases "bt_get (p_groups p) gid")
  case None
  then show ?thesis by (simp add: repair_group_def dials_ok_refl)
next
  case (Some g)
  let ?ks = "waiting_holders p gid g now @ pick_dial now p gid g"
  obtain outs d where d: "dial_each g ?ks (p_dialing p) = (outs, d)" by fastforce
  have "reachable_peer p now k \<and> has_peer (g_own g) k" if "k \<in> set ?ks" for k
    using that holds_member(2) pick_dial_member by auto
  then have "dialable p now k" if "k \<in> set ?ks" for k using that Some by (auto simp: dialable_def reachable_peer_def)
  then have first: "dials_ok p now outs (p\<lparr> p_dialing := d \<rparr>)"
    using dial_each_spec [OF d] unfolding dials_ok_def by simp
  have second: "dials_ok q now [want] q'" if asked: "ask now q gid g k wish = (want, q')" "bt_get (p_groups q) gid = Some g" for q k wish want q'
  proof -
    obtain r f where "want = OutFrame k f" "q' = (used q k now)\<lparr> p_groups := bt_insert gid (g\<lparr> g_request := Some r \<rparr>) (p_groups q) \<rparr>"
      using ask_spec [OF asked(1)] by auto
    moreover have "is_connected (used q k now) = is_connected q" "p_backoff (used q k now) = p_backoff q"
      by (auto simp: is_connected_def fun_eq_iff used_def with_conn_def split: option.split)
    moreover have "is_connected (q\<lparr> p_groups := gs \<rparr>) = is_connected q" for q gs by (simp add: is_connected_def fun_eq_iff)
    ultimately show ?thesis using asked(2) by (intro dials_ok_refl) (auto simp: view_def fun_eq_iff)
  qed
  show ?thesis
  proof (cases "pick_request p gid g")
    case None
    then show ?thesis using Some d first by (simp add: repair_group_def)
  next
    case (Some h)
    obtain want p' where ask: "ask now (p\<lparr> p_dialing := d \<rparr>) gid g (fst h) (snd h) = (want, p')" by fastforce
    then show ?thesis using dials_ok_trans [OF first second [OF ask]] Some \<open>bt_get _ _ = _\<close> d by (simp add: repair_group_def)
  qed
qed

lemma repair_dials: "dials_ok p now (fst (repair p now)) (snd (repair p now))"
proof -
  have "dials_ok p now (fst (repair_groups now gids p)) (snd (repair_groups now gids p))" for gids
    by (induction gids arbitrary: p) (auto simp: case_prod_unfold Let_def intro: dials_ok_refl dials_ok_trans [OF repair_group_dials])
  then show ?thesis by (simp add: repair_def)
qed

lemma targets_member: "k \<in> set (targets C p gid g now) \<Longrightarrow> has_peer (g_own g) k \<and> \<not> backing p k now"
  by (auto simp: targets_def has_peer_def list_ex_iff dest!: in_set_takeD)

lemma dials_dials: "dials_ok p now (fst (dials C p now)) (snd (dials C p now))"
proof -
  have "dials_ok p now (fst (dial_groups C now gids p)) (snd (dial_groups C now gids p))" for gids p
  proof (induction gids arbitrary: p)
    case (Cons gid gids)
    show ?case
    proof (cases "bt_get (p_groups p) gid")
      case (Some g)
      let ?ks = "filter (\<lambda>k. \<not> is_connected p k \<and> k \<notin> set (p_dialing p)) (targets C p gid g now)"
      obtain b outs d where d: "dial_targets g ?ks (p_dialing p) = (b, outs, d)" by (cases "dial_targets g ?ks (p_dialing p)") auto
      let ?p = "p\<lparr> p_dialing := d, p_dial := (if b then bs_insert gid (p_dial p) else p_dial p) \<rparr>"
      have "dials_ok p now outs ?p"
      proof -
        have "dialable p now k" if "k \<in> set ?ks" for k using that targets_member [of k C p gid g now] Some by (auto simp: dialable_def)
        then show ?thesis using dial_targets_spec [OF d] unfolding dials_ok_def by simp
      qed
      from dials_ok_trans [OF this Cons [of ?p]] show ?thesis using Some d by (simp add: case_prod_unfold Let_def)
    qed (simp add: Cons)
  qed (simp add: dials_ok_refl)
  from this [of "p\<lparr> p_dial := [] \<rparr>"] show ?thesis
    by (simp add: dials_def dials_ok_def view_def is_connected_def dialable_def backing_def fun_eq_iff)
qed

text \<open>
  C36. A poll dials only peers worth dialing: each peer it dials is another member of some group, neither
  connected nor being dialed nor backing off when the poll began, and counts as being dialed after it. A
  peer being dialed stays so until the dial ended.
\<close>

theorem poll_dials_only_dialable:
  assumes "poll C p now = (outs, p')" and "Dial k \<in> set outs"
  shows "\<not> is_connected p k \<and> k \<notin> set (p_dialing p) \<and> \<not> backing p k now \<and>
    (\<exists>gid g. bt_get (p_groups p) gid = Some g \<and> has_peer (g_own g) k) \<and> k \<in> set (p_dialing p') \<and> set (p_dialing p) \<subseteq> set (p_dialing p')"
proof -
  define p0 where "p0 = timeouts p now"
  define p1 where "p1 = snd (hellos p0 now)"
  define p2 where "p2 = snd (sync p1)"
  define p3 where "p3 = snd (repair p2 now)"
  define p4 where "p4 = snd (dials C p3 now)"
  let ?outs = "fst (hellos p0 now) @ fst (sync p1) @ fst (repair p2 now) @ fst (dials C p3 now)"
  have "dials_ok p now [] p0" unfolding p0_def by (rule dials_ok_refl [OF _ view_timeouts]) (simp_all add: timeouts_def)
  note 1 = dials_ok_trans [OF this hellos_dials [of p0 now, folded p1_def]]
  note 2 = dials_ok_trans [OF 1 sync_dials [of p1 now, folded p2_def]]
  note 3 = dials_ok_trans [OF 2 repair_dials [of p2 now, folded p3_def]]
  have ok: "dials_ok p now ?outs p4" using dials_ok_trans [OF 3 dials_dials [of p3 now C, folded p4_def]] by simp
  have run: "outs = ?outs @ fst (closes C p4 now)" "p' = snd (closes C p4 now)"
    using assms(1) by (simp_all add: poll_def Let_def case_prod_unfold p0_def p1_def p2_def p3_def p4_def)
  have "p_dialing (close_all ks now q) = p_dialing q" for ks q by (induction ks arbitrary: q) (simp_all add: disconnect_def)
  then have "p_dialing p' = p_dialing p4" and "Dial k \<notin> set (fst (closes C p4 now))" using run(2) by (auto simp: closes_def Let_def)
  then show ?thesis using ok assms(2) run(1) by (auto simp: dials_ok_def dialable_def)
qed


definition toy_started :: peers where
  "toy_started = (peers_new 0 [0])\<lparr> p_changed := Some 1, p_dial := [[9]], p_groups := [([9], new_group toy_own)] \<rparr>"

lemma toy_started_eq: "set_group (peers_new 0 [0]) [9] toy_own 1 = toy_started"
  by (simp add: set_group_def peers_new_def get_or_insert_def push_group_def toy_started_def)

lemma toy_dial: "Dial [8] \<in> set (fst (poll toy_crypto toy_started 5))"
proof -
  have 1: "timeouts toy_started 5 = toy_started"
    by (simp add: timeouts_def toy_started_def bt_update_def time_out_def new_group_def)
  have 2: "hellos toy_started 5 = ([], toy_started)" "sync toy_started = ([], toy_started)"
    by (simp_all add: hellos_def sync_def toy_started_def peers_new_def bt_walk_def DEBOUNCE_def)
  have "holds toy_started [9] (new_group toy_own) = []"
    by (simp add: holds_def holding_def toy_started_def new_group_def toy_own_def peers_new_def List.map_filter_def)
  then have none: "offers toy_started [9] (new_group toy_own) = []" "waiting_holders toy_started [9] (new_group toy_own) 5 = []"
    by (simp_all add: offers_def waiting_holders_def List.map_filter_def Let_def)
  have "bt_get (p_groups toy_started) [9] = Some (new_group toy_own)" by (simp add: toy_started_def bt_get_def)
  then have "repair_group 5 toy_started [9] = ([], toy_started)"
    by (simp add: repair_group_def none pick_dial_def pick_request_def Let_def)
  then have 3: "repair toy_started 5 = ([], toy_started)" by (simp add: repair_def) (simp add: toy_started_def)
  have "Dial [8] \<in> set (fst (dials toy_crypto toy_started 5))"
    by (simp add: dials_def toy_started_def bt_get_def targets_def new_group_def toy_own_def peers_new_def backing_def K_def is_connected_def
        flight_def DIALS_def)
  then show ?thesis by (simp add: poll_def Let_def 1 2 3 case_prod_unfold)
qed

theorem poll_dials_only_dialable_witness:
  "Dial [8] \<in> set (fst (poll toy_crypto toy_started 5)) \<and> \<not> is_connected toy_started [8] \<and>
   [8] \<in> set (p_dialing (snd (poll toy_crypto toy_started 5)))"
  using poll_dials_only_dialable [OF surjective_pairing toy_dial] toy_dial by blast

section \<open>Waiting\<close>

lemma offer_nonempty_iff:
  assumes "wf_set want" "wf_set held" "wf_set struck"
  shows "offer want held struck k \<noteq> [] \<longleftrightarrow> (\<exists>m s. s \<in> pos_at want m \<and> s \<in> pos_at held m \<and> s \<notin> pos_at struck (k, m))"
proof
  assume "offer want held struck k \<noteq> []"
  then have e: "hd (offer want held struck k) \<in> set (offer want held struck k)" by simp
  have "pos_at (offer want held struck k) (fst (hd (offer want held struck k))) \<noteq> {}"
    using pos_at_nonempty [OF _ e] offer_spec [OF assms, of k] e by blast
  then show "\<exists>m s. s \<in> pos_at want m \<and> s \<in> pos_at held m \<and> s \<notin> pos_at struck (k, m)"
    using offer_spec [OF assms, of k] by blast
next
  assume "\<exists>m s. s \<in> pos_at want m \<and> s \<in> pos_at held m \<and> s \<notin> pos_at struck (k, m)"
  then obtain m s where "s \<in> pos_at (offer want held struck k) m" using offer_spec [OF assms, of k] by blast
  then show "offer want held struck k \<noteq> []" by auto
qed

text \<open>What a member holds, by its kept summary and what it announced on its connection.\<close>

definition shown_held :: "peers \<Rightarrow> bytes \<Rightarrow> peer_group \<Rightarrow> membership \<Rightarrow> peer_key \<Rightarrow> membership \<Rightarrow> u64 set" where
  "shown_held p gid g member k m =
     (case bt_get (g_heard g) member of None \<Rightarrow> {} | Some h \<Rightarrow> pos_at (to_set (su_held (hs_summary h))) m) \<union>
     (case bt_get (p_conns p) k of None \<Rightarrow> {} | Some c \<Rightarrow> (case bt_get (c_has c) gid of None \<Rightarrow> {} | Some has \<Rightarrow> pos_at has m))"

definition has_wf :: "peers \<Rightarrow> bool" where
  "has_wf p \<longleftrightarrow> (\<forall>k c gid has. bt_get (p_conns p) k = Some c \<longrightarrow> bt_get (c_has c) gid = Some has \<longrightarrow> bt_wf has)"

lemma holding_held:
  assumes "has_wf p"
  shows "case holding p gid g e of None \<Rightarrow> \<forall>m. shown_held p gid g (fst e) (snd e) m = {}
    | Some h \<Rightarrow> fst h = snd e \<and> (\<forall>m. pos_at (fst (snd h)) m = shown_held p gid g (fst e) (snd e) m)"
proof -
  have "bt_wf has" if "bt_get (p_conns p) (snd e) = Some c" "bt_get (c_has c) gid = Some has" for c has
    using assms that unfolding has_wf_def by blast
  then show ?thesis
    by (cases "bt_get (g_heard g) (fst e)"; cases "bt_get (p_conns p) (snd e)")
      (auto simp: holding_def shown_held_def pos_at_union_sets Let_def split: option.split)
qed


lemma may_hold_iff:
  assumes "has_wf p" "wf_set (g_struck g)"
  shows "may_hold p gid g lacking now \<longleftrightarrow> (\<exists>e\<in>set (o_members (g_own g)). untried p gid (snd e) now \<and>
    (\<exists>m s. s \<in> pos_at (to_set lacking) m \<and> s \<in> shown_held p gid g (fst e) (snd e) m \<and> s \<notin> pos_at (g_struck g) (snd e, m)))"
proof -
  have "(case holding p gid g e of None \<Rightarrow> False
        | Some h \<Rightarrow> untried p gid (fst h) now \<and> offer (to_set lacking) (fst (snd h)) (g_struck g) (fst h) \<noteq> []) \<longleftrightarrow>
      untried p gid (snd e) now \<and>
      (\<exists>m s. s \<in> pos_at (to_set lacking) m \<and> s \<in> shown_held p gid g (fst e) (snd e) m \<and> s \<notin> pos_at (g_struck g) (snd e, m))" for e
  proof (cases "holding p gid g e")
    case None
    then have "shown_held p gid g (fst e) (snd e) m = {}" for m using holding_held [OF assms(1), of gid g e] by (simp del: split_paired_All)
    then show ?thesis using None by simp
  next
    case (Some h)
    then have "fst h = snd e" "pos_at (fst (snd h)) m = shown_held p gid g (fst e) (snd e) m" "wf_set (fst (snd h))" for m
      using holding_held [OF assms(1), of gid g e] holding_wf [OF Some] by (simp_all del: split_paired_All)
    then show ?thesis using Some offer_nonempty_iff [OF wf_to_set _ assms(2), of "fst (snd h)" lacking "snd e"] by simp
  qed
  then show ?thesis unfolding may_hold_def holds_def list_ex_map_filter by (simp only:)
qed

text \<open>
  C35. How long a commit that deletes an epoch's keys waits for messages the member lacks. It waits only while
  it lacks some, never more than two minutes past the later of when the node began and when the member came
  online; and once 15 seconds are over, exactly while some other member, connected and served or not
  connected and dialable, shows by its summary or announcement a lacking seq it was not struck for.
\<close>

theorem wait_bounded_and_exact:
  assumes "peers_run C t p" and "bt_get (p_groups p) gid = Some g"
  shows "\<exists>b p'. wait p gid lacking read now = Some (b, p') \<and>
    (b \<longleftrightarrow> lacking \<noteq> [] \<and> now < max read (p_online p) + 120000 \<and>
      (now < max read (p_online p) + 15000 \<or>
       (\<exists>e\<in>set (o_members (g_own g)). untried p gid (snd e) now \<and>
         (\<exists>m s. s \<in> pos_at (to_set lacking) m \<and> s \<in> shown_held p gid g (fst e) (snd e) m \<and> s \<notin> pos_at (g_struck g) (snd e, m)))))"
proof -
  have ok: "peers_ok t p" using assms(1) by (rule peers_run_ok)
  have "has_wf p"
    unfolding has_wf_def
  proof (intro allI impI)
    fix k c gid has assume c: "bt_get (p_conns p) k = Some c" and has: "bt_get (c_has c) gid = Some has"
    have "bt_all (\<lambda>_. wf_set) (c_has c)" using peers_ok_conn [OF ok c] by (simp add: c_ok_def)
    from bt_all_get [OF this has] show "bt_wf has" by (simp add: wf_set_def)
  qed
  moreover have "wf_set (g_struck g)" using peers_ok_get [OF ok assms(2)] by (simp add: g_ok_def)
  moreover have "to_set lacking = [] \<longleftrightarrow> lacking = []"
  proof (cases lacking rule: rev_cases)
    case (snoc ss s)
    then show ?thesis by (simp add: to_set_def bt_entry_def)
  qed (simp add: to_set_def)
  ultimately show ?thesis using assms(2) may_hold_iff [of p g gid lacking now] by (simp add: wait_def Let_def WAIT_def HEAR_def)
qed

theorem wait_bounded_and_exact_witness:
  "\<exists>p'. wait toy_started [9] toy_held 3 200000 = Some (False, p')"
proof -
  have "peers_run toy_crypto 1 toy_started"
    using peers_run.Step [OF peers_run.New _ peers_step.Group, of 0 1 toy_crypto "[0]" "[9]" toy_own] by (simp only: toy_started_eq)
  moreover have "bt_get (p_groups toy_started) [9] = Some (new_group toy_own)" "p_online toy_started = 0"
    by (simp_all add: toy_started_def bt_get_def peers_new_def)
  ultimately show ?thesis
    using wait_bounded_and_exact [of toy_crypto 1 toy_started "[9]" "new_group toy_own" toy_held 3 200000] by auto
qed

end
