(* ===== verification/Settings.thy ===== *)
theory Settings
  imports Wire Header
begin

text \<open>
  What a group's MLS state carries (\<open>crates/proto/src/group.rs\<close>): its settings, a member's leaf with the
  certificate of its device, and the core's own payloads. A service's \<open>rest\<close> and a newer kind of service are
  JSON kept as it came.
\<close>

definition PROTOCOL :: nat where "PROTOCOL = 14"
definition DEVICE :: bytes where "DEVICE = lit ''letmeknow device v1'' @ [0]"
definition LEAVE :: bytes where "LEAVE = lit ''letmeknow leave v1'' @ [0]"
definition SETTINGS_EXTENSION :: nat where "SETTINGS_EXTENSION = 0xff01"
definition LEAF_EXTENSION :: nat where "LEAF_EXTENSION = 0xff02"

definition MAX_MESSAGE :: nat where "MAX_MESSAGE = 16 * 2 ^ 20"

datatype log_service = Serve bytes bytes "(bytes \<times> json) list" | NewerService json

record settings =
  s_protocol :: nat
  s_carry :: nat
  s_update :: nat
  s_membership :: log_service
  s_admins :: "bytes list"
  s_admitted :: "bytes list"

record device =
  dv_algorithm :: bytes
  dv_key :: bytes
  dv_sig :: bytes

record leaf =
  lf_key :: bytes
  lf_home :: bytes
  lf_device :: "device option"

text \<open>\<open>verify\<close> of \<open>core/src/group.rs\<close>, and the same check in \<open>Device::verify\<close>: a key and a signature of the right length.\<close>

definition verify_ed :: "crypto \<Rightarrow> bytes \<Rightarrow> bytes \<Rightarrow> bytes \<Rightarrow> bool" where
  "verify_ed C key m sg \<longleftrightarrow> length key = 32 \<and> length sg = 64 \<and> ed_key C key \<and> ed_verify C key m sg"

definition device_sign :: "crypto \<Rightarrow> bytes \<Rightarrow> bytes \<Rightarrow> device" where
  "device_sign C sk session = \<lparr> dv_algorithm = lit ''ed25519'', dv_key = ed_public C sk, dv_sig = ed_sign C sk (DEVICE @ session) \<rparr>"

definition device_verify :: "crypto \<Rightarrow> device \<Rightarrow> bytes \<Rightarrow> bool" where
  "device_verify C d session =
     (if dv_algorithm d = lit ''ed25519'' then verify_ed C (dv_key d) (DEVICE @ session) (dv_sig d)
      else if dv_algorithm d = lit ''p256'' then p256_verify C (dv_key d) (DEVICE @ session) (dv_sig d)
      else False)"

definition device_of :: "crypto \<Rightarrow> leaf \<Rightarrow> bytes \<Rightarrow> device option" where
  "device_of C l session = (case lf_device l of None \<Rightarrow> None | Some d \<Rightarrow> if device_verify C d session then Some d else None)"

lemma device_sign_verifies: "sign_law C sk \<Longrightarrow> device_verify C (device_sign C sk session) session"
  by (simp add: sign_law_def device_verify_def device_sign_def verify_ed_def)

lemma device_of_verified: "device_of C l session = Some d \<Longrightarrow> lf_device l = Some d \<and> device_verify C d session"
  by (auto simp: device_of_def split: option.splits if_splits)

datatype control =
    LeaveControl bytes
  | InviteControl bytes nat
  | LostControl "seqs list"
  | PresentControl

end
