(* ===== verification/Author.thy ===== *)
theory Author
  imports Complex_Main Settings BTree
begin

text \<open>
  A membership as this session knows it (\<open>Author\<close> in \<open>crates/node/src/held.rs\<close>): which of its seqs are
  resolved, wanted, or next to open, and the buckets that bound how fast a membership's messages are
  opened. Seqs are \<open>u64\<close>, with the wrap-around of a release build. A bucket's \<open>f64\<close> fields are rationals:
  every value they take is a small multiple of a thousandth, and only comparisons are observed.
\<close>

section \<open>Memberships\<close>

definition WINDOW :: u64 where "WINDOW = 500"
definition HOLD_OFF :: nat where "HOLD_OFF = 2000"
definition GIVE_UP :: nat where "GIVE_UP = 30000"
definition UNOPENED :: nat where "UNOPENED = 2 * MAX_MESSAGE"
definition SEEN :: nat where "SEEN = 8192"
definition PUSH :: nat where "PUSH = 64 * 2 ^ 10"

record author =
  a_key :: bytes
  a_joined :: nat
  a_baseline :: u64
  a_cut :: u64
  a_ended :: bool
  a_known :: u64
  a_held :: ranges
  a_delivered :: ranges
  a_given_up :: ranges
  a_lost :: ranges
  a_shown :: ranges
  a_reported :: ranges
  a_servable :: ranges
  a_sealed :: "(u64, nat) btree"

definition author_new :: "bytes \<Rightarrow> nat \<Rightarrow> u64 \<Rightarrow> author" where
  "author_new key joined baseline = \<lparr> a_key = key, a_joined = joined, a_baseline = baseline, a_cut = baseline, a_ended = False,
     a_known = baseline, a_held = [], a_delivered = [], a_given_up = [], a_lost = [], a_shown = [], a_reported = [],
     a_servable = [], a_sealed = [] \<rparr>"

definition resolved :: "author \<Rightarrow> ranges" where
  "resolved a =
     (let r = union_of (union_of (union_of (range_of 1 (a_baseline a)) (a_delivered a)) (a_given_up a)) (a_lost a)
      in if a_ended a then union_of r (range_of (a_cut a + 1) u64_max) else r)"

definition resolved_through :: "author \<Rightarrow> u64 \<Rightarrow> bool" where
  "resolved_through a seq = is_empty (difference (range_of 1 seq) (resolved a))"

definition wanted_of :: "author \<Rightarrow> ranges" where
  "wanted_of a =
     (let lst = (if a_ended a then min (a_known a) (a_cut a) else a_known a)
      in difference (difference (range_of (a_baseline a + 1) lst) (a_held a)) (a_lost a))"

text \<open>\<open>lowest\<close> unwraps: \<open>None\<close> is its panic.\<close>

definition lowest_of :: "author \<Rightarrow> u64 option" where
  "lowest_of a = first_of (difference (difference (range_of (a_baseline a + 1) u64_max) (a_held a)) (a_lost a))"

definition last_held :: "author \<Rightarrow> u64" where
  "last_held a = (case last_of (a_held a) of None \<Rightarrow> a_baseline a | Some l \<Rightarrow> l)"

definition evidence :: "author \<Rightarrow> u64" where
  "evidence a = max (last_held a) (a_cut a)"

definition seqs_of :: "author \<Rightarrow> ranges \<Rightarrow> seqs option" where
  "seqs_of a rs = (if is_empty rs then None else Some \<lparr> sq_key = a_key a, sq_joined = a_joined a, sq_seqs = rs \<rparr>)"

section \<open>What they compute\<close>

definition wf_author :: "author \<Rightarrow> bool" where
  "wf_author a \<longleftrightarrow> wf_ranges (a_held a) \<and> wf_ranges (a_delivered a) \<and> wf_ranges (a_given_up a) \<and> wf_ranges (a_lost a) \<and>
     wf_ranges (a_reported a) \<and> range_set (a_delivered a) \<subseteq> range_set (a_held a)"

definition resolved_set :: "author \<Rightarrow> u64 set" where
  "resolved_set a = {1..a_baseline a} \<union> range_set (a_delivered a) \<union> range_set (a_given_up a) \<union> range_set (a_lost a) \<union>
     (if a_ended a then {a_cut a + 1..} else {})"

lemma wf_author_new [wf_intros]: "wf_author (author_new key joined baseline)"
  by (simp add: wf_author_def author_new_def)

lemma evidence_update [simp]:
  "evidence (a\<lparr> a_reported := rs \<rparr>) = evidence a" "evidence (a\<lparr> a_delivered := rs \<rparr>) = evidence a"
  "evidence (a\<lparr> a_given_up := rs \<rparr>) = evidence a"
  by (simp_all add: evidence_def last_held_def split: option.split)

lemma u64_max_top: "{a..u64_max} = {a :: u64..}"
  by (auto simp: u64_max_def)

lemma range_set_resolved: "range_set (resolved a) = resolved_set a"
  by (auto simp: resolved_def resolved_set_def Let_def u64_max_top)

lemma wf_resolved: "wf_ranges (resolved a)"
  by (simp add: resolved_def Let_def)

lemma resolved_through_iff: "resolved_through a seq \<longleftrightarrow> {1..seq} \<subseteq> resolved_set a"
  using pos.within_iff [OF wf_resolved, of 1 seq a] by (simp add: resolved_through_def range_set_resolved)

text \<open>Seqs only become resolved: what holds up no dependent never does again.\<close>

definition resolves_more :: "author \<Rightarrow> author \<Rightarrow> bool" where
  "resolves_more a a' \<longleftrightarrow> resolved_set a \<subseteq> resolved_set a'"

lemma resolves_more_trans: "resolves_more a b \<Longrightarrow> resolves_more b c \<Longrightarrow> resolves_more a c"
  by (auto simp: resolves_more_def)

lemma resolves_more_refl [simp]: "resolves_more a a"
  by (simp add: resolves_more_def)

lemma resolves_more_through: "resolves_more a a' \<Longrightarrow> resolved_through a seq \<Longrightarrow> resolved_through a' seq"
  by (auto simp: resolves_more_def resolved_through_iff)

lemma past_baseline: "b < u64_max \<Longrightarrow> {b + 1..l} = {s. b < s \<and> s \<le> (l :: u64)}"
  by (simp add: set_eq_iff succ_le_iff)

lemma past_or_wrapped: "{b + 1..l} = {s. (b < s \<or> b = u64_max) \<and> s \<le> (l :: u64)}"
proof (cases "b = u64_max")
  case True
  then have "b + 1 = 0" by (simp add: u64_max_def)
  then show ?thesis using True by (simp add: set_eq_iff)
next
  case False
  then have "b < u64_max" using u64_le_max order.not_eq_order_implies_strict by blast
  then show ?thesis using past_baseline False by simp
qed

text \<open>
  A membership's wanted seqs are exactly those known, past its baseline, within its final cut once it
  ended, that are neither held nor lost, and its lowest is the least past its baseline neither held nor
  lost. Both hold for every baseline but \<open>u64::MAX\<close>, at which \<open>baseline + 1\<close> wraps to 0 and the baseline
  hides nothing: the seqs up to the last known count as wanted again.
\<close>

theorem wanted_exact:
  assumes "wf_ranges (a_held a)" and "wf_ranges (a_lost a)"
  shows "wf_ranges (wanted_of a) \<and> range_set (wanted_of a) =
      {s. (a_baseline a < s \<or> a_baseline a = u64_max) \<and> s \<le> a_known a \<and> (a_ended a \<longrightarrow> s \<le> a_cut a)} - range_set (a_held a) - range_set (a_lost a) \<and>
    (a_baseline a \<noteq> u64_max \<longrightarrow>
      (case lowest_of a of
         None \<Rightarrow> {s. a_baseline a < s} \<subseteq> range_set (a_held a) \<union> range_set (a_lost a)
       | Some p \<Rightarrow> a_baseline a < p \<and> p \<notin> range_set (a_held a) \<union> range_set (a_lost a) \<and>
           (\<forall>s. a_baseline a < s \<and> s < p \<longrightarrow> s \<in> range_set (a_held a) \<union> range_set (a_lost a))))"
proof (intro conjI impI)
  let ?l = "if a_ended a then min (a_known a) (a_cut a) else a_known a"
  show "wf_ranges (wanted_of a)" using pos.outstanding(1) [OF assms] by (simp add: wanted_of_def Let_def)
  show "range_set (wanted_of a) =
      {s. (a_baseline a < s \<or> a_baseline a = u64_max) \<and> s \<le> a_known a \<and> (a_ended a \<longrightarrow> s \<le> a_cut a)} - range_set (a_held a) - range_set (a_lost a)"
    using pos.outstanding(2) [OF assms, of "a_baseline a + 1" ?l] unfolding wanted_of_def Let_def past_or_wrapped by (auto simp: min_def)
  assume "a_baseline a \<noteq> u64_max"
  then have b: "a_baseline a < u64_max" using u64_le_max order.not_eq_order_implies_strict by blast
  note d = past_baseline [OF b, of u64_max] pos.outstanding [OF assms, of "a_baseline a + 1" u64_max]
  let ?d = "difference (difference (range_of (a_baseline a + 1) u64_max) (a_held a)) (a_lost a)"
  show "case lowest_of a of None \<Rightarrow> {s. a_baseline a < s} \<subseteq> range_set (a_held a) \<union> range_set (a_lost a)
       | Some p \<Rightarrow> a_baseline a < p \<and> p \<notin> range_set (a_held a) \<union> range_set (a_lost a) \<and>
           (\<forall>s. a_baseline a < s \<and> s < p \<longrightarrow> s \<in> range_set (a_held a) \<union> range_set (a_lost a))"
  proof (cases "lowest_of a")
    case None
    then have "range_set ?d = {}" using first_of_least(1) [OF d(2)] by (simp add: lowest_of_def)
    then show ?thesis using None d(1,3) by auto
  next
    case (Some p)
    then have p: "first_of ?d = Some p" by (simp add: lowest_of_def)
    have s: "a_baseline a + 1 \<le> s \<longleftrightarrow> a_baseline a < s" for s using succ_le_iff [OF b] by simp
    show ?thesis using Some pos.least_outstanding(1) [OF assms p] pos.least_outstanding(2) [OF assms p] s by auto
  qed
qed

theorem wanted_exact_witness:
  "range_set (wanted_of ((author_new [1] 0 3)\<lparr> a_known := 9, a_held := [(5, 6)] \<rparr>)) = {4, 7, 8, 9}"
proof -
  let ?a = "(author_new [1] 0 3)\<lparr> a_known := 9, a_held := [(5, 6)] \<rparr>"
  have "wf_ranges (a_held ?a)" "wf_ranges (a_lost ?a)" by (simp_all add: author_new_def)
  from wanted_exact [OF this] have "range_set (wanted_of ?a) = {s. 3 < s \<and> s \<le> 9} - {5..6}"
    by (simp add: author_new_def u64_max_def)
  moreover have "{s :: u64. 3 < s \<and> s \<le> 9} = set (positions 4 9)"
    using past_baseline [of 3 9] by (simp add: set_positions u64_max_def)
  moreover have "{5..6 :: u64} = set (positions 5 6)" by (simp add: set_positions)
  moreover have "set (positions 4 9) - set (positions 5 6) = {4, 7, 8, 9 :: u64}"
    by (simp add: positions_def upt_rec insert_Diff_if)
  ultimately show ?thesis by simp
qed

section \<open>Buckets\<close>

record bucket =
  bu_messages :: rat
  bu_bytes :: rat
  bu_at :: nat

definition F64_MAX :: rat where
  "F64_MAX = (2 ^ 53 - 1) * 2 ^ 971"

definition bucket_default :: bucket where
  "bucket_default = \<lparr> bu_messages = F64_MAX, bu_bytes = F64_MAX, bu_at = 0 \<rparr>"

definition bucket_take :: "bucket \<Rightarrow> nat \<Rightarrow> rat \<Rightarrow> nat \<Rightarrow> bool \<times> bucket" where
  "bucket_take b n scale now =
     (let elapsed = of_nat (now - bu_at b) / 1000;
          messages = min (bu_messages b + elapsed * scale) (100 * scale);
          byts = min (bu_bytes b + elapsed * 65536 * scale) (of_nat MAX_MESSAGE * scale);
          take = (messages \<ge> 1 \<and> byts \<ge> of_nat n)
      in (take, \<lparr> bu_messages = (if take then messages - 1 else messages),
                  bu_bytes = (if take then byts - of_nat n else byts), bu_at = now \<rparr>))"

text \<open>A bucket's requests in turn, each a size and a time, and those it takes.\<close>

fun bucket_run :: "rat \<Rightarrow> bucket \<Rightarrow> (nat \<times> nat) list \<Rightarrow> bucket \<times> (nat \<times> nat) list" where
  "bucket_run scale b [] = (b, [])"
| "bucket_run scale b (r # rs) =
     (let (taken, b') = bucket_take b (fst r) scale (snd r); (b'', rest) = bucket_run scale b' rs
      in (b'', if taken then r # rest else rest))"

text \<open>What a second refills, for the milliseconds between two times.\<close>

definition refilled :: "nat \<Rightarrow> nat \<Rightarrow> rat \<Rightarrow> rat" where
  "refilled t t' scale = of_nat (t' - t) / 1000 * scale"

lemma refilled_add: "t \<le> t' \<Longrightarrow> t' \<le> t'' \<Longrightarrow> refilled t t'' scale = refilled t t' scale + refilled t' t'' scale"
  by (simp add: refilled_def of_nat_diff algebra_simps add_divide_distrib diff_divide_distrib)

lemma bucket_step:
  assumes "0 \<le> scale" "bucket_take b n scale now = (t, b1)" "0 \<le> bu_messages b" "0 \<le> bu_bytes b"
  shows "(if t then 1 else 0) + bu_messages b1 \<le> bu_messages b + refilled (bu_at b) now scale" "0 \<le> bu_messages b1"
    "(if t then of_nat n else 0) + bu_bytes b1 \<le> bu_bytes b + 65536 * refilled (bu_at b) now scale" "0 \<le> bu_bytes b1" "bu_at b1 = now"
    "(if t then 1 else 0) + bu_messages b1 \<le> 100 * scale" "(if t then of_nat n else 0) + bu_bytes b1 \<le> of_nat MAX_MESSAGE * scale"
proof -
  define e where "e = refilled (bu_at b) now scale"
  define m where "m = min (bu_messages b + e) (100 * scale)"
  define y where "y = min (bu_bytes b + 65536 * e) (of_nat MAX_MESSAGE * scale)"
  have e: "0 \<le> e" using assms(1) by (simp add: e_def refilled_def)
  have t: "t \<longleftrightarrow> m \<ge> 1 \<and> y \<ge> of_nat n"
    "b1 = \<lparr> bu_messages = (if t then m - 1 else m), bu_bytes = (if t then y - of_nat n else y), bu_at = now \<rparr>"
    using assms(2) by (auto simp: bucket_take_def Let_def m_def y_def e_def refilled_def ac_simps)
  have "0 \<le> m" "0 \<le> y" "m \<le> bu_messages b + e" "y \<le> bu_bytes b + 65536 * e" "m \<le> 100 * scale" "y \<le> of_nat MAX_MESSAGE * scale"
    using assms(1,3,4) e by (auto simp: m_def y_def)
  then show "(if t then 1 else 0) + bu_messages b1 \<le> bu_messages b + refilled (bu_at b) now scale" "0 \<le> bu_messages b1"
    "(if t then of_nat n else 0) + bu_bytes b1 \<le> bu_bytes b + 65536 * refilled (bu_at b) now scale" "0 \<le> bu_bytes b1" "bu_at b1 = now"
    "(if t then 1 else 0) + bu_messages b1 \<le> 100 * scale" "(if t then of_nat n else 0) + bu_bytes b1 \<le> of_nat MAX_MESSAGE * scale"
    using t by (auto simp: e_def)
qed

lemma bucket_run_bound:
  assumes "0 \<le> scale" "sorted (bu_at b # map snd rs)" "bucket_run scale b rs = (b', taken)" "0 \<le> bu_messages b" "0 \<le> bu_bytes b"
  shows "of_nat (length taken) + bu_messages b' \<le> bu_messages b + refilled (bu_at b) (bu_at b') scale \<and>
    of_nat (sum_list (map fst taken)) + bu_bytes b' \<le> bu_bytes b + 65536 * refilled (bu_at b) (bu_at b') scale \<and>
    bu_at b \<le> bu_at b' \<and> 0 \<le> bu_messages b' \<and> 0 \<le> bu_bytes b' \<and> bu_at b' = last (bu_at b # map snd rs)"
  using assms(2-5)
proof (induction rs arbitrary: b taken)
  case Nil
  then show ?case by (simp add: refilled_def)
next
  case (Cons r rs)
  obtain t b1 where step: "bucket_take b (fst r) scale (snd r) = (t, b1)" by fastforce
  obtain rest where run: "bucket_run scale b1 rs = (b', rest)" "taken = (if t then r # rest else rest)"
    using Cons.prems(2) step by (auto simp: Let_def split: prod.splits)
  note b1 = bucket_step [OF assms(1) step Cons.prems(3,4)]
  have at: "bu_at b \<le> bu_at b1" "sorted (bu_at b1 # map snd rs)" using Cons.prems(1) b1(5) by auto
  note IH = Cons.IH [OF at(2) run(1) b1(2,4)]
  have "refilled (bu_at b) (bu_at b') scale = refilled (bu_at b) (bu_at b1) scale + refilled (bu_at b1) (bu_at b') scale"
    using refilled_add [OF at(1)] IH by blast
  then show ?case using IH b1 at(1) run(2) by (cases t) auto
qed



end
