(* ===== verification/Delivery.thy ===== *)
theory Delivery
  imports Author
begin

text \<open>
  A group's held messages as this session keeps, delivers and shows them (\<open>crates/node/src/held.rs\<close>). The
  state is what the node keeps of one group: the parts of \<open>Rec\<close> and \<open>G\<close> (\<open>crates/node/src/lib.rs\<close>) that
  these operations read or write, what the MLS state says of the members (who is one, since which epoch,
  and the current epoch), the messages stored by id, by membership and seq, and by delivery index, and the
  events and duties the step produced. Saving the group's record is the identity on this state. The clock
  reads the same throughout one call.
\<close>

section \<open>State\<close>

record member =
  m_key :: bytes
  m_iroh :: bytes
  m_home :: bytes
  m_device :: "device option"

record delivery =
  d_index :: nat
  d_at :: nat
  d_sender :: member
  d_missing :: "seqs list"
  d_late :: bool

record held_record =
  hr_id :: bytes
  hr_header :: header
  hr_plaintext :: "bytes option"
  hr_sealing :: "(nat \<times> bytes) option"
  hr_opened :: nat
  hr_released :: bool
  hr_delivered :: "delivery option"

record message =
  ms_id :: bytes
  ms_group :: bytes
  ms_index :: nat
  ms_at :: nat
  ms_sender :: member
  ms_joined :: nat
  ms_seq :: u64
  ms_reply_to :: "bytes option"
  ms_payload :: json
  ms_missing :: "seqs list"
  ms_late :: bool

record lost_of =
  lo_from :: member
  lo_joined :: nat
  lo_seqs :: "u64 list"
  lo_ids :: "bytes list"

datatype event = MessageEvent message | LostEvent bytes member "lost_of list" | WarningEvent bytes bytes u64

record rule =
  ru_hash :: bytes
  ru_expires :: nat
  ru_by :: bytes
  ru_to :: "bytes option"

record node =
  n_gid :: bytes
  n_me :: bytes
  n_roster :: "member list"
  n_joined :: "(bytes \<times> nat) list"
  n_epoch :: nat
  n_authors :: "author list"
  n_index :: nat
  n_first :: nat
  n_frontier :: "msg_ref list"
  n_leaves :: "(bytes \<times> nat \<times> u64 \<times> bytes) list"
  n_invites :: "rule list"
  n_lost :: "seqs list"
  n_keep :: "seqs list"
  n_stirred :: bool
  n_members :: "(bytes \<times> nat) list"
  n_fresh :: "(bytes \<times> nat \<times> ranges \<times> nat) list"
  n_unopened :: "(bytes \<times> nat \<times> u64, nat \<times> bytes) btree"
  n_early :: "(bytes \<times> bytes) list"
  n_seen :: "bytes list"
  n_buckets :: "(bytes \<times> nat, bucket) btree"
  n_waiting :: bool
  n_changed :: bool
  n_records :: "bytes \<Rightarrow> held_record option"
  n_ids :: "bytes \<times> nat \<times> u64 \<Rightarrow> bytes option"
  n_delivered :: "nat \<Rightarrow> bytes option"
  n_events :: "event list"
  n_duties :: nat

datatype node_error = NoRecord | NoAuthor | NotAMember | BadClaim | LowestOverflow | NotShared

section \<open>Storage\<close>

definition record_key :: "bytes \<Rightarrow> bytes \<Rightarrow> bytes" where
  "record_key gid ident = lit ''node/message/'' @ gid @ lit ''/'' @ ident"

definition seq_key :: "bytes \<Rightarrow> bytes \<Rightarrow> nat \<Rightarrow> u64 \<Rightarrow> bytes" where
  "seq_key gid key joined seq = lit ''node/seq/'' @ gid @ lit ''/'' @ key @ lit ''/'' @ to_be 8 joined @ to_be 8 (unat seq)"

definition delivered_key :: "bytes \<Rightarrow> nat \<Rightarrow> bytes" where
  "delivered_key gid index = lit ''node/delivered/'' @ gid @ lit ''/'' @ to_be 8 index"

definition id_at :: "node \<Rightarrow> bytes \<Rightarrow> nat \<Rightarrow> u64 \<Rightarrow> bytes option" where
  "id_at n key joined seq = n_ids n (key, joined, seq)"

definition record_at :: "node \<Rightarrow> bytes \<Rightarrow> nat \<Rightarrow> u64 \<Rightarrow> held_record option" where
  "record_at n key joined seq = (case id_at n key joined seq of None \<Rightarrow> None | Some ident \<Rightarrow> n_records n ident)"

definition store_record :: "node \<Rightarrow> held_record \<Rightarrow> node" where
  "store_record n r = (let h = hr_header r in
     n\<lparr> n_ids := (n_ids n)((hd_author h, hd_joined h, hd_seq h) := Some (hr_id r)), n_records := (n_records n)(hr_id r := Some r) \<rparr>)"

definition unstore_record :: "node \<Rightarrow> held_record \<Rightarrow> node" where
  "unstore_record n r = (let h = hr_header r in
     n\<lparr> n_ids := (n_ids n)((hd_author h, hd_joined h, hd_seq h) := None),
       n_delivered := (case hr_delivered r of None \<Rightarrow> n_delivered n | Some d \<Rightarrow> (n_delivered n)(d_index d := None)),
       n_records := (n_records n)(hr_id r := None) \<rparr>)"

definition message_of :: "bytes \<Rightarrow> held_record \<Rightarrow> message option" where
  "message_of gid r = map_option (\<lambda>d. let h = hr_header r in
     \<lparr> ms_id = hr_id r, ms_group = gid, ms_index = d_index d, ms_at = d_at d, ms_sender = d_sender d, ms_joined = hd_joined h,
       ms_seq = hd_seq h, ms_reply_to = map_option r_id (hd_reply_to h), ms_payload = hd_payload h, ms_missing = d_missing d,
       ms_late = d_late d \<rparr>) (hr_delivered r)"

definition message_by_id :: "node \<Rightarrow> bytes \<Rightarrow> message option" where
  "message_by_id n ident = (case n_records n ident of None \<Rightarrow> None | Some r \<Rightarrow> message_of (n_gid n) r)"

definition messages :: "node \<Rightarrow> message list" where
  "messages n = List.map_filter (\<lambda>index. case n_delivered n index of None \<Rightarrow> None | Some ident \<Rightarrow> message_by_id n ident)
     [max (n_first n) 1..<Suc (n_index n)]"

definition member_by_key :: "node \<Rightarrow> bytes \<Rightarrow> member" where
  "member_by_key n key = (case List.find (\<lambda>m. m_key m = key) (n_roster n) of
     Some m \<Rightarrow> m | None \<Rightarrow> \<lparr> m_key = key, m_iroh = [], m_home = [], m_device = None \<rparr>)"

definition joined_at :: "node \<Rightarrow> bytes \<Rightarrow> nat option" where
  "joined_at n key = map_of (n_joined n) key"

section \<open>Memberships of the group\<close>

definition author_at :: "author list \<Rightarrow> bytes \<Rightarrow> nat \<Rightarrow> author option" where
  "author_at as key joined = List.find (\<lambda>a. a_key a = key \<and> a_joined a = joined) as"

fun author_mut :: "bytes \<Rightarrow> nat \<Rightarrow> (author \<Rightarrow> author) \<Rightarrow> author list \<Rightarrow> author list" where
  "author_mut key joined f [] = []"
| "author_mut key joined f (a # as) = (if a_key a = key \<and> a_joined a = joined then f a # as else a # author_mut key joined f as)"

definition current_author :: "node \<Rightarrow> bytes \<Rightarrow> author option" where
  "current_author n key = (case joined_at n key of None \<Rightarrow> None | Some j \<Rightarrow> author_at (n_authors n) key j)"

definition raise_baseline :: "u64 \<Rightarrow> author \<Rightarrow> author" where
  "raise_baseline seq a = a\<lparr> a_baseline := max (a_baseline a) seq, a_known := max (a_known a) seq \<rparr>"

definition before_joining :: "node \<Rightarrow> bytes \<Rightarrow> nat \<Rightarrow> u64 \<Rightarrow> node" where
  "before_joining n key joined seq = n\<lparr> n_authors := author_mut key joined (raise_baseline seq) (n_authors n) \<rparr>"

definition learn :: "node \<Rightarrow> bytes \<Rightarrow> nat \<Rightarrow> u64 \<Rightarrow> nat \<Rightarrow> node" where
  "learn n key joined seq now =
     (case author_at (n_authors n) key joined of
        None \<Rightarrow> n
      | Some a \<Rightarrow>
          if seq > a_known a
          then n\<lparr> n_authors := author_mut key joined (\<lambda>a. a\<lparr> a_known := seq \<rparr>) (n_authors n),
                 n_fresh := n_fresh n @ [(key, joined, range_of (a_known a + 1) seq, now)] \<rparr>
          else n)"

definition unopened_of :: "node \<Rightarrow> bytes \<Rightarrow> nat \<Rightarrow> ranges" where
  "unopened_of n key joined =
     from_iter (map (snd \<circ> snd \<circ> fst) (filter (\<lambda>e. fst (fst e) = key \<and> fst (snd (fst e)) = joined) (n_unopened n)))"

definition wanted_now :: "node \<Rightarrow> nat \<Rightarrow> seqs list \<times> seqs list \<times> node" where
  "wanted_now n now =
     (let fresh = filter (\<lambda>f. now < snd (snd (snd f)) + HOLD_OFF) (n_fresh n);
          ended = (\<lambda>a. if a_key a = n_me n then [] else from_iter (map fst (filter (\<lambda>e. snd e < n_epoch n) (a_sealed a))));
          learned = (\<lambda>a. foldl (\<lambda>all f. union_of all (fst (snd (snd f)))) []
            (filter (\<lambda>f. fst f = a_key a \<and> fst (snd f) = a_joined a) fresh));
          pending = (\<lambda>a rs. difference (difference rs (learned a)) (unopened_of n (a_key a) (a_joined a)));
          wants = List.map_filter (\<lambda>a. seqs_of a (pending a (wanted_of a))) (n_authors n);
          stale = List.map_filter (\<lambda>a. seqs_of a (pending a (ended a))) (n_authors n)
      in (wants, stale, n\<lparr> n_fresh := fresh \<rparr>))"

definition lacking :: "node \<Rightarrow> seqs list" where
  "lacking n = List.map_filter (\<lambda>kept.
     (case author_at (n_authors n) (sq_key kept) (sq_joined kept) of
        None \<Rightarrow> None
      | Some a \<Rightarrow> seqs_of a (difference (difference (sq_seqs kept) (a_held a)) (a_lost a)))) (n_keep n)"

section \<open>Delivering\<close>

definition CONTROL_TYPES :: "bytes list" where
  "CONTROL_TYPES = map lit [''leave'', ''invite'', ''lost'', ''present'']"

definition is_control :: "json \<Rightarrow> bool" where
  "is_control payload \<longleftrightarrow> type_of payload \<in> set CONTROL_TYPES"

definition next_undelivered :: "author \<Rightarrow> u64 option" where
  "next_undelivered a = first_of (difference (a_held a) (a_delivered a))"

definition reach :: "held_record \<Rightarrow> msg_ref \<Rightarrow> author \<Rightarrow> u64" where
  "reach r dep a = (if hr_released r then min (r_seq dep) (evidence a) else r_seq dep)"

definition met :: "author list \<Rightarrow> held_record \<Rightarrow> msg_ref \<Rightarrow> bool" where
  "met as r dep \<longleftrightarrow> (case author_at as (r_key dep) (r_joined dep) of None \<Rightarrow> True | Some a \<Rightarrow> resolved_through a (reach r dep a))"

definition ready_of :: "node \<Rightarrow> author \<Rightarrow> node_error + held_record option" where
  "ready_of n a =
     (case next_undelivered a of
        None \<Rightarrow> Inr None
      | Some seq \<Rightarrow>
          if \<not> resolved_through a (seq - 1) then Inr None
          else rbind (context_of (record_at n (a_key a) (a_joined a) seq) NoRecord) (\<lambda>r.
            Inr (if list_all (met (n_authors n) r) (hd_deps (hr_header r)) then Some r else None)))"

fun find_ready :: "node \<Rightarrow> author list \<Rightarrow> node_error + held_record option" where
  "find_ready n [] = Inr None"
| "find_ready n (a # as) = rbind (ready_of n a) (\<lambda>r. case r of Some _ \<Rightarrow> Inr r | None \<Rightarrow> find_ready n as)"

definition requirements :: "header \<Rightarrow> (bytes \<times> nat \<times> u64) list" where
  "requirements h = map (\<lambda>dep. (r_key dep, r_joined dep, r_seq dep)) (hd_deps h) @
     (if hd_seq h > 1 then [(hd_author h, hd_joined h, hd_seq h - 1)] else [])"

text \<open>What was given up of a message's requirements and not reported yet: each is named once.\<close>

fun report_missing :: "author list \<Rightarrow> (bytes \<times> nat \<times> u64) list \<Rightarrow> seqs list \<times> author list" where
  "report_missing as [] = ([], as)"
| "report_missing as (q # qs) =
     (case author_at as (fst q) (fst (snd q)) of
        None \<Rightarrow> report_missing as qs
      | Some a \<Rightarrow>
          let given_up = difference (through (a_given_up a) (snd (snd q))) (a_reported a);
              as' = author_mut (fst q) (fst (snd q)) (\<lambda>a. a\<lparr> a_reported := union_of (a_reported a) given_up \<rparr>) as;
              (missing, as'') = report_missing as' qs
          in ((case seqs_of a given_up of None \<Rightarrow> [] | Some s \<Rightarrow> [s]) @ missing, as''))"

definition deliver :: "nat \<Rightarrow> node \<Rightarrow> held_record \<Rightarrow> node_error + node" where
  "deliver now n r =
     (let h = hr_header r;
          shown = (\<not> is_control (hd_payload h) \<and> hd_author h \<noteq> n_me n);
          (missing, as) = (if shown then report_missing (n_authors n) (requirements h) else ([], n_authors n))
      in case author_at as (hd_author h) (hd_joined h) of
           None \<Rightarrow> Inl NoAuthor
         | Some a \<Rightarrow>
             let late = contains (a_given_up a) (hd_seq h);
                 as = author_mut (hd_author h) (hd_joined h) (\<lambda>a. a\<lparr> a_delivered := insert_at (hd_seq h) (a_delivered a) \<rparr>) as;
                 stirs = (type_of (hd_payload h) \<noteq> lit ''present'');
                 index = n_index n + 1;
                 r' = r\<lparr> hr_delivered := Some \<lparr> d_index = index, d_at = now, d_sender = member_by_key n (hd_author h),
                          d_missing = missing, d_late = late \<rparr> \<rparr>;
                 n' = store_record (n\<lparr> n_authors := as, n_duties := (if stirs \<and> \<not> n_stirred n then n_duties n + 1 else n_duties n),
                        n_stirred := (stirs \<or> n_stirred n), n_index := index,
                        n_delivered := (n_delivered n)(index := Some (hr_id r)) \<rparr>) r'
             in Inr (case (if shown then message_of (n_gid n) r' else None) of
                       None \<Rightarrow> n' | Some m \<Rightarrow> n'\<lparr> n_events := n_events n' @ [MessageEvent m] \<rparr>))"

text \<open>
  The loop of \<open>deliver_ready\<close>: each turn delivers one message, so as many turns as there are held seqs not
  delivered are enough; \<open>None\<close> is running out of them.
\<close>

fun deliver_loop :: "nat \<Rightarrow> nat \<Rightarrow> node \<Rightarrow> (node_error + node) option" where
  "deliver_loop 0 now n = None"
| "deliver_loop (Suc fuel) now n =
     (case find_ready n (n_authors n) of
        Inl e \<Rightarrow> Some (Inl e)
      | Inr None \<Rightarrow> Some (Inr n)
      | Inr (Some r) \<Rightarrow> (case deliver now n r of Inl e \<Rightarrow> Some (Inl e) | Inr n' \<Rightarrow> deliver_loop fuel now n'))"

definition undelivered :: "author list \<Rightarrow> nat" where
  "undelivered as = sum_list (map (\<lambda>a. length (iter (difference (a_held a) (a_delivered a)))) as)"

definition deliver_ready :: "nat \<Rightarrow> node \<Rightarrow> (node_error + node) option" where
  "deliver_ready now n = deliver_loop (Suc (undelivered (n_authors n))) now n"

section \<open>Giving up\<close>

text \<open>
  What \<open>give_up\<close> finds for one membership: the record of its next message, if it has waited long enough,
  gives up seqs and may be released. \<open>holder\<close> is \<open>Peers::holder\<close> at that time.
\<close>

definition give_up_on :: "nat \<Rightarrow> (seqs \<Rightarrow> bool) \<Rightarrow> node \<Rightarrow> held_record \<Rightarrow> nat \<Rightarrow> bytes \<times> nat \<times> u64 \<Rightarrow> (bytes \<times> nat \<times> ranges) option \<times> bool" where
  "give_up_on now holder n r waited q =
     (case author_at (n_authors n) (fst q) (fst (snd q)) of
        None \<Rightarrow> (None, False)
      | Some a \<Rightarrow>
          let seq = snd (snd q);
              releases = (seq > evidence a \<and> waited \<ge> GIVE_UP \<and> \<not> hr_released r);
              lack = difference (difference (range_of 1 (min seq (evidence a))) (resolved a)) (unopened_of n (fst q) (fst (snd q)));
              lack = (if waited < GIVE_UP then difference lack (a_held a) else lack);
              untried = (case seqs_of a lack of None \<Rightarrow> False | Some s \<Rightarrow> holder s)
          in (if \<not> is_empty lack \<and> (waited \<ge> GIVE_UP \<or> \<not> untried) then Some (fst q, fst (snd q), lack) else None, releases))"

definition give_up_for :: "nat \<Rightarrow> (seqs \<Rightarrow> bool) \<Rightarrow> node \<Rightarrow> author \<Rightarrow> (bytes \<times> nat \<times> ranges) list \<times> bytes list" where
  "give_up_for now holder n a =
     (case next_undelivered a of
        None \<Rightarrow> ([], [])
      | Some seq \<Rightarrow>
          (case record_at n (a_key a) (a_joined a) seq of
             None \<Rightarrow> ([], [])
           | Some r \<Rightarrow>
               let waited = now - hr_opened r
               in if waited < HOLD_OFF then ([], [])
                  else
                    let qs = map (\<lambda>dep. (r_key dep, r_joined dep, r_seq dep)) (hd_deps (hr_header r)) @ [(a_key a, a_joined a, seq - 1)];
                        found = map (give_up_on now holder n r waited) qs
                    in (List.map_filter fst found, if list_ex snd found then [hr_id r] else [])))"

fun give_up_all :: "(bytes \<times> nat \<times> ranges) list \<Rightarrow> author list \<Rightarrow> author list" where
  "give_up_all [] as = as"
| "give_up_all (g # gs) as =
     give_up_all gs (author_mut (fst g) (fst (snd g)) (\<lambda>a. a\<lparr> a_given_up := union_of (a_given_up a) (snd (snd g)) \<rparr>) as)"

fun release_all :: "bytes list \<Rightarrow> node \<Rightarrow> node_error + node" where
  "release_all [] n = Inr n"
| "release_all (ident # idents) n =
     (case n_records n ident of None \<Rightarrow> Inl NoRecord | Some r \<Rightarrow> release_all idents (store_record n (r\<lparr> hr_released := True \<rparr>)))"

definition give_up :: "nat \<Rightarrow> bool \<Rightarrow> (seqs \<Rightarrow> bool) \<Rightarrow> node \<Rightarrow> (node_error + node) option" where
  "give_up now at_head holder n =
     (if \<not> at_head then Some (Inr n)
      else
        let found = map (give_up_for now holder n) (n_authors n);
            giving = concat (map fst found);
            releasing = foldl (\<lambda>ids ident. if ident \<in> set ids then ids else ids @ [ident]) [] (concat (map snd found))
        in if giving = [] \<and> releasing = [] then Some (Inr n)
           else (case release_all releasing n of
                   Inl e \<Rightarrow> Some (Inl e)
                 | Inr n \<Rightarrow> deliver_ready now (n\<lparr> n_authors := give_up_all giving (n_authors n) \<rparr>)))"

section \<open>Showing\<close>

definition covers :: "header \<Rightarrow> msg_ref \<Rightarrow> bool" where
  "covers by r \<longleftrightarrow> (hd_author by = r_key r \<and> hd_joined by = r_joined r \<and> hd_seq by > r_seq r) \<or>
     list_ex (\<lambda>d. r_key d = r_key r \<and> r_joined d = r_joined r \<and> r_seq d \<ge> r_seq r) (hd_deps by)"

definition ref_of :: "held_record \<Rightarrow> msg_ref" where
  "ref_of r = (let h = hr_header r in
     \<lparr> r_key = hd_author h, r_joined = hd_joined h, r_seq = hd_seq h, r_id = hr_id r, r_epoch = hd_epoch h \<rparr>)"

definition show_message :: "node \<Rightarrow> held_record \<Rightarrow> node" where
  "show_message n r =
     (let h = hr_header r; own = (hd_author h = n_me n \<and> joined_at n (n_me n) = Some (hd_joined h))
      in case author_at (n_authors n) (hd_author h) (hd_joined h) of
           None \<Rightarrow> n
         | Some _ \<Rightarrow>
             let n = n\<lparr> n_authors := author_mut (hd_author h) (hd_joined h) (\<lambda>a. a\<lparr> a_shown := insert_at (hd_seq h) (a_shown a) \<rparr>) (n_authors n) \<rparr>
             in if own then n
                else
                  let shown = ref_of r;
                      cov = list_ex (\<lambda>f. case record_at n (r_key f) (r_joined f) (r_seq f) of
                          None \<Rightarrow> False | Some by \<Rightarrow> f = shown \<or> covers (hr_header by) shown) (n_frontier n);
                      kept = filter (\<lambda>f. \<not> covers h f) (n_frontier n)
                  in n\<lparr> n_frontier := (if cov then kept else kept @ [shown]) \<rparr>)"

definition deps_now :: "node \<Rightarrow> msg_ref list" where
  "deps_now n = filter (\<lambda>r. record_at n (r_key r) (r_joined r) (r_seq r) \<noteq> None) (n_frontier n)"

end
