(* ===== verification/Delivery_Spec.thy ===== *)
theory Delivery_Spec
  imports Delivery
begin

text \<open>
  Delivery is total, causal and exactly once: with every held message stored, \<open>deliver_ready\<close> always ends
  without an error, leaves nothing ready, and gives each message it delivers the next index, once all its
  requirements are resolved; and what was resolved stays so.
\<close>

section \<open>The table of memberships\<close>

definition keyof :: "author \<Rightarrow> bytes \<times> nat" where
  "keyof a = (a_key a, a_joined a)"

text \<open>
  A list of values with keys, of which \<open>get\<close> finds the first and \<open>modify\<close> changes it. Changes that keep the
  key act on that one value, and a relation that every change satisfies lifts to the whole list.
\<close>

locale keyed_table =
  fixes key :: "'v \<Rightarrow> 'k"
    and get :: "'v list \<Rightarrow> 'k \<Rightarrow> 'v option"
    and modify :: "'k \<Rightarrow> ('v \<Rightarrow> 'v) \<Rightarrow> 'v list \<Rightarrow> 'v list"
  assumes get_find: "get vs k = List.find (\<lambda>v. key v = k) vs"
    and modify_Nil: "modify k f [] = []"
    and modify_Cons: "modify k f (v # vs) = (if key v = k then f v # vs else v # modify k f vs)"
begin

lemma get_in: "distinct (map key vs) \<Longrightarrow> v \<in> set vs \<Longrightarrow> get vs (key v) = Some v"
proof (induction vs)
  case (Cons w vs)
  then have "key w \<noteq> key v" if "v \<in> set vs" using that by auto
  then show ?case using Cons by (auto simp: get_find)
qed simp

lemma get_Some: "get vs k = Some v \<Longrightarrow> v \<in> set vs \<and> key v = k"
  by (auto simp: get_find dest: find_Some_iff2)

lemma keys_modify: "(\<And>v. key (f v) = key v) \<Longrightarrow> map key (modify k f vs) = map key vs"
  by (induction vs) (auto simp: modify_Nil modify_Cons)

lemma get_modify:
  "(\<And>v. key (f v) = key v) \<Longrightarrow> get (modify k f vs) j = (if j = k then map_option f (get vs k) else get vs j)"
  by (induction vs) (auto simp: get_find modify_Nil modify_Cons)

lemma modify_all2:
  assumes "\<And>v. R v v" "\<And>v. v \<in> set vs \<Longrightarrow> key v = k \<Longrightarrow> R v (f v)"
  shows "list_all2 R vs (modify k f vs)"
  using assms(2) by (induction vs) (auto simp: modify_Nil modify_Cons assms(1) list_all2_refl)

lemma modify_map: "distinct (map key vs) \<Longrightarrow> modify k f vs = map (\<lambda>v. if key v = k then f v else v) vs"
  by (induction vs) (auto simp: modify_Nil modify_Cons image_iff intro!: map_idI [symmetric])

lemma get_rel:
  assumes "list_all2 (\<lambda>v w. key w = key v \<and> R v w) vs ws"
  shows "rel_option (\<lambda>v w. key v = k \<and> R v w) (get vs k) (get ws k)"
  using assms by (induction vs ws rule: list_all2_induct) (auto simp: get_find)

lemma get_all2:
  assumes "list_all2 (\<lambda>v w. key w = key v \<and> R v w) vs ws" "get ws k = Some w"
  shows "\<exists>v. get vs k = Some v \<and> R v w"
  using get_rel [OF assms(1), of k] assms(2) by (auto simp: option_rel_Some2)

end

interpretation authors: keyed_table keyof "\<lambda>as k. author_at as (fst k) (snd k)" "\<lambda>k. author_mut (fst k) (snd k)"
  by unfold_locales (auto simp: author_at_def keyof_def prod_eq_iff)

lemmas author_at_Some = authors.get_Some [where k = "(k, j)" for k j, simplified]

section \<open>The invariant\<close>

definition has_record :: "node \<Rightarrow> author \<Rightarrow> u64 \<Rightarrow> bool" where
  "has_record n a s \<longleftrightarrow> 1 \<le> s \<and> (\<exists>r. n_ids n (a_key a, a_joined a, s) = Some (hr_id r) \<and> n_records n (hr_id r) = Some r \<and>
     hd_author (hr_header r) = a_key a \<and> hd_joined (hr_header r) = a_joined a \<and> hd_seq (hr_header r) = s)"

definition pending :: "author \<Rightarrow> u64 set" where
  "pending a = range_set (a_held a) - range_set (a_delivered a)"

definition wf_node :: "node \<Rightarrow> bool" where
  "wf_node n \<longleftrightarrow> distinct (map keyof (n_authors n)) \<and> (\<forall>a\<in>set (n_authors n). wf_author a \<and> (\<forall>s\<in>pending a. has_record n a s))"

definition requires_resolved :: "author list \<Rightarrow> author \<Rightarrow> held_record \<Rightarrow> u64 \<Rightarrow> bool" where
  "requires_resolved as a r s \<longleftrightarrow> resolved_through a (s - 1) \<and>
     (\<not> hr_released r \<longrightarrow> (\<forall>dep\<in>set (hd_deps (hr_header r)). \<forall>b. author_at as (r_key dep) (r_joined dep) = Some b \<longrightarrow> resolved_through b (r_seq dep)))"

text \<open>
  Causal order: of every message delivered and still stored, all earlier ones of its membership and all its
  deps reach are resolved, but of one released, which waited in vain.
\<close>

definition causal :: "node \<Rightarrow> bool" where
  "causal n \<longleftrightarrow> (\<forall>a\<in>set (n_authors n). \<forall>s\<in>range_set (a_delivered a). \<forall>r.
     record_at n (a_key a) (a_joined a) s = Some r \<longrightarrow> requires_resolved (n_authors n) a r s)"

lemma next_undelivered_spec:
  assumes "wf_author a"
  shows "next_undelivered a = None \<longleftrightarrow> pending a = {}" and "next_undelivered a = Some s \<Longrightarrow> s \<in> pending a \<and> (\<forall>t\<in>pending a. s \<le> t)"
proof -
  have wf: "wf_ranges (difference (a_held a) (a_delivered a))" "range_set (difference (a_held a) (a_delivered a)) = pending a"
    using assms by (auto simp: wf_author_def wf_difference range_set_difference pending_def)
  then show "next_undelivered a = None \<longleftrightarrow> pending a = {}" "next_undelivered a = Some s \<Longrightarrow> s \<in> pending a \<and> (\<forall>t\<in>pending a. s \<le> t)"
    using first_of_least [OF wf(1)] by (simp_all add: next_undelivered_def)
qed

definition ready :: "node \<Rightarrow> author \<Rightarrow> held_record \<Rightarrow> u64 \<Rightarrow> bool" where
  "ready n a r s \<longleftrightarrow> a \<in> set (n_authors n) \<and> next_undelivered a = Some s \<and> s \<in> pending a \<and> resolved_through a (s - 1) \<and>
     list_all (met (n_authors n) r) (hd_deps (hr_header r)) \<and> 1 \<le> s \<and>
     n_ids n (a_key a, a_joined a, s) = Some (hr_id r) \<and> n_records n (hr_id r) = Some r \<and>
     hd_author (hr_header r) = a_key a \<and> hd_joined (hr_header r) = a_joined a \<and> hd_seq (hr_header r) = s"

lemma ready_of_wf:
  assumes "wf_node n" "a \<in> set (n_authors n)"
  shows "\<exists>x. ready_of n a = Inr x \<and> (\<forall>r. x = Some r \<longrightarrow> (\<exists>s. ready n a r s))"
proof (cases "next_undelivered a")
  case None
  then show ?thesis by (simp add: ready_of_def)
next
  case (Some s)
  then have s: "s \<in> pending a" using next_undelivered_spec(2) assms by (auto simp: wf_node_def)
  then obtain r where "1 \<le> s" "n_ids n (a_key a, a_joined a, s) = Some (hr_id r)" "n_records n (hr_id r) = Some r"
     "hd_author (hr_header r) = a_key a" "hd_joined (hr_header r) = a_joined a" "hd_seq (hr_header r) = s"
    using assms by (auto simp: wf_node_def has_record_def)
  then show ?thesis using Some s assms(2) by (auto simp: ready_of_def ready_def record_at_def id_at_def)
qed

lemma find_ready_wf:
  assumes "wf_node n" "set as \<subseteq> set (n_authors n)"
  shows "\<exists>x. find_ready n as = Inr x \<and> (\<forall>r. x = Some r \<longrightarrow> (\<exists>a s. ready n a r s))"
  using assms(2)
proof (induction as)
  case (Cons a as)
  obtain x where "ready_of n a = Inr x" "\<forall>r. x = Some r \<longrightarrow> (\<exists>s. ready n a r s)"
    using ready_of_wf [OF assms(1), of a] Cons.prems by force
  then show ?case using Cons by (cases x) auto
qed simp

section \<open>One delivery\<close>

text \<open>How the memberships change as one message is delivered: what was reported, and the one more delivered.\<close>

definition only_reported :: "author \<Rightarrow> author \<Rightarrow> bool" where
  "only_reported a a' \<longleftrightarrow> a' = a\<lparr> a_reported := a_reported a' \<rparr> \<and> (wf_ranges (a_reported a) \<longrightarrow> wf_ranges (a_reported a'))"

definition delivers :: "bytes \<times> nat \<Rightarrow> u64 \<Rightarrow> author \<Rightarrow> author \<Rightarrow> bool" where
  "delivers k s a a' \<longleftrightarrow> keyof a' = keyof a \<and> a_held a' = a_held a \<and> evidence a' = evidence a \<and> resolves_more a a' \<and>
     (wf_author a \<and> (keyof a = k \<longrightarrow> s \<in> range_set (a_held a)) \<longrightarrow> wf_author a') \<and>
     range_set (a_delivered a') = (if keyof a = k then insert s (range_set (a_delivered a)) else range_set (a_delivered a))"

lemma only_reported_refl: "only_reported a a"
  by (simp add: only_reported_def)

lemma only_reportedE:
  assumes "only_reported a b"
  obtains rs where "b = a\<lparr> a_reported := rs \<rparr>" "wf_ranges (a_reported a) \<longrightarrow> wf_ranges rs"
  using assms unfolding only_reported_def by blast

lemma only_reported_trans: "only_reported a b \<Longrightarrow> only_reported b c \<Longrightarrow> only_reported a c"
  by (elim only_reportedE) (simp add: only_reported_def)

lemma only_reported_delivers: "only_reported a b \<Longrightarrow> delivers k s b c \<Longrightarrow> delivers k s a c"
proof (elim only_reportedE)
  fix rs
  assume d: "delivers k s b c" and b: "b = a\<lparr> a_reported := rs \<rparr>" "wf_ranges (a_reported a) \<longrightarrow> wf_ranges rs"
  have "keyof b = keyof a" "a_held b = a_held a" "a_delivered b = a_delivered a" "evidence b = evidence a" "resolved_set b = resolved_set a" "wf_author a \<Longrightarrow> wf_author b"
    using b by (simp_all add: keyof_def resolved_set_def wf_author_def)
  then show ?thesis using d by (simp add: delivers_def resolves_more_def)
qed

lemma report_missing_only: "list_all2 only_reported as (snd (report_missing as qs))"
proof (induction qs arbitrary: as)
  case (Cons q qs)
  show ?case
  proof (cases "author_at as (fst q) (fst (snd q))")
    case (Some a)
    let ?f = "\<lambda>b. b\<lparr> a_reported := union_of (a_reported b) (difference (through (a_given_up a) (snd (snd q))) (a_reported a)) \<rparr>"
    let ?as = "author_mut (fst q) (fst (snd q)) ?f as"
    have "only_reported b (?f b)" for b by (simp add: only_reported_def)
    then have "list_all2 only_reported as ?as"
      using authors.modify_all2 [of only_reported as "(fst q, fst (snd q))" ?f] by (simp add: only_reported_refl)
    from list_all2_trans [OF only_reported_trans this Cons.IH] show ?thesis using Some by (simp add: case_prod_unfold Let_def)
  qed (simp add: Cons.IH)
qed (simp add: list_all2_refl only_reported_refl)

lemma all2_keys: "(\<And>a b. R a b \<Longrightarrow> keyof b = keyof a) \<Longrightarrow> list_all2 R as bs \<Longrightarrow> map keyof bs = map keyof as"
  by (rule nth_equalityI) (auto simp: list_all2_conv_all_nth)

lemma only_reported_key: "only_reported a b \<Longrightarrow> keyof b = keyof a"
  by (elim only_reportedE) (simp add: keyof_def)

lemma author_mut_delivers:
  assumes "distinct (map keyof as)"
  shows "list_all2 (delivers (k, j) s) as (author_mut k j (\<lambda>a. a\<lparr> a_delivered := insert_at s (a_delivered a) \<rparr>) as)"
proof -
  have "delivers (k, j) s a (if keyof a = (k, j) then a\<lparr> a_delivered := insert_at s (a_delivered a) \<rparr> else a)" for a
    by (auto simp: delivers_def keyof_def wf_author_def resolves_more_def resolved_set_def)
  then show ?thesis
    using authors.modify_map [OF assms, of "(k, j)"] by (simp add: list_all2_map2 list_all2_refl)
qed

definition shown_to_client :: "node \<Rightarrow> held_record \<Rightarrow> bool" where
  "shown_to_client n r \<longleftrightarrow> \<not> is_control (hd_payload (hr_header r)) \<and> hd_author (hr_header r) \<noteq> n_me n"

lemma deliver_ready_one:
  assumes "wf_node n" "ready n a r s"
  obtains n' d where "deliver now n r = Inr n'" "list_all2 (delivers (keyof a) s) (n_authors n) (n_authors n')"
    "n_index n' = n_index n + 1" "d_index d = n_index n + 1" "n_ids n' = n_ids n" "n_me n' = n_me n" "n_gid n' = n_gid n"
    "n_delivered n' = (n_delivered n)(n_index n + 1 := Some (hr_id r))"
    "n_records n' = (n_records n)(hr_id r := Some (r\<lparr> hr_delivered := Some d \<rparr>))"
    "n_events n' = n_events n @ (if shown_to_client n r then
       map MessageEvent (List.map_filter (message_of (n_gid n)) [r\<lparr> hr_delivered := Some d \<rparr>]) else [])"
proof -
  let ?h = "hr_header r"
  let ?p = "if shown_to_client n r then report_missing (n_authors n) (requirements ?h) else ([], n_authors n)"
  obtain missing as where p: "?p = (missing, as)" by fastforce
  have all: "list_all2 only_reported (n_authors n) as"
    using p report_missing_only [of "n_authors n" "requirements ?h"] by (auto simp: list_all2_refl only_reported_refl split: if_splits)
  have keys: "map keyof as = map keyof (n_authors n)" by (rule all2_keys [OF only_reported_key all])
  have r: "a \<in> set (n_authors n)" "hd_author ?h = a_key a" "hd_joined ?h = a_joined a" "hd_seq ?h = s"
      "n_ids n (a_key a, a_joined a, s) = Some (hr_id r)" using assms(2) by (auto simp: ready_def)
  have dist: "distinct (map keyof as)" using assms(1) keys by (simp add: wf_node_def)
  have "keyof a \<in> set (map keyof as)" unfolding keys using r(1) by simp
  then obtain b where b: "b \<in> set as" "keyof b = keyof a" by auto
  then have at: "author_at as (a_key a) (a_joined a) = Some b" using authors.get_in [OF dist b(1)] by (simp add: keyof_def)
  let ?d = "\<lparr> d_index = n_index n + 1, d_at = now, d_sender = member_by_key n (a_key a), d_missing = missing,
    d_late = contains (a_given_up b) s \<rparr>"
  obtain n' where n': "deliver now n r = Inr n'" using p at r by (simp add: deliver_def shown_to_client_def Let_def split: prod.splits if_splits)
  then have "n_authors n' = author_mut (a_key a) (a_joined a) (\<lambda>a. a\<lparr> a_delivered := insert_at s (a_delivered a) \<rparr>) as"
    using p at r by (auto simp: deliver_def shown_to_client_def Let_def store_record_def split: prod.splits if_splits option.splits)
  then have "list_all2 (delivers (keyof a) s) (n_authors n) (n_authors n')"
    using list_all2_trans [OF only_reported_delivers all author_mut_delivers [OF dist]] by (simp add: keyof_def)
  moreover have "n_index n' = n_index n + 1" "n_ids n' = n_ids n" "n_me n' = n_me n" "n_gid n' = n_gid n"
    "n_delivered n' = (n_delivered n)(n_index n + 1 := Some (hr_id r))"
    "n_records n' = (n_records n)(hr_id r := Some (r\<lparr> hr_delivered := Some ?d \<rparr>))"
    "n_events n' = n_events n @ (if shown_to_client n r then
       map MessageEvent (List.map_filter (message_of (n_gid n)) [r\<lparr> hr_delivered := Some ?d \<rparr>]) else [])"
    using n' p at r by (auto simp: deliver_def shown_to_client_def Let_def store_record_def List.map_filter_def message_of_def fun_upd_idem
        split: prod.splits if_splits option.splits)
  ultimately show ?thesis using that [OF n', of ?d] by simp
qed

section \<open>What a delivery keeps\<close>

definition grows :: "author \<Rightarrow> author \<Rightarrow> bool" where
  "grows a a' \<longleftrightarrow> keyof a' = keyof a \<and> resolves_more a a'"

lemma delivers_grows: "delivers k s a a' \<Longrightarrow> grows a a'"
  by (simp add: delivers_def grows_def)

lemma requires_resolved_mono:
  assumes "list_all2 grows as as'" "requires_resolved as a r s" "grows a a'"
    "hr_header r' = hr_header r" "hr_released r \<longrightarrow> hr_released r'"
  shows "requires_resolved as' a' r' s"
proof -
  have "\<exists>c. author_at as k j = Some c \<and> resolves_more c b" if "author_at as' k j = Some b" for k j b
    using authors.get_all2 [of resolves_more as as' "(k, j)" b] assms(1) that by (simp add: grows_def [abs_def])
  then show ?thesis using assms(2-5) unfolding requires_resolved_def grows_def by (metis resolves_more_through)
qed

text \<open>
  Causal order survives whatever resolves more, delivers nothing but messages whose requirements are
  resolved, and changes of a stored record only its delivery, or releases it.
\<close>

lemma causal_step:
  assumes "causal n" "list_all2 grows (n_authors n) (n_authors n')"
    and new: "\<And>a' s r'. a' \<in> set (n_authors n') \<Longrightarrow> s \<in> range_set (a_delivered a') \<Longrightarrow> record_at n' (a_key a') (a_joined a') s = Some r' \<Longrightarrow>
      \<exists>a r. a \<in> set (n_authors n) \<and> grows a a' \<and> hr_header r' = hr_header r \<and> (hr_released r \<longrightarrow> hr_released r') \<and>
        (s \<in> range_set (a_delivered a) \<and> record_at n (a_key a) (a_joined a) s = Some r \<or> requires_resolved (n_authors n) a r s)"
  shows "causal n'"
  unfolding causal_def
proof (intro ballI allI impI)
  fix a' s r'
  assume "a' \<in> set (n_authors n')" "s \<in> range_set (a_delivered a')" "record_at n' (a_key a') (a_joined a') s = Some r'"
  from new [OF this] obtain a r where a: "a \<in> set (n_authors n)" "grows a a'" "hr_header r' = hr_header r" "hr_released r \<longrightarrow> hr_released r'"
    "s \<in> range_set (a_delivered a) \<and> record_at n (a_key a) (a_joined a) s = Some r \<or> requires_resolved (n_authors n) a r s" by blast
  then have "requires_resolved (n_authors n) a r s" using assms(1) by (auto simp: causal_def)
  then show "requires_resolved (n_authors n') a' r' s" by (rule requires_resolved_mono [OF assms(2) _ a(2-4)])
qed

lemma ready_requires: "ready n a r s \<Longrightarrow> requires_resolved (n_authors n) a r s"
  by (auto simp: ready_def requires_resolved_def met_def reach_def list_all_iff split: option.splits)

text \<open>One record rewritten in place, as its delivery or its release does, keeps every other.\<close>

lemma has_record_update:
  assumes "n_records n (hr_id r) = Some r" "n_ids n' = n_ids n" "n_records n' = (n_records n)(hr_id r := Some r')"
    "hr_id r' = hr_id r" "hr_header r' = hr_header r" "keyof a' = keyof a" "has_record n a s"
  shows "has_record n' a' s"
proof -
  obtain q where q: "1 \<le> s" "n_ids n (a_key a, a_joined a, s) = Some (hr_id q)" "n_records n (hr_id q) = Some q"
     "hd_author (hr_header q) = a_key a" "hd_joined (hr_header q) = a_joined a" "hd_seq (hr_header q) = s"
    using assms(7) by (auto simp: has_record_def)
  obtain p where p: "hr_id p = hr_id q" "hr_header p = hr_header q" "n_records n' (hr_id p) = Some p"
  proof (cases "hr_id q = hr_id r")
    case True
    then have "q = r" using q(3) assms(1) by (metis option.inject)
    moreover have "n_records n' (hr_id r') = Some r'" unfolding assms(3,4) by simp
    ultimately show ?thesis using that [of r'] assms(4,5) by blast
  next
    case False
    then show ?thesis using that [of q] q(3) assms(3) by simp
  qed
  moreover have "a_key a' = a_key a" "a_joined a' = a_joined a" using assms(6) by (simp_all add: keyof_def)
  ultimately show ?thesis using q assms(2) unfolding has_record_def by (intro conjI exI [of _ p]) simp_all
qed

lemma deliver_keeps:
  assumes "wf_node n" "causal n" "ready n a r s" "list_all2 (delivers (keyof a) s) (n_authors n) (n_authors n')"
    "n_ids n' = n_ids n" "n_records n' = (n_records n)(hr_id r := Some (r\<lparr> hr_delivered := d \<rparr>))"
  shows "wf_node n'" "causal n'"
proof -
  let ?r = "r\<lparr> hr_delivered := d \<rparr>"
  have r: "a \<in> set (n_authors n)" "s \<in> pending a" "n_ids n (a_key a, a_joined a, s) = Some (hr_id r)" "n_records n (hr_id r) = Some r"
    using assms(3) by (auto simp: ready_def)
  have dist: "distinct (map keyof (n_authors n))" and wf: "\<And>b. b \<in> set (n_authors n) \<Longrightarrow> wf_author b \<and> (\<forall>t\<in>pending b. has_record n b t)"
    using assms(1) by (auto simp: wf_node_def)
  have same: "b = a" if "b \<in> set (n_authors n)" "keyof b = keyof a" for b
    using dist that r(1) by (auto simp: distinct_map dest: inj_onD)
  have keys: "map keyof (n_authors n') = map keyof (n_authors n)" by (rule all2_keys [OF _ assms(4)]) (simp add: delivers_def)
  have "wf_author b' \<and> (\<forall>t\<in>pending b'. has_record n' b' t)" if "b' \<in> set (n_authors n')" for b'
  proof -
    obtain b where b: "b \<in> set (n_authors n)" "delivers (keyof a) s b b'" using all2_in [OF assms(4) \<open>b' \<in> _\<close>] by blast
    have "wf_author b'" using b wf [OF b(1)] same [OF b(1)] r(2) by (auto simp: delivers_def pending_def)
    moreover have "pending b' \<subseteq> pending b" "keyof b' = keyof b" using b(2) by (auto simp: delivers_def pending_def split: if_splits)
    ultimately show ?thesis using wf [OF b(1)] has_record_update [OF r(4) assms(5,6), of b' b] by (simp add: subset_eq)
  qed
  then show "wf_node n'" using dist keys by (simp add: wf_node_def)
  show "causal n'"
  proof (rule causal_step [OF assms(2)])
    show "list_all2 grows (n_authors n) (n_authors n')" using assms(4) delivers_grows list_all2_mono by blast
    fix b' t q'
    assume b': "b' \<in> set (n_authors n')" "t \<in> range_set (a_delivered b')" "record_at n' (a_key b') (a_joined b') t = Some q'"
    obtain b where b: "b \<in> set (n_authors n)" "delivers (keyof a) s b b'" using all2_in [OF assms(4) b'(1)] by blast
    have k: "a_key b' = a_key b" "a_joined b' = a_joined b" using b(2) by (auto simp: delivers_def keyof_def)
    obtain q where q: "record_at n (a_key b) (a_joined b) t = Some q" "hr_header q' = hr_header q" "hr_released q' = hr_released q"
      using b'(3) k r(4) assms(5,6) by (auto simp: record_at_def id_at_def split: option.splits if_splits)
    have "requires_resolved (n_authors n) b q t" if "t \<notin> range_set (a_delivered b)"
    proof -
      have ks: "keyof b = keyof a" "t = s" using b(2) b'(2) \<open>t \<notin> _\<close> by (auto simp: delivers_def split: if_splits)
      then have "b = a" using same b(1) by blast
      moreover from this have "q = r" using q(1) r(3,4) ks by (simp add: record_at_def id_at_def)
      ultimately show ?thesis using ready_requires [OF assms(3)] ks by simp
    qed
    then show "\<exists>a r. a \<in> set (n_authors n) \<and> grows a b' \<and> hr_header q' = hr_header r \<and> (hr_released r \<longrightarrow> hr_released q') \<and>
        (t \<in> range_set (a_delivered a) \<and> record_at n (a_key a) (a_joined a) t = Some r \<or> requires_resolved (n_authors n) a r t)"
      using b(1) delivers_grows [OF b(2)] q by blast
  qed
qed

lemma sum_list_less:
  fixes f :: "'a \<Rightarrow> nat"
  assumes "list_all2 (\<lambda>v w. f w \<le> f v) vs ws" "i < length vs" "f (ws ! i) < f (vs ! i)"
  shows "sum_list (map f ws) < sum_list (map f vs)"
  using assms
proof (induction vs ws arbitrary: i rule: list_all2_induct)
  case (Cons v vs w ws)
  have le: "sum_list (map f ws) \<le> sum_list (map f vs)" using Cons.hyps(2) by (induction rule: list_all2_induct) auto
  show ?case using Cons le by (cases i) (auto intro: add_le_less_mono add_less_le_mono)
qed simp

lemma undelivered_card: "\<forall>a\<in>set as. wf_author a \<Longrightarrow> undelivered as = sum_list (map (\<lambda>a. card (pending a)) as)"
  unfolding undelivered_def by (intro arg_cong [of _ _ sum_list] map_cong refl)
    (simp add: length_iter wf_difference range_set_difference wf_author_def pending_def)

lemma pending_step:
  "delivers k s a a' \<Longrightarrow> pending a' = (if keyof a = k then pending a - {s} else pending a)"
  by (auto simp: delivers_def pending_def)

lemma undelivered_decreases:
  assumes "wf_node n" "wf_node n'" "a \<in> set (n_authors n)" "s \<in> pending a" "list_all2 (delivers (keyof a) s) (n_authors n) (n_authors n')"
  shows "undelivered (n_authors n') < undelivered (n_authors n)"
proof -
  let ?f = "\<lambda>a. card (pending a)"
  obtain i where i: "i < length (n_authors n)" "n_authors n ! i = a" using assms(3) by (auto simp: in_set_conv_nth)
  have "delivers (keyof a) s a (n_authors n' ! i)" using list_all2_nthD [OF assms(5) i(1)] unfolding i(2) .
  then have "?f (n_authors n' ! i) < ?f (n_authors n ! i)"
    using pending_step card_Diff1_less [OF finite assms(4)] unfolding i(2) by metis
  moreover have "list_all2 (\<lambda>v w. ?f w \<le> ?f v) (n_authors n) (n_authors n')"
    using assms(5)
  proof (rule list_all2_mono)
    fix v w
    assume "delivers (keyof a) s v w"
    then have "pending w \<subseteq> pending v" using pending_step by auto
    then show "?f w \<le> ?f v" by (rule card_mono [OF finite])
  qed
  ultimately have "sum_list (map ?f (n_authors n')) < sum_list (map ?f (n_authors n))" by (rule sum_list_less [OF _ i(1), rotated])
  then show ?thesis using undelivered_card assms(1,2) unfolding wf_node_def by metis
qed

section \<open>The whole loop\<close>

text \<open>The records a run of \<open>deliver_ready\<close> delivers, in its order.\<close>

inductive delivering :: "nat \<Rightarrow> node \<Rightarrow> held_record list \<Rightarrow> node \<Rightarrow> bool" for now where
  stop: "find_ready n (n_authors n) = Inr None \<Longrightarrow> delivering now n [] n"
| turn: "ready n a r s \<Longrightarrow> deliver now n r = Inr n1 \<Longrightarrow> delivering now n1 rs n' \<Longrightarrow> delivering now n (r # rs) n'"

lemma deliver_loop_delivering:
  assumes "wf_node n" "causal n" "undelivered (n_authors n) < fuel"
  shows "\<exists>n' rs. deliver_loop fuel now n = Some (Inr n') \<and> delivering now n rs n'"
  using assms
proof (induction fuel arbitrary: n)
  case (Suc fuel)
  obtain x where x: "find_ready n (n_authors n) = Inr x" "\<forall>r. x = Some r \<longrightarrow> (\<exists>a s. ready n a r s)"
    using find_ready_wf [OF Suc.prems(1)] by blast
  show ?case
  proof (cases x)
    case None
    then show ?thesis using x(1) delivering.stop by auto
  next
    case (Some r)
    then obtain a s where r: "ready n a r s" using x(2) by blast
    obtain n1 d where n1: "deliver now n r = Inr n1" "list_all2 (delivers (keyof a) s) (n_authors n) (n_authors n1)"
      "n_ids n1 = n_ids n" "n_records n1 = (n_records n)(hr_id r := Some (r\<lparr> hr_delivered := Some d \<rparr>))"
      using deliver_ready_one [OF Suc.prems(1) r] by metis
    note keeps = deliver_keeps [OF Suc.prems(1,2) r n1(2-4)]
    have "undelivered (n_authors n1) < undelivered (n_authors n)"
      using undelivered_decreases [OF Suc.prems(1) keeps(1) _ _ n1(2)] r by (simp add: ready_def)
    then obtain n' rs where "deliver_loop fuel now n1 = Some (Inr n')" "delivering now n1 rs n'"
      using Suc.IH [OF keeps] Suc.prems(3) by auto
    then show ?thesis using x(1) Some n1(1) delivering.turn [OF r n1(1)] by auto
  qed
qed simp

lemma find_ready_None: "find_ready n as = Inr None \<Longrightarrow> a \<in> set as \<Longrightarrow> \<not> ready n a r s"
proof (induction as)
  case (Cons b as)
  have "ready_of n b = Inr None" "find_ready n as = Inr None"
    using Cons.prems(1) by (auto simp: rbind_def split: sum.splits option.splits)
  then show ?case using Cons by (auto simp: ready_of_def ready_def record_at_def id_at_def split: if_splits)
qed simp

definition delivered_of :: "node \<Rightarrow> bytes \<times> nat \<Rightarrow> u64 set" where
  "delivered_of n k = (case author_at (n_authors n) (fst k) (snd k) of None \<Rightarrow> {} | Some a \<Rightarrow> range_set (a_delivered a))"

definition sender_of :: "held_record \<Rightarrow> bytes \<times> nat" where
  "sender_of r = (hd_author (hr_header r), hd_joined (hr_header r))"

definition seqs_in :: "held_record list \<Rightarrow> bytes \<times> nat \<Rightarrow> u64 set" where
  "seqs_in rs k = {hd_seq (hr_header r) | r. r \<in> set rs \<and> sender_of r = k}"

lemma seqs_in_simps [simp]:
  "seqs_in [] k = {}"
  "seqs_in (r # rs) k = (if sender_of r = k then insert (hd_seq (hr_header r)) (seqs_in rs k) else seqs_in rs k)"
  by (auto simp: seqs_in_def)

lemma delivered_of_step:
  assumes "list_all2 (delivers k s) (n_authors n) (n_authors n')" "author_at (n_authors n) (fst k) (snd k) \<noteq> None"
  shows "delivered_of n' j = (if j = k then insert s (delivered_of n j) else delivered_of n j)"
proof -
  have "list_all2 (\<lambda>v w. keyof w = keyof v \<and> delivers k s v w) (n_authors n) (n_authors n')"
    using assms(1) by (rule list_all2_mono) (simp add: delivers_def)
  from authors.get_rel [OF this, of j] show ?thesis
    using assms(2) by (auto simp: delivered_of_def delivers_def rel_option_iff split: option.splits)
qed

text \<open>
  What every run of the loop does: it keeps the invariants, ends with nothing ready, gives the records it
  delivers the next indices, and delivers of each membership pending seqs in increasing order.
\<close>

lemma delivering_spec:
  assumes "delivering now n rs n'" "wf_node n" "causal n"
  shows "wf_node n' \<and> causal n' \<and> find_ready n' (n_authors n') = Inr None \<and>
    n_index n' = n_index n + length rs \<and> (\<forall>i \<le> n_index n. n_delivered n' i = n_delivered n i) \<and>
    (\<forall>i < length rs. n_delivered n' (Suc (n_index n + i)) = Some (hr_id (rs ! i))) \<and>
    (\<forall>k. delivered_of n' k = delivered_of n k \<union> seqs_in rs k) \<and>
    (\<forall>r\<in>set rs. \<exists>a\<in>set (n_authors n). keyof a = sender_of r \<and> hd_seq (hr_header r) \<in> pending a) \<and>
    sorted_wrt (\<lambda>r q. sender_of r = sender_of q \<longrightarrow> hd_seq (hr_header r) < hd_seq (hr_header q)) rs"
  using assms
proof (induction rule: delivering.induct)
  case (stop n)
  then show ?case by simp
next
  case (turn n a r s n1 rs n')
  obtain d where n1: "list_all2 (delivers (keyof a) s) (n_authors n) (n_authors n1)" "n_index n1 = n_index n + 1"
      "n_ids n1 = n_ids n" "n_records n1 = (n_records n)(hr_id r := Some (r\<lparr> hr_delivered := Some d \<rparr>))"
      "n_delivered n1 = (n_delivered n)(n_index n + 1 := Some (hr_id r))"
    using deliver_ready_one [OF turn.prems(1) turn.hyps(1)] turn.hyps(2) by (metis sum.inject(2))
  note IH = turn.IH [OF deliver_keeps [OF turn.prems turn.hyps(1) n1(1,3,4)]]
  have r: "a \<in> set (n_authors n)" "s \<in> pending a" "sender_of r = keyof a" "hd_seq (hr_header r) = s" "next_undelivered a = Some s"
    using turn.hyps(1) by (auto simp: ready_def sender_of_def keyof_def)
  have wf: "distinct (map keyof (n_authors n))" "wf_author a" using turn.prems(1) r(1) by (auto simp: wf_node_def)
  have at: "author_at (n_authors n) (fst (keyof a)) (snd (keyof a)) \<noteq> None" using authors.get_in [OF wf(1) r(1)] by simp
  have later: "\<exists>b\<in>set (n_authors n). keyof b = sender_of q \<and> hd_seq (hr_header q) \<in> pending b \<and>
      (keyof b = keyof a \<longrightarrow> s < hd_seq (hr_header q))" if q: "q \<in> set rs" for q
  proof -
    obtain b' where b': "b' \<in> set (n_authors n1)" "keyof b' = sender_of q" "hd_seq (hr_header q) \<in> pending b'" using IH q by blast
    obtain b where b: "b \<in> set (n_authors n)" "delivers (keyof a) s b b'" using all2_in [OF n1(1) b'(1)] by blast
    have "b = a" if "keyof b = keyof a" using wf(1) b(1) r(1) that by (auto simp: distinct_map dest: inj_onD)
    then have "keyof b = keyof a \<longrightarrow> s < hd_seq (hr_header q)"
      using next_undelivered_spec(2) [OF wf(2) r(5)] b'(3) pending_step [OF b(2)] by (auto simp: order.strict_iff_order)
    then show ?thesis using b b'(2,3) pending_step [OF b(2)] by (auto simp: delivers_def split: if_splits)
  qed
  have "\<forall>i < length (r # rs). n_delivered n' (Suc (n_index n + i)) = Some (hr_id ((r # rs) ! i))"
    using IH n1(2,5) by (auto simp: nth_Cons split: nat.split)
  moreover have "\<forall>k. delivered_of n' k = delivered_of n k \<union> seqs_in (r # rs) k"
    using IH delivered_of_step [OF n1(1) at] r(3,4) by auto
  moreover have "sorted_wrt (\<lambda>r q. sender_of r = sender_of q \<longrightarrow> hd_seq (hr_header r) < hd_seq (hr_header q)) (r # rs)"
    using IH later r(3,4) by simp metis
  moreover have "\<forall>q\<in>set (r # rs). \<exists>a\<in>set (n_authors n). keyof a = sender_of q \<and> hd_seq (hr_header q) \<in> pending a"
    using later r by auto
  moreover have "\<forall>i \<le> n_index n. n_delivered n' i = n_delivered n i" using IH n1(2,5) by simp
  ultimately show ?case using IH n1(2) by simp
qed

text \<open>
  C21. With every held message stored, delivery always ends without an error and with nothing ready: it
  hands out the next indices one by one, each to a message of its membership not delivered before, in seq
  order, and once all it depends on is resolved (but a released one, which waited in vain); what it has
  delivered stays so, and no other message's index changes.
\<close>

theorem deliver_ready_total_causal:
  assumes "wf_node n" and "causal n"
  shows "\<exists>n' rs. deliver_ready now n = Some (Inr n') \<and> wf_node n' \<and> causal n' \<and> (\<nexists>a r s. ready n' a r s) \<and>
    n_index n' = n_index n + length rs \<and> (\<forall>i \<le> n_index n. n_delivered n' i = n_delivered n i) \<and>
    (\<forall>i < length rs. n_delivered n' (Suc (n_index n + i)) = Some (hr_id (rs ! i))) \<and>
    (\<forall>k. delivered_of n' k = delivered_of n k \<union> seqs_in rs k) \<and>
    (\<forall>r\<in>set rs. \<exists>a\<in>set (n_authors n). keyof a = sender_of r \<and> hd_seq (hr_header r) \<in> pending a) \<and>
    sorted_wrt (\<lambda>r q. sender_of r = sender_of q \<longrightarrow> hd_seq (hr_header r) < hd_seq (hr_header q)) rs"
proof -
  obtain n' rs where run: "deliver_ready now n = Some (Inr n')" "delivering now n rs n'"
    using deliver_loop_delivering [OF assms lessI] unfolding deliver_ready_def by blast
  note spec = delivering_spec [OF run(2) assms]
  have "\<not> ready n' a r s" for a r s using spec find_ready_None [of n' "n_authors n'" a r s] by (auto simp: ready_def)
  then show ?thesis using run(1) spec by blast
qed

text \<open>A node that holds one message, of seq \<open>s\<close> and with no deps, of one membership.\<close>

definition one_record :: "u64 \<Rightarrow> held_record" where
  "one_record s = \<lparr> hr_id = [9], hr_header = \<lparr> hd_group = [7], hd_author = [1], hd_joined = 0, hd_seq = s, hd_epoch = 0, hd_prev = None,
     hd_deps = [], hd_reply_to = None, hd_payload = JNull \<rparr>, hr_plaintext = None, hr_sealing = None, hr_opened = 0,
     hr_released = False, hr_delivered = None \<rparr>"

definition one_author :: "u64 \<Rightarrow> author" where
  "one_author s = (author_new [1] 0 0)\<lparr> a_known := s, a_held := [(s, s)] \<rparr>"

definition one_node :: "u64 \<Rightarrow> node" where
  "one_node s = \<lparr> n_gid = [7], n_me = [2], n_roster = [], n_joined = [([1], 0), ([2], 0)], n_epoch = 0, n_authors = [one_author s], n_index = 4,
     n_first = 1, n_frontier = [], n_leaves = [], n_invites = [], n_lost = [], n_keep = [], n_stirred = False, n_members = [], n_fresh = [],
     n_unopened = [], n_early = [], n_seen = [], n_buckets = [], n_waiting = False, n_changed = False,
     n_records = (\<lambda>i. if i = [9] then Some (one_record s) else None),
     n_ids = (\<lambda>k. if k = ([1], 0, s) then Some [9] else None), n_delivered = (\<lambda>_. None), n_events = [], n_duties = 0 \<rparr>"

lemma one_node_ok:
  assumes "1 \<le> s"
  shows "wf_node (one_node s) \<and> causal (one_node s)"
proof -
  have "has_record (one_node s) (one_author s) s"
    unfolding has_record_def using assms
    by (intro conjI exI [of _ "one_record s"]) (simp_all add: one_node_def one_author_def author_new_def one_record_def)
  then show ?thesis
    by (simp add: wf_node_def causal_def one_node_def one_author_def author_new_def wf_author_def pending_def)
qed

theorem deliver_ready_total_causal_witness:
  "\<exists>n' (rs :: held_record list). deliver_ready 5 (one_node 1) = Some (Inr n') \<and> wf_node n' \<and> causal n' \<and> n_index n' = 4 + length rs"
proof -
  have "wf_node (one_node 1)" "causal (one_node 1)" using one_node_ok by simp_all
  from deliver_ready_total_causal [OF this, of 5] obtain n' and rs :: "held_record list" where
    "deliver_ready 5 (one_node 1) = Some (Inr n')" "wf_node n'" "causal n'" "n_index n' = n_index (one_node 1) + length rs" by blast
  then show ?thesis by (auto simp: one_node_def)
qed

end
