(* ===== verification/Delivery_Live.thy ===== *)
theory Delivery_Live
  imports Delivery_Spec
begin

text \<open>
  What giving up achieves (\<open>give_up\<close> in \<open>crates/node/src/held.rs\<close>): it keeps the invariants of delivery, and
  every message next in line that has waited long enough is delivered by it, whatever it requires.
\<close>

section \<open>Releasing\<close>

definition held_at :: "node \<Rightarrow> bytes \<Rightarrow> bool" where
  "held_at n ident \<longleftrightarrow> (\<exists>r. n_records n ident = Some r \<and> hr_id r = ident \<and>
     n_ids n (hd_author (hr_header r), hd_joined (hr_header r), hd_seq (hr_header r)) = Some ident)"

text \<open>Records that changed at most by being released, those with an id in \<open>I\<close> for sure.\<close>

definition released_only :: "bool \<Rightarrow> held_record \<Rightarrow> held_record \<Rightarrow> bool" where
  "released_only b r r' \<longleftrightarrow> r' = r\<lparr> hr_released := hr_released r' \<rparr> \<and> (b \<or> hr_released r \<longrightarrow> hr_released r')"

definition released_from :: "bytes set \<Rightarrow> node \<Rightarrow> node \<Rightarrow> bool" where
  "released_from I n n' \<longleftrightarrow> n_ids n' = n_ids n \<and> n_authors n' = n_authors n \<and> n_unopened n' = n_unopened n \<and>
     n_index n' = n_index n \<and> n_delivered n' = n_delivered n \<and>
     (\<forall>ident. rel_option (released_only (ident \<in> I)) (n_records n ident) (n_records n' ident))"

lemma released_onlyE:
  assumes "released_only b r r'"
  obtains x where "r' = r\<lparr> hr_released := x \<rparr>" "b \<or> hr_released r \<longrightarrow> x"
  using assms unfolding released_only_def by blast

lemma released_only_refl: "released_only False r r"
  by (simp add: released_only_def)

lemma released_only_trans: "released_only b p q \<Longrightarrow> released_only c q r \<Longrightarrow> released_only (b \<or> c) p r"
  by (elim released_onlyE) (simp add: released_only_def)

lemma released_from_trans:
  assumes "released_from I n n1" "released_from J n1 n'"
  shows "released_from (I \<union> J) n n'"
proof -
  have "rel_option (released_only (i \<in> I \<union> J)) (n_records n i) (n_records n' i)" for i
  proof -
    have "rel_option (released_only (i \<in> I)) (n_records n i) (n_records n1 i)" "rel_option (released_only (i \<in> J)) (n_records n1 i) (n_records n' i)"
      using assms by (simp_all add: released_from_def)
    then show ?thesis unfolding Un_iff
      by (cases "n_records n i"; cases "n_records n1 i"; cases "n_records n' i") (simp_all, blast intro: released_only_trans)
  qed
  then show ?thesis using assms by (simp add: released_from_def)
qed

lemma release_all_total:
  assumes "\<forall>i\<in>set idents. held_at n i"
  shows "\<exists>n'. release_all idents n = Inr n' \<and> released_from (set idents) n n'"
  using assms
proof (induction idents arbitrary: n)
  case Nil
  then show ?case by (simp add: released_from_def option.rel_refl released_only_refl)
next
  case (Cons i idents)
  obtain r where r: "n_records n i = Some r" "hr_id r = i"
      "n_ids n (hd_author (hr_header r), hd_joined (hr_header r), hd_seq (hr_header r)) = Some i"
    using Cons.prems by (auto simp: held_at_def)
  let ?n = "store_record n (r\<lparr> hr_released := True \<rparr>)"
  have "n_ids ?n = n_ids n" "n_records ?n = (n_records n)(i := Some (r\<lparr> hr_released := True \<rparr>))"
    using r(2,3) by (auto simp: store_record_def Let_def fun_upd_idem)
  then have one: "released_from {i} n ?n" "\<forall>j\<in>set idents. held_at ?n j"
    using r(1,2) Cons.prems by (auto simp: released_from_def store_record_def Let_def option.rel_refl released_only_def held_at_def)
  then show ?case using Cons.IH [of ?n] released_from_trans [OF one(1)] r(1) by auto
qed

lemma released_record:
  assumes "released_from I n n'" "n_records n ident = Some r"
  obtains r' where "n_records n' ident = Some r'" "released_only (ident \<in> I) r r'"
  using assms unfolding released_from_def by (metis option_rel_Some1)

lemma released_record_back:
  assumes "released_from I n n'" "record_at n' k j s = Some r'"
  obtains r where "record_at n k j s = Some r" "hr_header r' = hr_header r" "hr_released r \<longrightarrow> hr_released r'"
proof -
  obtain i where i: "n_ids n (k, j, s) = Some i" "n_records n' i = Some r'"
    using assms by (auto simp: record_at_def id_at_def released_from_def split: option.splits)
  then obtain r where "n_records n i = Some r" "released_only (i \<in> I) r r'"
    using assms(1) unfolding released_from_def by (metis option_rel_Some2)
  then show ?thesis using that [of r] i by (auto simp: record_at_def id_at_def elim: released_onlyE)
qed

lemma released_keeps:
  assumes "released_from I n n'" "wf_node n" "causal n"
  shows "wf_node n'" "causal n'"
proof -
  have "has_record n' a s" if a: "has_record n a s" for a s
  proof -
    obtain r where r: "n_ids n (a_key a, a_joined a, s) = Some (hr_id r)" "n_records n (hr_id r) = Some r"
      "hd_author (hr_header r) = a_key a" "hd_joined (hr_header r) = a_joined a" "hd_seq (hr_header r) = s" "1 \<le> s"
      using a by (auto simp: has_record_def)
    obtain x where "n_records n' (hr_id r) = Some (r\<lparr> hr_released := x \<rparr>)"
      using released_record [OF assms(1) r(2)] by (metis released_onlyE)
    then show ?thesis using r assms(1) unfolding has_record_def by (intro conjI exI [of _ "r\<lparr> hr_released := x \<rparr>"]) (auto simp: released_from_def)
  qed
  then show "wf_node n'" using assms(1,2) by (auto simp: wf_node_def released_from_def)
  have same: "n_authors n' = n_authors n" using assms(1) by (simp add: released_from_def)
  show "causal n'"
  proof (rule causal_step [OF assms(3)])
    show "list_all2 grows (n_authors n) (n_authors n')" by (simp add: same grows_def list_all2_refl)
    fix a s r'
    assume a: "a \<in> set (n_authors n')" "s \<in> range_set (a_delivered a)" "record_at n' (a_key a) (a_joined a) s = Some r'"
    obtain r where "record_at n (a_key a) (a_joined a) s = Some r" "hr_header r' = hr_header r" "hr_released r \<longrightarrow> hr_released r'"
      using released_record_back [OF assms(1) a(3)] .
    then show "\<exists>b r. b \<in> set (n_authors n) \<and> grows b a \<and> hr_header r' = hr_header r \<and> (hr_released r \<longrightarrow> hr_released r') \<and>
        (s \<in> range_set (a_delivered b) \<and> record_at n (a_key b) (a_joined b) s = Some r \<or> requires_resolved (n_authors n) b r s)"
      using a(1,2) same by (intro exI [of _ a] exI [of _ r]) (auto simp: grows_def)
  qed
qed

section \<open>Giving up on seqs\<close>

definition gives :: "author \<Rightarrow> author \<Rightarrow> bool" where
  "gives a a' \<longleftrightarrow> a' = a\<lparr> a_given_up := a_given_up a' \<rparr> \<and> (wf_ranges (a_given_up a) \<longrightarrow> wf_ranges (a_given_up a')) \<and>
     range_set (a_given_up a) \<subseteq> range_set (a_given_up a')"

lemma givesE:
  assumes "gives a a'"
  obtains rs where "a' = a\<lparr> a_given_up := rs \<rparr>" "wf_ranges (a_given_up a) \<longrightarrow> wf_ranges rs" "range_set (a_given_up a) \<subseteq> range_set rs"
  using assms unfolding gives_def by blast

lemma gives_refl: "gives a a"
  by (simp add: gives_def)

lemma gives_trans: "gives a b \<Longrightarrow> gives b c \<Longrightarrow> gives a c"
  by (elim givesE) (auto simp: gives_def)

lemma gives_facts:
  assumes "gives a a'"
  shows "grows a a'" "keyof a' = keyof a" "a_held a' = a_held a" "a_delivered a' = a_delivered a" "evidence a' = evidence a" "wf_author a \<Longrightarrow> wf_author a'"
    "range_set (a_given_up a') \<subseteq> resolved_set a'"
  using assms by (elim givesE; auto simp: grows_def keyof_def resolves_more_def resolved_set_def wf_author_def)+

lemma give_up_all_gives: "list_all2 gives as (give_up_all gs as)"
proof (induction gs arbitrary: as)
  case (Cons g gs)
  let ?f = "\<lambda>a. a\<lparr> a_given_up := union_of (a_given_up a) (snd (snd g)) \<rparr>"
  have "list_all2 gives as (author_mut (fst g) (fst (snd g)) ?f as)"
    using authors.modify_all2 [of gives as "(fst g, fst (snd g))" ?f] by (simp add: gives_refl) (simp add: gives_def)
  from list_all2_trans [OF gives_trans this Cons.IH] show ?case by simp
qed (simp add: list_all2_refl gives_refl)

lemma gives_keyed: "list_all2 gives as bs \<Longrightarrow> list_all2 (\<lambda>v w. keyof w = keyof v \<and> gives v w) as bs"
  by (erule list_all2_mono) (simp add: gives_facts(2))

lemma give_up_all_given:
  assumes "(k, j, rs) \<in> set gs" "author_at (give_up_all gs as) k j = Some a'"
  shows "range_set rs \<subseteq> range_set (a_given_up a')"
  using assms
proof (induction gs arbitrary: as)
  case (Cons g gs)
  show ?case
  proof (cases "(k, j, rs) \<in> set gs")
    case True
    then show ?thesis using Cons by simp
  next
    case False
    let ?f = "\<lambda>a. a\<lparr> a_given_up := union_of (a_given_up a) rs \<rparr>"
    have g: "g = (k, j, rs)" using Cons.prems(1) False by simp
    let ?as = "author_mut k j ?f as"
    obtain b where b: "author_at ?as k j = Some b" "gives b a'"
      using authors.get_all2 [OF gives_keyed [OF give_up_all_gives [of ?as gs]], of "(k, j)" a'] Cons.prems(2) g by auto
    have "\<exists>c. b = ?f c" using authors.get_modify [of ?f "(k, j)" as "(k, j)"] b(1) by (cases "author_at as k j") (auto simp: keyof_def)
    then show ?thesis using b(2) by (auto simp: gives_def)
  qed
qed simp

lemma give_up_keeps:
  assumes "wf_node n" "causal n"
  shows "wf_node (n\<lparr> n_authors := give_up_all gs (n_authors n) \<rparr>)" "causal (n\<lparr> n_authors := give_up_all gs (n_authors n) \<rparr>)"
proof -
  let ?n = "n\<lparr> n_authors := give_up_all gs (n_authors n) \<rparr>"
  note all = give_up_all_gives [of "n_authors n" gs]
  have keys: "map keyof (n_authors ?n) = map keyof (n_authors n)" using all2_keys [OF gives_facts(2) all] by simp
  have from_old: "\<exists>a. a \<in> set (n_authors n) \<and> gives a a'" if "a' \<in> set (n_authors ?n)" for a'
    using all2_in [OF all] that by auto
  have "wf_author a' \<and> (\<forall>s\<in>pending a'. has_record ?n a' s)" if a': "a' \<in> set (n_authors ?n)" for a'
  proof -
    obtain a where a: "a \<in> set (n_authors n)" "gives a a'" using from_old [OF a'] by blast
    have "pending a' = pending a" "a_key a' = a_key a" "a_joined a' = a_joined a"
      using gives_facts(2-4) [OF a(2)] by (auto simp: pending_def keyof_def)
    then show ?thesis using assms(1) a gives_facts(6) by (auto simp: wf_node_def has_record_def)
  qed
  then show "wf_node ?n" using assms(1) keys by (simp add: wf_node_def)
  have rec: "record_at ?n k j s = record_at n k j s" for k j s by (simp add: record_at_def id_at_def split: option.split)
  show "causal ?n"
  proof (rule causal_step [OF assms(2)])
    show "list_all2 grows (n_authors n) (n_authors ?n)" using list_all2_mono [OF all gives_facts(1)] by simp
    fix a' s r'
    assume a': "a' \<in> set (n_authors ?n)" "s \<in> range_set (a_delivered a')" "record_at ?n (a_key a') (a_joined a') s = Some r'"
    obtain a where a: "a \<in> set (n_authors n)" "gives a a'" using from_old [OF a'(1)] by blast
    then show "\<exists>a r. a \<in> set (n_authors n) \<and> grows a a' \<and> hr_header r' = hr_header r \<and> (hr_released r \<longrightarrow> hr_released r') \<and>
        (s \<in> range_set (a_delivered a) \<and> record_at n (a_key a) (a_joined a) s = Some r \<or> requires_resolved (n_authors n) a r s)"
      using a'(2,3) gives_facts(1-4) [OF a(2)] by (intro exI [of _ a] exI [of _ r']) (auto simp: rec keyof_def)
  qed
qed

section \<open>Ready messages stay ready until delivered\<close>

lemma met_mono:
  assumes "list_all2 (delivers k s) as as'" "met as r dep"
  shows "met as' r dep"
proof (cases "author_at as' (r_key dep) (r_joined dep)")
  case None
  then show ?thesis by (simp add: met_def)
next
  case (Some b')
  have "list_all2 (\<lambda>v w. keyof w = keyof v \<and> delivers k s v w) as as'" using assms(1) by (rule list_all2_mono) (simp add: delivers_def)
  from authors.get_all2 [OF this, of "(r_key dep, r_joined dep)"] Some
  obtain b where b: "author_at as (r_key dep) (r_joined dep) = Some b" "delivers k s b b'" by auto
  then have "evidence b' = evidence b" "resolves_more b b'" by (auto simp: delivers_def)
  then show ?thesis using assms(2) b(1) Some by (auto simp: met_def reach_def intro: resolves_more_through)
qed

lemma next_undelivered_cong: "a_held a' = a_held a \<Longrightarrow> wf_author a \<Longrightarrow> wf_author a' \<Longrightarrow> pending a' = pending a \<Longrightarrow> next_undelivered a' = next_undelivered a"
  using next_undelivered_spec [of a] next_undelivered_spec [of a']
  by (cases "next_undelivered a"; cases "next_undelivered a'") (auto intro: order.antisym)

lemma ready_stays:
  assumes "wf_node n" "wf_node n'" "ready n a r s" "ready n b q t" "keyof b \<noteq> keyof a"
    "list_all2 (delivers (keyof b) t) (n_authors n) (n_authors n')" "n_ids n' = n_ids n"
    "n_records n' = (n_records n)(hr_id q := Some q')"
  shows "\<exists>a'. keyof a' = keyof a \<and> ready n' a' r s"
proof -
  note r = assms(3) [unfolded ready_def] and q = assms(4) [unfolded ready_def]
  obtain i where i: "i < length (n_authors n)" "n_authors n ! i = a" using r by (auto simp: in_set_conv_nth)
  let ?a = "n_authors n' ! i"
  have a: "?a \<in> set (n_authors n')" "delivers (keyof b) t a ?a"
    using i list_all2_nthD [OF assms(6) i(1)] list_all2_lengthD [OF assms(6)] by auto
  have k: "keyof ?a = keyof a" "a_key ?a = a_key a" "a_joined ?a = a_joined a" using a(2) by (auto simp: delivers_def keyof_def)
  have p: "pending ?a = pending a" using pending_step [OF a(2)] assms(5) by auto
  have "wf_author a" "wf_author ?a" using r a(1) assms(1,2) by (auto simp: wf_node_def)
  then have "next_undelivered ?a = Some s" using next_undelivered_cong [of ?a a] p r a(2) by (simp add: delivers_def)
  moreover have "hr_id q \<noteq> hr_id r" using r q assms(5) by (auto simp: keyof_def)
  then have "n_records n' (hr_id r) = Some r" using r assms(8) by simp
  moreover have "resolved_through ?a (s - 1)" using a(2) r resolves_more_through by (auto simp: delivers_def)
  moreover have "list_all (met (n_authors n') r) (hd_deps (hr_header r))" using r met_mono [OF assms(6)] by (auto simp: list_all_iff)
  ultimately have "ready n' ?a r s" unfolding ready_def k p using a(1) r assms(7) by simp
  then show ?thesis using k(1) by blast
qed

lemma ready_is_delivered:
  assumes "delivering now n rs n'" "wf_node n" "causal n" "ready n a r s"
  shows "s \<in> seqs_in rs (keyof a)"
  using assms
proof (induction arbitrary: a r s rule: delivering.induct)
  case (stop n)
  then show ?case using find_ready_None [OF stop.hyps] by (auto simp: ready_def)
next
  case (turn n b q t n1 rs n')
  obtain d where n1: "list_all2 (delivers (keyof b) t) (n_authors n) (n_authors n1)" "n_ids n1 = n_ids n"
      "n_records n1 = (n_records n)(hr_id q := Some (q\<lparr> hr_delivered := Some d \<rparr>))"
    using deliver_ready_one [OF turn.prems(1) turn.hyps(1)] turn.hyps(2) by (metis sum.inject(2))
  note keeps = deliver_keeps [OF turn.prems(1,2) turn.hyps(1) n1]
  have q: "sender_of q = keyof b" "hd_seq (hr_header q) = t" using turn.hyps(1) by (auto simp: ready_def sender_of_def keyof_def)
  show ?case
  proof (cases "keyof b = keyof a")
    case True
    then have "b = a" using turn.prems(1,3) turn.hyps(1) by (auto simp: wf_node_def ready_def distinct_map dest: inj_onD)
    then have "t = s" using turn.prems(3) turn.hyps(1) by (simp add: ready_def)
    then show ?thesis using q True by simp
  next
    case False
    obtain a' where "keyof a' = keyof a" "ready n1 a' r s"
      using ready_stays [OF turn.prems(1) keeps(1) turn.prems(3) turn.hyps(1) False n1] by blast
    then show ?thesis using turn.IH [OF keeps] q by fastforce
  qed
qed

section \<open>Waiting is bounded\<close>

lemma set_dedupe: "set (foldl (\<lambda>ids ident. if ident \<in> set ids then ids else ids @ [ident]) is xs) = set is \<union> set xs"
  by (induction xs arbitrary: "is") auto

lemma reach_resolved:
  assumes "n_unopened n = []" "GIVE_UP \<le> waited" "author_at (n_authors n) (fst q) (fst (snd q)) = Some b" "wf_author b"
    "\<And>g. fst (give_up_on now holder n r waited q) = Some g \<Longrightarrow> g \<in> set gs"
    "author_at (give_up_all gs (n_authors n)) (fst q) (fst (snd q)) = Some b'"
  shows "resolved_through b' (min (snd (snd q)) (evidence b))"
proof -
  let ?lack = "difference (difference (range_of 1 (min (snd (snd q)) (evidence b))) (resolved b)) (unopened_of n (fst q) (fst (snd q)))"
  have u: "unopened_of n k j = []" for k j by (simp add: unopened_of_def assms(1) from_iter_def from_vec_def)
  have wf: "wf_ranges ?lack" and set: "range_set ?lack = {1..min (snd (snd q)) (evidence b)} - resolved_set b"
    by (simp_all add: u wf_difference wf_resolved range_set_difference range_set_resolved)
  have more: "resolved_set b \<subseteq> resolved_set b'" and given: "range_set (a_given_up b') \<subseteq> resolved_set b'"
    using authors.get_all2 [OF gives_keyed [OF give_up_all_gives [of "n_authors n" gs]], of "(fst q, fst (snd q))" b'] assms(3,6) gives_facts(1,7)
    by (auto simp: grows_def resolves_more_def)
  have "range_set ?lack \<subseteq> resolved_set b'"
  proof (cases "is_empty ?lack")
    case True
    then show ?thesis using is_empty_iff [OF wf] by auto
  next
    case False
    then have "fst (give_up_on now holder n r waited q) = Some (fst q, fst (snd q), ?lack)"
      using assms(2,3) by (simp add: give_up_on_def Let_def)
    then show ?thesis using give_up_all_given [OF assms(5) assms(6)] given by blast
  qed
  then show ?thesis using more set unfolding resolved_through_iff by blast
qed

lemma evidence_held: "wf_author a \<Longrightarrow> s \<in> range_set (a_held a) \<Longrightarrow> s \<le> evidence a"
  using last_of_greatest [of "a_held a"] by (cases "last_of (a_held a)") (auto simp: wf_author_def evidence_def last_held_def max_def last_of_def split: if_splits)

definition giving :: "nat \<Rightarrow> (seqs \<Rightarrow> bool) \<Rightarrow> node \<Rightarrow> (bytes \<times> nat \<times> ranges) list" where
  "giving now holder n = concat (map (fst \<circ> give_up_for now holder n) (n_authors n))"

definition releasing :: "nat \<Rightarrow> (seqs \<Rightarrow> bool) \<Rightarrow> node \<Rightarrow> bytes list" where
  "releasing now holder n = foldl (\<lambda>ids ident. if ident \<in> set ids then ids else ids @ [ident]) []
     (concat (map (snd \<circ> give_up_for now holder n) (n_authors n)))"

lemma give_up_alt:
  "give_up now at_head holder n =
     (if \<not> at_head \<or> giving now holder n = [] \<and> releasing now holder n = [] then Some (Inr n)
      else case release_all (releasing now holder n) n of
        Inl e \<Rightarrow> Some (Inl e)
      | Inr n' \<Rightarrow> deliver_ready now (n'\<lparr> n_authors := give_up_all (giving now holder n) (n_authors n') \<rparr>))"
  unfolding give_up_def giving_def releasing_def Let_def map_map by (cases at_head) (simp_all only: simp_thms if_True if_False)

lemma give_up_for_released:
  assumes "i \<in> set (snd (give_up_for now holder n a))"
  obtains s r where "next_undelivered a = Some s" "record_at n (a_key a) (a_joined a) s = Some r" "i = hr_id r"
proof (cases "next_undelivered a")
  case None
  then show ?thesis using assms by (simp add: give_up_for_def)
next
  case (Some s)
  then show ?thesis using assms that [OF Some]
    by (cases "record_at n (a_key a) (a_joined a) s") (auto simp: give_up_for_def Let_def split: if_splits)
qed

lemma pending_record:
  assumes "wf_node n" "a \<in> set (n_authors n)" "next_undelivered a = Some s" "record_at n (a_key a) (a_joined a) s = Some r"
  shows "s \<in> pending a" "1 \<le> s" "n_ids n (a_key a, a_joined a, s) = Some (hr_id r)" "n_records n (hr_id r) = Some r"
    "hd_author (hr_header r) = a_key a" "hd_joined (hr_header r) = a_joined a" "hd_seq (hr_header r) = s"
proof -
  have a: "wf_author a" "\<forall>t\<in>pending a. has_record n a t" using assms(1,2) by (auto simp: wf_node_def)
  show s: "s \<in> pending a" using next_undelivered_spec(2) [OF a(1) assms(3)] by blast
  obtain q where q: "1 \<le> s" "n_ids n (a_key a, a_joined a, s) = Some (hr_id q)" "n_records n (hr_id q) = Some q"
    "hd_author (hr_header q) = a_key a" "hd_joined (hr_header q) = a_joined a" "hd_seq (hr_header q) = s"
    using a(2) s unfolding has_record_def by blast
  moreover have "q = r" using assms(4) q(2,3) by (simp add: record_at_def id_at_def)
  ultimately show "1 \<le> s" "n_ids n (a_key a, a_joined a, s) = Some (hr_id r)" "n_records n (hr_id r) = Some r"
    "hd_author (hr_header r) = a_key a" "hd_joined (hr_header r) = a_joined a" "hd_seq (hr_header r) = s" by simp_all
qed

lemma releasing_held:
  assumes "wf_node n" "i \<in> set (releasing now holder n)"
  shows "held_at n i"
proof -
  obtain a where a: "a \<in> set (n_authors n)" "i \<in> set (snd (give_up_for now holder n a))"
    using assms(2) by (auto simp: releasing_def set_dedupe)
  obtain s r where r: "next_undelivered a = Some s" "record_at n (a_key a) (a_joined a) s = Some r" "i = hr_id r"
    using give_up_for_released [OF a(2)] .
  show ?thesis using pending_record [OF assms(1) a(1) r(1,2)] r(3) by (simp add: held_at_def)
qed

text \<open>The message next in line of one membership, having waited through \<open>GIVE_UP\<close>, is ready once all is given up.\<close>

lemma waited_is_ready:
  assumes "wf_node n" "a \<in> set (n_authors n)" "next_undelivered a = Some s" "record_at n (a_key a) (a_joined a) s = Some r"
    "GIVE_UP \<le> now - hr_opened r" "n_unopened n = []" "released_from (set (releasing now holder n)) n n1"
  shows "\<exists>a' r'. keyof a' = keyof a \<and> ready (n1\<lparr> n_authors := give_up_all (giving now holder n) (n_authors n1) \<rparr>) a' r' s"
proof -
  let ?gs = "giving now holder n" and ?as = "give_up_all (giving now holder n) (n_authors n)"
  let ?n = "n1\<lparr> n_authors := give_up_all (giving now holder n) (n_authors n1) \<rparr>"
  let ?qs = "map (\<lambda>dep. (r_key dep, r_joined dep, r_seq dep)) (hd_deps (hr_header r)) @ [(a_key a, a_joined a, s - 1)]"
  have wf: "wf_author b" if "author_at (n_authors n) k j = Some b" for k j b
    using author_at_Some [OF that] assms(1) by (auto simp: wf_node_def)
  have wfa: "wf_author a" and dist: "distinct (map keyof (n_authors n))" using assms(1,2) by (auto simp: wf_node_def)
  note s = next_undelivered_spec(2) [OF wfa assms(3)] and a = authors.get_in [OF dist assms(2)]
  note r = pending_record [OF assms(1-4)]
  have for_a: "give_up_for now holder n a =
      (List.map_filter fst (map (give_up_on now holder n r (now - hr_opened r)) ?qs),
       if list_ex snd (map (give_up_on now holder n r (now - hr_opened r)) ?qs) then [hr_id r] else [])"
    using assms(3-5) by (simp add: give_up_for_def HOLD_OFF_def GIVE_UP_def Let_def)
  have gs: "g \<in> set ?gs" if "q \<in> set ?qs" "fst (give_up_on now holder n r (now - hr_opened r) q) = Some g" for q g
  proof -
    have "g \<in> set (fst (give_up_for now holder n a))"
      unfolding for_a fst_conv map_filter_in set_map using that by (intro bexI [of _ "give_up_on now holder n r (now - hr_opened r) q"] imageI)
    then show ?thesis using assms(2) by (auto simp: giving_def)
  qed
  have reached: "resolved_through b' (min (snd (snd q)) (evidence b))"
    if q: "q \<in> set ?qs" "author_at (n_authors n) (fst q) (fst (snd q)) = Some b" "author_at ?as (fst q) (fst (snd q)) = Some b'" for q b b'
    by (rule reach_resolved [OF assms(6,5) q(2) wf [OF q(2)] gs [OF q(1)] q(3)])
  have same: "n_authors n1 = n_authors n" "n_ids n1 = n_ids n" using assms(7) by (simp_all add: released_from_def)
  obtain r' where r': "n_records n1 (hr_id r) = Some r'" "released_only (hr_id r \<in> set (releasing now holder n)) r r'"
    using released_record [OF assms(7) r(4)] .
  have source: "\<exists>b. author_at (n_authors n) k j = Some b \<and> gives b b'" if "author_at ?as k j = Some b'" for k j b'
    using authors.get_all2 [OF gives_keyed [OF give_up_all_gives], where k = "(k, j)"] that by auto
  have "met ?as r' dep" if dep: "dep \<in> set (hd_deps (hr_header r))" for dep
  proof (cases "author_at ?as (r_key dep) (r_joined dep)")
    case (Some b')
    then obtain b where b: "author_at (n_authors n) (r_key dep) (r_joined dep) = Some b" "gives b b'" using source by blast
    let ?q = "(r_key dep, r_joined dep, r_seq dep)"
    have q: "?q \<in> set ?qs" using dep by auto
    have res: "resolved_through b' (min (r_seq dep) (evidence b))" using reached [of ?q b b'] b(1) q Some by simp
    have "hr_released r'" if "evidence b < r_seq dep"
    proof (cases "hr_released r")
      case False
      then have "snd (give_up_on now holder n r (now - hr_opened r) ?q)"
        using b(1) that assms(5) by (simp add: give_up_on_def Let_def)
      then have "hr_id r \<in> set (snd (give_up_for now holder n a))" 
        unfolding for_a snd_conv list_ex_iff set_map using q by (subst if_P) (blast, simp)
      then have "hr_id r \<in> set (releasing now holder n)" using assms(2) by (auto simp: releasing_def set_dedupe)
      then show ?thesis using r'(2) by (simp add: released_only_def)
    qed (use r'(2) in \<open>simp add: released_only_def\<close>)
    then have "reach r' dep b' = min (r_seq dep) (evidence b) \<or> reach r' dep b' = r_seq dep \<and> r_seq dep \<le> evidence b"
      using gives_facts(5) [OF b(2)] by (cases "evidence b < r_seq dep") (auto simp: reach_def)
    then show ?thesis using res Some by (auto simp: met_def min_def split: if_splits)
  qed (simp add: met_def)
  moreover have r'h: "hr_id r' = hr_id r" "hr_header r' = hr_header r" using r'(2) by (auto elim: released_onlyE)
  ultimately have met: "list_all (met ?as r') (hd_deps (hr_header r'))" by (simp add: list_all_iff)
  obtain a' where a': "a' \<in> set ?as" "keyof a' = keyof a" "gives a a'" "author_at ?as (a_key a) (a_joined a) = Some a'"
  proof -
    obtain i where i: "i < length (n_authors n)" "n_authors n ! i = a" using assms(2) by (auto simp: in_set_conv_nth)
    have g: "gives a (?as ! i)" "?as ! i \<in> set ?as"
      using list_all2_nthD [OF give_up_all_gives i(1)] list_all2_lengthD [OF give_up_all_gives] i by (metis, metis nth_mem)
    have "distinct (map keyof ?as)" using all2_keys [OF gives_facts(2) give_up_all_gives] dist by metis
    from authors.get_in [OF this g(2)] show ?thesis using that [of "?as ! i"] g gives_facts(2) [OF g(1)] by (simp add: keyof_def)
  qed
  have "s \<le> evidence a" using evidence_held [OF wfa] r(1) by (simp add: pending_def)
  moreover have "s - 1 < s" using r(2) by (simp add: word_less_1 order.strict_iff_order) unat_arith
  ultimately have "s - 1 \<le> evidence a" by simp
  then have own: "resolved_through a' (s - 1)" using reached [of "(a_key a, a_joined a, s - 1)" a a'] a a'(4) by (simp add: keyof_def min_def)
  have "next_undelivered a' = Some s" "s \<in> pending a'" using gives_facts(3,4) [OF a'(3)] assms(3) s by (simp_all add: next_undelivered_def pending_def)
  then have "ready ?n a' r' s" using met own a'(1,2) r r'(1) r'h same by (simp add: ready_def keyof_def)
  then show ?thesis using a'(2) by blast
qed



end
