(* ===== verification/Mls.thy ===== *)
theory Mls
  imports Settings
begin

text \<open>
  The MLS library (openmls) as \<open>crates/core/src/group.rs\<close> uses it. Its state is data the code reads: a
  group's id, epoch, context extensions and leaves, the staged commit with its proposals, and the exporter.
  What it computes, and what serde encodes, are parameters: the records \<open>mls_api\<close> and \<open>codec\<close> of functions
  that the definitions take as arguments.
\<close>

section \<open>State\<close>

datatype extension = RequiredCapabilities "nat list" | UnknownExtension nat bytes

record leaf_node =
  ln_key :: bytes
  ln_credential :: bytes
  ln_encryption :: bytes
  ln_extensions :: "extension list"

record key_package =
  kp_leaf :: leaf_node
  kp_ref :: bytes

datatype proposal = AddProposal key_package | RemoveProposal nat | ContextProposal | OtherProposal bytes

text \<open>A staged commit: its proposals, each with whether it is inline, and what the commit leads to.\<close>

record staged =
  sc_proposals :: "(bool \<times> proposal) list"
  sc_epoch :: nat
  sc_extensions :: "extension list"
  sc_path :: "leaf_node option"
  sc_self_removed :: bool

record mls =
  ml_group_id :: bytes
  ml_epoch :: nat
  ml_extensions :: "extension list"
  ml_leaves :: "(nat \<times> leaf_node) list"
  ml_own :: nat
  ml_active :: bool
  ml_pending :: "staged option"
  ml_aad :: bytes
  ml_secrets :: bytes
  ml_export :: "bytes \<Rightarrow> bytes \<Rightarrow> nat \<Rightarrow> bytes"

definition member_at :: "mls \<Rightarrow> nat \<Rightarrow> leaf_node option" where
  "member_at m index = map_of (ml_leaves m) index"

fun as_add :: "proposal \<Rightarrow> key_package option" where
  "as_add (AddProposal kp) = Some kp"
| "as_add _ = None"

fun as_remove :: "proposal \<Rightarrow> nat option" where
  "as_remove (RemoveProposal i) = Some i"
| "as_remove _ = None"

definition add_proposals :: "staged \<Rightarrow> key_package list" where
  "add_proposals st = List.map_filter (as_add \<circ> snd) (sc_proposals st)"

definition remove_proposals :: "staged \<Rightarrow> nat list" where
  "remove_proposals st = List.map_filter (as_remove \<circ> snd) (sc_proposals st)"

lemma as_add_iff [simp]: "as_add p = Some kp \<longleftrightarrow> p = AddProposal kp"
  by (cases p) auto

lemma as_remove_iff [simp]: "as_remove p = Some i \<longleftrightarrow> p = RemoveProposal i"
  by (cases p) auto

lemma set_add_proposals: "kp \<in> set (add_proposals st) \<longleftrightarrow> (\<exists>b. (b, AddProposal kp) \<in> set (sc_proposals st))"
  by (force simp: add_proposals_def map_filter_in)

lemma set_remove_proposals: "i \<in> set (remove_proposals st) \<longleftrightarrow> (\<exists>b. (b, RemoveProposal i) \<in> set (sc_proposals st))"
  by (force simp: remove_proposals_def map_filter_in)

section \<open>Messages\<close>

datatype content_type = ApplicationContent | ProposalContent | CommitContent

datatype mls_body =
    PrivateMessage content_type nat bytes bytes \<comment> \<open>content type, epoch, group id, authenticated data\<close>
  | PublicMessage content_type
  | WelcomeMessage
  | KeyPackageMessage
  | OtherMessage

datatype sender = MemberSender nat | OtherSender

datatype content = ApplicationMessage bytes | StagedCommitMessage staged | OwnPrivateMessage | OtherContent

record processed =
  pr_epoch :: nat
  pr_aad :: bytes
  pr_sender :: sender
  pr_credential :: bytes
  pr_content :: content

datatype process_error = TooDistantInThePast | SecretReuse | OtherFailure

record welcomed =
  wm_package_ref :: "bytes option"
  wm_sender :: "bytes option"
  wm_mls :: mls

section \<open>Functions\<close>

text \<open>
  Processing or creating a message changes only the group's secrets (\<open>ml_secrets\<close>, opaque); building a commit
  from key packages, removed leaves, new context extensions, new leaf extensions and whether to update the own
  leaf gives the staged commit, its message and a Welcome.
\<close>

record mls_api =
  api_parse :: "bytes \<Rightarrow> mls_body option"
  api_key_package :: "bytes \<Rightarrow> key_package option"
  api_process :: "mls \<Rightarrow> bytes \<Rightarrow> (process_error + processed) \<times> bytes"
  api_merge :: "mls \<Rightarrow> staged \<Rightarrow> mls option"
  api_build :: "mls \<Rightarrow> key_package list \<Rightarrow> nat list \<Rightarrow> extension list option \<Rightarrow> extension list option \<Rightarrow> bool \<Rightarrow>
    (staged \<times> bytes \<times> bytes option) option"
  api_welcome :: "bytes \<Rightarrow> welcomed option"
  api_message :: "mls \<Rightarrow> bytes \<Rightarrow> (bytes \<times> bytes) option"

end
