(* ===== verification/Envelope.thy ===== *)
theory Envelope
  imports Mls Chain
begin

text \<open>
  The sealed envelope of a log entry (\<open>seal_entry\<close> and \<open>open_entry\<close> of \<open>crates/core/src/group.rs\<close>): an entry
  is padded to a power of two and sealed under a secret of the epoch, so that a service sees neither what it
  holds nor, but for its bucket, how long it is.
\<close>

section \<open>Settings and leaves as extensions\<close>

datatype group_error =
    UnsupportedService | BadServiceKey | WeakServiceKey | NoSettings | BadSettings | EnvelopeTooLarge | BadEntry entry_error
  | BadBucket | BadVersion | BadSeal | BadInnerLength | NoncanonicalBucket | NonzeroPadding
  | AlreadyPending | BadKeyPackage | BuildFailed | NotAMember | ByReference | CredentialNamesAnother | AddsRemoved | AddNotAdmitted
  | RemoveOfNone | RemoveUnsigned | SettingsByNoAdmin | OtherExtensions | FixedSettings | NoAdminLeft | OtherProposalKind
  | InviteMismatch | CutDisorder | CutOfNoMember | CutMalformed | CutBelow | CutTooFar | PathChangesKey
  | NotProtocolMessage | NotACommit | ProcessFailed | BadAad | NotFromMember | OwnUnsigned | EntryUnsigned | NotToApply | MergeFailed
  | RemovedFromGroup | TooLarge | BadHeader header_error | SealFailed
  | NotApplication | UnheldMessage | NoClaim | OtherGroup | NotAuthored | NoMembership | OtherMembership | PastFinalCut
  | NotAWelcome | OtherPackage | OtherProtocol | BadGroupId | OtherCommit | WelcomeUnsigned | MalformedCut | CutNotMovedTo | AddRefPanic | NotInTree | NoPendingCommit

text \<open>A commit's authenticated data.\<close>

record aad =
  aa_invite :: "bytes option"
  aa_left :: "bytes list"
  aa_moved :: "msg_ref list"
  aa_time :: nat

text \<open>What serde encodes and decodes, a parameter.\<close>

record codec =
  settings_to :: "settings \<Rightarrow> bytes"
  settings_from :: "bytes \<Rightarrow> settings option"
  leaf_to :: "leaf \<Rightarrow> bytes"
  leaf_from :: "bytes \<Rightarrow> leaf option"
  aad_to :: "aad \<Rightarrow> bytes"
  aad_from :: "bytes \<Rightarrow> aad option"
  cut_to :: "msg_ref list \<Rightarrow> bytes"
  claim_to :: "claim \<Rightarrow> bytes"
  claim_from :: "bytes \<Rightarrow> claim option"
  header_from :: "bytes \<Rightarrow> header option"

definition MAX_INNER :: nat where "MAX_INNER = 2 ^ 20 - 45"
definition ADDRESS_LABEL :: bytes where "ADDRESS_LABEL = lit ''letmeknow epoch log address v1''"
definition SEALING_LABEL :: bytes where "SEALING_LABEL = lit ''letmeknow epoch log sealing v1''"
definition ENVELOPE_DOMAIN :: bytes where "ENVELOPE_DOMAIN = lit ''letmeknow epoch envelope v1'' @ [0]"

definition service_key :: "crypto \<Rightarrow> settings \<Rightarrow> group_error + bytes" where
  "service_key C s =
     (case s_membership s of
        NewerService _ \<Rightarrow> Inl UnsupportedService
      | Serve key _ _ \<Rightarrow>
          rbind (ensure (length key = 32) BadServiceKey) (\<lambda>_.
          rbind (ensure (ed_key C key) BadServiceKey) (\<lambda>_.
          rbind (ensure (\<not> ed_weak C key) WeakServiceKey) (\<lambda>_. Inr key))))"

definition context_extensions :: "codec \<Rightarrow> settings \<Rightarrow> extension list" where
  "context_extensions K s = [RequiredCapabilities [SETTINGS_EXTENSION, LEAF_EXTENSION], UnknownExtension SETTINGS_EXTENSION (settings_to K s)]"

definition leaf_extensions :: "codec \<Rightarrow> leaf \<Rightarrow> extension list" where
  "leaf_extensions K l = [UnknownExtension LEAF_EXTENSION (leaf_to K l)]"

fun unknown_extension :: "extension list \<Rightarrow> nat \<Rightarrow> bytes option" where
  "unknown_extension [] t = None"
| "unknown_extension (UnknownExtension u b # es) t = (if u = t then Some b else unknown_extension es t)"
| "unknown_extension (_ # es) t = unknown_extension es t"

definition settings_of :: "codec \<Rightarrow> extension list \<Rightarrow> group_error + settings" where
  "settings_of K es = rbind (context_of (unknown_extension es SETTINGS_EXTENSION) NoSettings) (\<lambda>b. context_of (settings_from K b) BadSettings)"

definition leaf_of :: "codec \<Rightarrow> extension list \<Rightarrow> leaf option" where
  "leaf_of K es = (case unknown_extension es LEAF_EXTENSION of None \<Rightarrow> None | Some b \<Rightarrow> leaf_from K b)"

section \<open>The envelope\<close>

text \<open>\<open>settings()\<close> expects what every epoch's check ensured: its panic is the error of \<open>settings_of\<close>.\<close>

definition epoch_context :: "crypto \<Rightarrow> codec \<Rightarrow> mls \<Rightarrow> group_error + bytes \<times> bytes" where
  "epoch_context C K m =
     rbind (settings_of K (ml_extensions m)) (\<lambda>s.
     rbind (service_key C s) (\<lambda>service. Inr (service, ml_group_id m @ to_be 8 (ml_epoch m) @ service)))"

definition capability_of :: "crypto \<Rightarrow> codec \<Rightarrow> mls \<Rightarrow> group_error + bytes" where
  "capability_of C K m = rbind (epoch_context C K m) (\<lambda>(_, context). Inr (ml_export m ADDRESS_LABEL context 32))"

text \<open>\<open>usize::next_power_of_two\<close>: powers of two from \<open>p\<close> on, until one is at least \<open>n\<close>.\<close>

function next_power :: "nat \<Rightarrow> nat \<Rightarrow> nat" where
  "next_power p n = (if n \<le> p \<or> p = 0 then p else next_power (2 * p) n)"
  by auto
termination by (relation "measure (\<lambda>(p, n). n - p)") auto

declare next_power.simps [simp del]

definition bucket_of :: "nat \<Rightarrow> nat" where
  "bucket_of sz = max (next_power 1 (sz + 45)) 1024"

text \<open>The key and the associated data of an envelope of \<open>bucket\<close> bytes in this epoch.\<close>

definition envelope_ad :: "crypto \<Rightarrow> codec \<Rightarrow> mls \<Rightarrow> nat \<Rightarrow> group_error + bytes \<times> bytes" where
  "envelope_ad C K m bucket =
     rbind (epoch_context C K m) (\<lambda>(service, context).
     rbind (capability_of C K m) (\<lambda>capability.
       Inr (ml_export m SEALING_LABEL context 32,
            ENVELOPE_DOMAIN @ context @ reference_of C service capability @ to_be 4 bucket)))"

definition padded :: "bytes \<Rightarrow> bytes" where
  "padded inner = to_be 4 (length inner) @ inner @ replicate (bucket_of (length inner) - 45 - length inner) 0"

definition seal_entry :: "crypto \<Rightarrow> codec \<Rightarrow> mls \<Rightarrow> bytes \<Rightarrow> bytes \<Rightarrow> group_error + bytes" where
  "seal_entry C K m nonce inner =
     rbind (ensure (length inner \<le> MAX_INNER) EnvelopeTooLarge) (\<lambda>_.
     rbind (map_error BadEntry (entry_parse inner)) (\<lambda>_.
     rbind (envelope_ad C K m (bucket_of (length inner))) (\<lambda>(key, ad).
       Inr ([1] @ nonce @ aead_seal_ad C key nonce ad (padded inner)))))"

definition open_entry :: "crypto \<Rightarrow> codec \<Rightarrow> mls \<Rightarrow> bytes \<Rightarrow> group_error + bytes" where
  "open_entry C K m wire =
     (let bucket = length wire
      in rbind (ensure (1024 \<le> bucket \<and> bucket \<le> 2 ^ 20 \<and> next_power 1 bucket = bucket) BadBucket) (\<lambda>_.
         rbind (ensure (wire ! 0 = 1) BadVersion) (\<lambda>_.
         rbind (envelope_ad C K m bucket) (\<lambda>(key, ad).
         rbind (context_of (aead_open_ad C key (take 24 (drop 1 wire)) ad (drop 25 wire)) BadSeal) (\<lambda>plain.
         (let sz = from_be (take 4 plain)
          in rbind (ensure (sz \<le> length plain - 4) BadInnerLength) (\<lambda>_.
             rbind (ensure (bucket_of sz = bucket) NoncanonicalBucket) (\<lambda>_.
             rbind (ensure (list_all (\<lambda>b. b = 0) (drop (4 + sz) plain)) NonzeroPadding) (\<lambda>_.
             (let inner = take sz (drop 4 plain)
              in rbind (map_error BadEntry (entry_parse inner)) (\<lambda>_. Inr inner)))))))))))"

section \<open>Round trip\<close>

lemma next_power_spec:
  assumes "0 < p"
  shows "\<exists>k. next_power p n = p * 2 ^ k \<and> n \<le> p * 2 ^ k \<and> (\<forall>j. n \<le> p * 2 ^ j \<longrightarrow> k \<le> j)"
  using assms
proof (induction p n rule: next_power.induct)
  case (1 p n)
  show ?case
  proof (cases "n \<le> p")
    case True
    then show ?thesis by (intro exI [of _ 0]) (simp add: next_power.simps [of p n])
  next
    case False
    then obtain k where k: "next_power (2 * p) n = 2 * p * 2 ^ k" "n \<le> 2 * p * 2 ^ k" "\<forall>j. n \<le> 2 * p * 2 ^ j \<longrightarrow> k \<le> j"
      using 1 by auto
    have "Suc k \<le> j" if "n \<le> p * 2 ^ j" for j
      using that False k(3) by (cases j) (auto simp: mult.assoc mult.left_commute)
    then show ?thesis using k False "1.prems" by (intro exI [of _ "Suc k"]) (simp add: next_power.simps [of p n] mult.assoc mult.left_commute)
  qed
qed

text \<open>A bucket is the least power of two from 1024 on that an entry fits.\<close>

lemma bucket_spec:
  obtains k where "bucket_of sz = 2 ^ k" "10 \<le> k" "sz + 45 \<le> 2 ^ k" "\<forall>j. sz + 45 \<le> 2 ^ j \<longrightarrow> 10 \<le> j \<longrightarrow> k \<le> j"
proof -
  obtain k where k: "next_power 1 (sz + 45) = 2 ^ k" "sz + 45 \<le> 2 ^ k" "\<forall>j. sz + 45 \<le> 2 ^ j \<longrightarrow> k \<le> j"
    using next_power_spec [of 1 "sz + 45"] by auto
  show ?thesis
  proof (cases "10 \<le> k")
    case True
    then have "(2 :: nat) ^ 10 \<le> 2 ^ k" by (intro power_increasing) auto
    then show ?thesis using that [of k] True k by (simp add: bucket_of_def max_def)
  next
    case False
    then have "(2 :: nat) ^ k \<le> 2 ^ 10" by (intro power_increasing) auto
    then show ?thesis using that [of 10] k by (simp add: bucket_of_def max_def)
  qed
qed

lemma length_padded:
  assumes "sz = length inner"
  shows "length (padded inner) = bucket_of sz - 41"
proof -
  obtain k where "bucket_of sz = 2 ^ k" "sz + 45 \<le> 2 ^ k" using bucket_spec [of sz] by metis
  then show ?thesis using assms by (simp add: padded_def)
qed

lemma bucket_bounds: "sz \<le> MAX_INNER \<Longrightarrow> 1024 \<le> bucket_of sz \<and> bucket_of sz \<le> 2 ^ 20 \<and> sz + 45 \<le> bucket_of sz"
proof -
  assume sz: "sz \<le> MAX_INNER"
  obtain k where k: "bucket_of sz = 2 ^ k" "10 \<le> k" "sz + 45 \<le> 2 ^ k" "\<forall>j. sz + 45 \<le> 2 ^ j \<longrightarrow> 10 \<le> j \<longrightarrow> k \<le> j"
    using bucket_spec [of sz] .
  have "k \<le> 20" using k(4) [rule_format, of 20] sz by (simp add: MAX_INNER_def)
  then have "(2 :: nat) ^ k \<le> 2 ^ 20" "(2 :: nat) ^ 10 \<le> 2 ^ k" using k(2) by (intro power_increasing; simp)+
  then show ?thesis using k by simp
qed

lemma next_power_pow2: "next_power 1 (2 ^ k) = 2 ^ k"
proof -
  obtain j where j: "next_power 1 (2 ^ k) = 2 ^ j" "(2 :: nat) ^ k \<le> 2 ^ j" "\<forall>i. (2 :: nat) ^ k \<le> 2 ^ i \<longrightarrow> j \<le> i"
    using next_power_spec [of 1 "2 ^ k"] by auto
  then show ?thesis by (simp add: antisym)
qed

lemma next_power_bucket: "next_power 1 (bucket_of sz) = bucket_of sz"
  by (rule bucket_spec [of sz]) (metis next_power_pow2)

text \<open>What opens is in canonical form, and what is sealed opens.\<close>

lemma open_entry_canonical:
  "open_entry C K m wire = Inr inner \<Longrightarrow> length wire = bucket_of (length inner) \<and> (\<exists>e. entry_parse inner = Inr e)"
  by (auto simp: open_entry_def Let_def result_simps split: prod.splits)

lemma seal_entry_opens:
  assumes "aead_ad_law C" "length nonce = 24" "seal_entry C K m nonce inner = Inr wire"
  shows "open_entry C K m wire = Inr inner" "length wire = bucket_of (length inner)"
proof -
  let ?b = "bucket_of (length inner)"
  obtain e key ad where s: "length inner \<le> MAX_INNER" "entry_parse inner = Inr e" "envelope_ad C K m ?b = Inr (key, ad)"
      "wire = [1] @ nonce @ aead_seal_ad C key nonce ad (padded inner)"
    using assms(3) by (auto simp: seal_entry_def result_simps)
  note b = bucket_bounds [OF s(1)] and p = length_padded [of "length inner" inner, OF refl]
  show wire: "length wire = ?b" using assms(1,2) b p s(4) by (simp add: aead_ad_law_def)
  have parts: "wire ! 0 = 1" "take 24 (drop 1 wire) = nonce" "drop 25 wire = aead_seal_ad C key nonce ad (padded inner)"
    using assms(2) s(4) by simp_all
  have "length inner < 256 ^ 4" using s(1) by (simp add: MAX_INNER_def)
  then have plain: "from_be (take 4 (padded inner)) = length inner" "take (length inner) (drop 4 (padded inner)) = inner"
      "list_all (\<lambda>b. b = 0) (drop (4 + length inner) (padded inner))"
    by (simp_all add: padded_def from_to_be list_all_iff)
  have "length inner \<le> length (padded inner) - 4" using b p by linarith
  then show "open_entry C K m wire = Inr inner"
    unfolding open_entry_def Let_def wire parts using b s(2,3) assms(1) plain next_power_bucket [of "length inner"]
    by (simp add: aead_ad_law_def)
qed

text \<open>
  C30. An envelope opens to exactly the entry sealed in it, in the epoch it was sealed in, and shows of the
  entry's length only its bucket: it is as long as the least power of two, 1024 or more, that is 45 bytes
  longer than the entry or more, and never over 1 MiB. What opens is in that canonical form.
\<close>

theorem envelope_round_trip:
  assumes "aead_ad_law C" and "epoch_context C K m = Inr x" and "length nonce = 24"
    and "length inner \<le> MAX_INNER" and "entry_parse inner = Inr e"
  shows "\<exists>wire. seal_entry C K m nonce inner = Inr wire \<and> open_entry C K m wire = Inr inner \<and>
    (\<exists>k. 10 \<le> k \<and> k \<le> 20 \<and> length wire = 2 ^ k \<and> length inner + 45 \<le> 2 ^ k \<and> (k = 10 \<or> 2 ^ (k - 1) < length inner + 45)) \<and>
    (\<forall>wire' inner'. open_entry C K m wire' = Inr inner' \<longrightarrow> length wire' = bucket_of (length inner') \<and> (\<exists>e. entry_parse inner' = Inr e))"
proof -
  obtain wire where seal: "seal_entry C K m nonce inner = Inr wire"
    using assms(2,4,5) by (cases x) (simp add: seal_entry_def envelope_ad_def capability_of_def)
  note opens = seal_entry_opens [OF assms(1,3) seal]
  obtain k where k: "bucket_of (length inner) = 2 ^ k" "10 \<le> k" "length inner + 45 \<le> 2 ^ k" "\<forall>j. length inner + 45 \<le> 2 ^ j \<longrightarrow> 10 \<le> j \<longrightarrow> k \<le> j"
    using bucket_spec [of "length inner"] .
  have least: "k = 10 \<or> 2 ^ (k - 1) < length inner + 45"
  proof (rule ccontr)
    assume "\<not> (k = 10 \<or> 2 ^ (k - 1) < length inner + 45)"
    then have "k \<le> k - 1" using k(2) by (intro k(4) [rule_format]) linarith+
    then show False using k(2) by simp
  qed
  have "k \<le> 20" using bucket_bounds [OF assms(4)] k(1) by (metis power_le_imp_le_exp one_less_numeral_iff semiring_norm(76))
  then have "\<exists>k. 10 \<le> k \<and> k \<le> 20 \<and> length wire = 2 ^ k \<and> length inner + 45 \<le> 2 ^ k \<and> (k = 10 \<or> 2 ^ (k - 1) < length inner + 45)"
    unfolding opens(2) using k(1-3) least by blast
  then show ?thesis using seal opens(1) open_entry_canonical by blast
qed

definition toy_codec :: codec where
  "toy_codec = \<lparr> settings_to = (\<lambda>_. []),
     settings_from = (\<lambda>_. Some \<lparr> s_protocol = PROTOCOL, s_carry = 30, s_update = 86400, s_membership = Serve (replicate 32 5) [] [],
       s_admins = [[1]], s_admitted = [] \<rparr>),
     leaf_to = (\<lambda>_. []), leaf_from = (\<lambda>_. None), aad_to = (\<lambda>_. []), aad_from = (\<lambda>_. None), cut_to = (\<lambda>_. []), claim_to = (\<lambda>_. []), claim_from = (\<lambda>_. None), header_from = (\<lambda>_. None) \<rparr>"

definition toy_mls :: mls where
  "toy_mls = \<lparr> ml_group_id = replicate 16 7, ml_epoch = 3, ml_extensions = [UnknownExtension SETTINGS_EXTENSION []],
     ml_leaves = [(0, \<lparr> ln_key = [1], ln_credential = [1], ln_encryption = [], ln_extensions = [] \<rparr>)], ml_own = 0, ml_active = True,
     ml_pending = None, ml_aad = [], ml_secrets = [], ml_export = (\<lambda>l c n. replicate n 0) \<rparr>"

lemma toy_epoch_context: "\<exists>x. epoch_context toy_crypto toy_codec toy_mls = Inr x"
  by (simp add: epoch_context_def settings_of_def toy_mls_def toy_codec_def service_key_def toy_crypto_def)

theorem envelope_round_trip_witness:
  "\<exists>wire. seal_entry toy_crypto toy_codec toy_mls (replicate 24 9) (entry_encode \<lparr> commit = [3], sig = replicate 64 0 \<rparr>) = Inr wire \<and>
    open_entry toy_crypto toy_codec toy_mls wire = Inr (entry_encode \<lparr> commit = [3], sig = replicate 64 0 \<rparr>)"
proof -
  let ?inner = "entry_encode \<lparr> commit = [3], sig = replicate 64 0 \<rparr>"
  obtain x where x: "epoch_context toy_crypto toy_codec toy_mls = Inr x" using toy_epoch_context by blast
  have i: "length ?inner \<le> MAX_INNER" "entry_parse ?inner = Inr \<lparr> commit = [3], sig = replicate 64 0 \<rparr>"
    by (simp_all add: entry_encode_def MAX_INNER_def COMMIT_def entry_parse_def take_bytes_def from_to_be)
  show ?thesis using envelope_round_trip [OF toy_aead_ad_law x _ i, of "replicate 24 9"] by auto
qed

end
