(* ===== verification/Group.thy ===== *)
theory Group
  imports Envelope
begin

text \<open>
  A group as its members commit to it (\<open>crates/core/src/group.rs\<close>): the rules a commit keeps, judging and
  applying the log's entries, the cut state, and sealing and opening held messages. openmls and serde are the
  parameters \<open>A\<close> and \<open>K\<close>; the in-memory MLS state is the stored one, so a savepoint rolled back restores it.
  Times, the nonce and the new group's id are arguments.
\<close>

section \<open>State\<close>

record core_member =
  cm_index :: nat
  cm_key :: bytes
  cm_leaf :: "leaf option"

record welcome_admission =
  wa_welcome :: bytes
  wa_cut :: "msg_ref list"
  wa_sig :: bytes

record posted =
  po_inner :: bytes
  po_wire :: bytes
  po_add_refs :: "bytes list"
  po_admission :: "welcome_admission option"

record added_record =
  ad_member :: bytes
  ad_invite :: bytes
  ad_epoch :: nat
  ad_ref :: bytes
  ad_at :: nat

record group_state =
  gs_posted :: "posted option"
  gs_aad :: aad
  gs_added :: "added_record list"
  gs_cut :: "msg_ref list"
  gs_ended :: "msg_ref list"

record core_group =
  gr_mls :: mls
  gr_state :: group_state

record change =
  ch_add :: "bytes list"
  ch_invite :: "bytes option"
  ch_remove :: "nat list"
  ch_left :: "bytes list"
  ch_leaf :: "leaf option"
  ch_settings :: "settings option"
  ch_cut :: "msg_ref list"

datatype verdict = CommitVerdict bool nat | CopiedVerdict | SkippedVerdict group_error

record applied =
  ap_by :: nat
  ap_own :: bool
  ap_added :: "core_member list"
  ap_removed :: "core_member list"
  ap_gone :: bool
  ap_updated :: bool
  ap_cut :: "msg_ref list"
  ap_admission :: "welcome_admission option"

datatype staged_entry = StagedCommit staged nat aad | StagedCopied

record opened =
  op_id :: bytes
  op_epoch :: nat
  op_header :: header
  op_plaintext :: bytes

definition MAX_CUT_STEP :: nat where "MAX_CUT_STEP = 100000"
definition FRAMING :: nat where "FRAMING = 1024"

definition empty_aad :: aad where
  "empty_aad = \<lparr> aa_invite = None, aa_left = [], aa_moved = [], aa_time = 0 \<rparr>"

definition default_state :: group_state where
  "default_state = \<lparr> gs_posted = None, gs_aad = empty_aad, gs_added = [], gs_cut = [], gs_ended = [] \<rparr>"

definition cut_start :: "bytes \<Rightarrow> nat \<Rightarrow> msg_ref" where
  "cut_start key joined = \<lparr> r_key = key, r_joined = joined, r_seq = 0, r_id = [], r_epoch = 0 \<rparr>"

text \<open>The derived order of \<open>Ref\<close>, by its fields.\<close>

definition ref_order :: "msg_ref \<Rightarrow> bytes \<times> nat \<times> u64 \<times> bytes \<times> nat" where
  "ref_order r = (r_key r, r_joined r, r_seq r, r_id r, r_epoch r)"

section \<open>Members and who may do what\<close>

definition member_of :: "codec \<Rightarrow> mls \<Rightarrow> nat \<Rightarrow> core_member option" where
  "member_of K m index = map_option (\<lambda>ln. \<lparr> cm_index = index, cm_key = ln_key ln, cm_leaf = leaf_of K (ln_extensions ln) \<rparr>) (member_at m index)"

definition members_of :: "codec \<Rightarrow> mls \<Rightarrow> core_member list" where
  "members_of K m = List.map_filter (member_of K m \<circ> fst) (ml_leaves m)"

definition leaf_device :: "crypto \<Rightarrow> bytes \<Rightarrow> leaf option \<Rightarrow> device option" where
  "leaf_device C key l = (case l of None \<Rightarrow> None | Some l \<Rightarrow> device_of C l key)"

definition admin :: "crypto \<Rightarrow> settings \<Rightarrow> bytes \<Rightarrow> leaf option \<Rightarrow> bool" where
  "admin C s key l \<longleftrightarrow> key \<in> set (s_admins s) \<or> (case leaf_device C key l of None \<Rightarrow> False | Some d \<Rightarrow> dv_key d \<in> set (s_admins s))"

definition admits :: "crypto \<Rightarrow> settings \<Rightarrow> bytes \<Rightarrow> leaf option \<Rightarrow> bool" where
  "admits C s key l \<longleftrightarrow> (case leaf_device C key l of None \<Rightarrow> False | Some d \<Rightarrow> dv_key d \<in> set (s_admitted s) \<or> dv_key d \<in> set (s_admins s))"

definition find_cut :: "msg_ref list \<Rightarrow> bytes \<Rightarrow> msg_ref option" where
  "find_cut cuts key = List.find (\<lambda>r. r_key r = key) cuts"

definition left_by :: "crypto \<Rightarrow> bytes \<Rightarrow> msg_ref list \<Rightarrow> bytes \<Rightarrow> bytes \<Rightarrow> bool" where
  "left_by C gid cuts key sg = (case find_cut cuts key of None \<Rightarrow> False | Some r \<Rightarrow> verify_ed C key (LEAVE @ gid @ to_be 8 (r_joined r)) sg)"

definition group_joined :: "core_group \<Rightarrow> bytes \<Rightarrow> nat option" where
  "group_joined g key = map_option r_joined (find_cut (gs_cut (gr_state g)) key)"

definition group_settings :: "codec \<Rightarrow> core_group \<Rightarrow> group_error + settings" where
  "group_settings K g = settings_of K (ml_extensions (gr_mls g))"

definition group_admin :: "crypto \<Rightarrow> codec \<Rightarrow> core_group \<Rightarrow> bytes \<Rightarrow> group_error + bool" where
  "group_admin C K g key =
     (let l = (case List.find (\<lambda>m. cm_key m = key) (members_of K (gr_mls g)) of None \<Rightarrow> None | Some m \<Rightarrow> cm_leaf m)
      in rbind (group_settings K g) (\<lambda>s. Inr (admin C s key l)))"

definition group_admits :: "crypto \<Rightarrow> codec \<Rightarrow> core_group \<Rightarrow> bytes \<Rightarrow> leaf option \<Rightarrow> group_error + bool" where
  "group_admits C K g key l = rbind (group_settings K g) (\<lambda>s. Inr (admits C s key l))"

definition group_leave :: "crypto \<Rightarrow> core_group \<Rightarrow> bytes \<Rightarrow> group_error + bytes" where
  "group_leave C g sk =
     rbind (context_of (group_joined g (ed_public C sk)) NotAMember) (\<lambda>j. Inr (ed_sign C sk (LEAVE @ ml_group_id (gr_mls g) @ to_be 8 j)))"

definition group_left :: "crypto \<Rightarrow> core_group \<Rightarrow> bytes \<Rightarrow> bytes \<Rightarrow> bool" where
  "group_left C g key sg = left_by C (ml_group_id (gr_mls g)) (gs_cut (gr_state g)) key sg"

definition group_posted :: "core_group \<Rightarrow> bytes option" where
  "group_posted g = map_option po_wire (gs_posted (gr_state g))"

definition group_unchanged :: "mls_api \<Rightarrow> core_group \<Rightarrow> bytes \<Rightarrow> group_error + bool" where
  "group_unchanged A g kp =
     rbind (context_of (api_key_package A kp) BadKeyPackage) (\<lambda>kp.
       Inr (case List.find (\<lambda>e. ln_key (snd e) = ln_key (kp_leaf kp)) (ml_leaves (gr_mls g)) of
              None \<Rightarrow> False
            | Some e \<Rightarrow> (case member_at (gr_mls g) (fst e) of None \<Rightarrow> False | Some ours \<Rightarrow> ln_encryption ours = ln_encryption (kp_leaf kp))))"

definition forget_added :: "(added_record \<Rightarrow> bool) \<Rightarrow> core_group \<Rightarrow> core_group" where
  "forget_added keep g = g\<lparr> gr_state := (gr_state g)\<lparr> gs_added := filter keep (gs_added (gr_state g)) \<rparr> \<rparr>"

definition invite_used :: "core_group \<Rightarrow> bytes \<Rightarrow> bool" where
  "invite_used g hash = list_ex (\<lambda>a. ad_invite a = hash) (gs_added (gr_state g))"

section \<open>The rules of a commit\<close>

definition names_its_key :: "leaf_node \<Rightarrow> bytes \<Rightarrow> bool" where
  "names_its_key ln key \<longleftrightarrow> ln_credential ln = key"

definition well_formed :: "msg_ref \<Rightarrow> bool" where
  "well_formed r \<longleftrightarrow> length (r_id r) = (if r_seq r = 0 then 0 else 32)"

definition fixed_settings :: "settings \<Rightarrow> nat \<times> nat \<times> nat \<times> log_service" where
  "fixed_settings s = (s_protocol s, s_carry s, s_update s, s_membership s)"

definition removed_keys :: "mls \<Rightarrow> staged \<Rightarrow> bytes list" where
  "removed_keys m st = map ln_key (List.map_filter (member_at m) (remove_proposals st))"

definition check_proposal ::
  "crypto \<Rightarrow> codec \<Rightarrow> mls \<Rightarrow> staged \<Rightarrow> settings \<Rightarrow> bool \<Rightarrow> aad \<Rightarrow> msg_ref list \<Rightarrow> bool \<times> proposal \<Rightarrow> group_error + unit" where
  "check_proposal C K m st s adm aad cuts p =
     rbind (ensure (fst p) ByReference) (\<lambda>_.
       case snd p of
         AddProposal kp \<Rightarrow>
           (let ln = kp_leaf kp; key = ln_key ln
            in rbind (ensure (names_its_key ln key) CredentialNamesAnother) (\<lambda>_.
               rbind (ensure (key \<notin> set (removed_keys m st)) AddsRemoved) (\<lambda>_.
               ensure (adm \<or> admits C s key (leaf_of K (ln_extensions ln))) AddNotAdmitted)))
       | RemoveProposal index \<Rightarrow>
           rbind (context_of (member_at m index) RemoveOfNone) (\<lambda>ln.
             ensure (adm \<or> list_ex (left_by C (ml_group_id m) cuts (ln_key ln)) (aa_left aad)) RemoveUnsigned)
       | ContextProposal \<Rightarrow>
           rbind (ensure adm SettingsByNoAdmin) (\<lambda>_.
           rbind (settings_of K (sc_extensions st)) (\<lambda>new.
           rbind (ensure (sc_extensions st = context_extensions K new) OtherExtensions) (\<lambda>_.
           rbind (ensure (fixed_settings new = fixed_settings s) FixedSettings) (\<lambda>_.
           ensure (s_admins new \<noteq> []) NoAdminLeft))))
       | OtherProposal _ \<Rightarrow> Inl OtherProposalKind)"

definition check_moved :: "msg_ref list \<Rightarrow> msg_ref \<Rightarrow> group_error + unit" where
  "check_moved cuts new =
     rbind (context_of (List.find (\<lambda>old. r_key old = r_key new \<and> r_joined old = r_joined new) cuts) CutOfNoMember) (\<lambda>old.
     rbind (ensure (well_formed new) CutMalformed) (\<lambda>_.
     rbind (ensure (r_seq new > r_seq old) CutBelow) (\<lambda>_.
     ensure (unat (r_seq new - r_seq old) \<le> MAX_CUT_STEP) CutTooFar)))"

definition check_path :: "mls \<Rightarrow> nat \<Rightarrow> staged \<Rightarrow> group_error + unit" where
  "check_path m by st =
     (case sc_path st of
        None \<Rightarrow> Inr ()
      | Some ln \<Rightarrow>
          rbind (context_of (member_at m by) NotAMember) (\<lambda>mem.
          rbind (ensure (ln_key ln = ln_key mem) PathChangesKey) (\<lambda>_.
          ensure (names_its_key ln (ln_key mem)) CredentialNamesAnother)))"

definition rules :: "crypto \<Rightarrow> codec \<Rightarrow> mls \<Rightarrow> staged \<Rightarrow> nat \<Rightarrow> aad \<Rightarrow> msg_ref list \<Rightarrow> group_error + unit" where
  "rules C K m st by aad cuts =
     rbind (settings_of K (ml_extensions m)) (\<lambda>s.
     rbind (context_of (member_of K m by) NotAMember) (\<lambda>committer.
     (let adm = admin C s (cm_key committer) (cm_leaf committer)
      in rbind (each (check_proposal C K m st s adm aad cuts) (sc_proposals st)) (\<lambda>_.
         rbind (ensure ((aa_invite aad \<noteq> None) = (add_proposals st \<noteq> [])) InviteMismatch) (\<lambda>_.
         rbind (ensure (successively (\<lambda>a b. r_key a < r_key b) (aa_moved aad)) CutDisorder) (\<lambda>_.
         rbind (each (check_moved cuts) (aa_moved aad)) (\<lambda>_.
         check_path m by st)))))))"

section \<open>Judging and applying\<close>

text \<open>\<open>guarded\<close>: what \<open>f\<close> did is kept only if \<open>keep\<close> says so of its result.\<close>

definition guarded :: "(group_error + 'a \<Rightarrow> bool) \<Rightarrow> (core_group \<Rightarrow> (group_error + 'a) \<times> core_group) \<Rightarrow> core_group \<Rightarrow> (group_error + 'a) \<times> core_group" where
  "guarded keep f g = (let (r, g') = f g in if keep r then (r, g') else (r, g))"

fun is_ok :: "'e + 'a \<Rightarrow> bool" where
  "is_ok (Inl _) = False"
| "is_ok (Inr _) = True"

fun protocol_content :: "mls_body \<Rightarrow> content_type option" where
  "protocol_content (PrivateMessage ct _ _ _) = Some ct"
| "protocol_content (PublicMessage ct) = Some ct"
| "protocol_content _ = None"

definition stage_processed ::
  "crypto \<Rightarrow> codec \<Rightarrow> core_group \<Rightarrow> bytes \<Rightarrow> bytes \<Rightarrow> processed \<Rightarrow> group_error + staged_entry" where
  "stage_processed C K g c sg pr =
     rbind (context_of (aad_from K (pr_aad pr)) BadAad) (\<lambda>aad.
     rbind (case pr_sender pr of MemberSender by \<Rightarrow> Inr by | OtherSender \<Rightarrow> Inl NotFromMember) (\<lambda>by.
     rbind (context_of (member_at (gr_mls g) by) NotFromMember) (\<lambda>ln.
     (let signed = verify_ed C (ln_key ln) (commit_signed c) sg
      in case pr_content pr of
           OwnPrivateMessage \<Rightarrow> if signed then Inr StagedCopied else Inl OwnUnsigned
         | StagedCommitMessage st \<Rightarrow>
             rbind (ensure signed EntryUnsigned) (\<lambda>_.
             rbind (rules C K (gr_mls g) st by aad (gs_cut (gr_state g))) (\<lambda>_. Inr (StagedCommit st by aad)))
         | _ \<Rightarrow> Inl NotACommit))))"

definition stage :: "crypto \<Rightarrow> codec \<Rightarrow> mls_api \<Rightarrow> bytes \<Rightarrow> bytes \<Rightarrow> core_group \<Rightarrow> (group_error + staged_entry) \<times> core_group" where
  "stage C K A c sg g =
     (case (case api_parse A c of None \<Rightarrow> None | Some b \<Rightarrow> protocol_content b) of
        None \<Rightarrow> (Inl NotProtocolMessage, g)
      | Some ct \<Rightarrow>
          if ct \<noteq> CommitContent then (Inl NotACommit, g)
          else
            let (r, secrets) = api_process A (gr_mls g) c; g = g\<lparr> gr_mls := (gr_mls g)\<lparr> ml_secrets := secrets \<rparr> \<rparr>
            in (case r of Inl _ \<Rightarrow> Inl ProcessFailed | Inr pr \<Rightarrow> stage_processed C K g c sg pr, g))"

fun add_records :: "nat \<Rightarrow> bytes \<Rightarrow> nat \<Rightarrow> bytes list option \<Rightarrow> key_package list \<Rightarrow> group_error + added_record list" where
  "add_records now invite epoch refs [] = Inr []"
| "add_records now invite epoch refs (kp # kps) =
     rbind (case refs of None \<Rightarrow> Inr (kp_ref kp, None) | Some [] \<Rightarrow> Inl AddRefPanic | Some (r # rs) \<Rightarrow> Inr (r, Some rs)) (\<lambda>(r, rs).
     rbind (add_records now invite epoch rs kps) (\<lambda>records.
       Inr (\<lparr> ad_member = ln_key (kp_leaf kp), ad_invite = invite, ad_epoch = epoch, ad_ref = r, ad_at = now \<rparr> # records)))"

fun replace_cut :: "msg_ref \<Rightarrow> msg_ref list \<Rightarrow> msg_ref list" where
  "replace_cut new [] = []"
| "replace_cut new (r # rs) = (if r_key r = r_key new then new # rs else r # replace_cut new rs)"

definition observe ::
  "codec \<Rightarrow> nat \<Rightarrow> mls \<Rightarrow> group_state \<Rightarrow> staged \<Rightarrow> nat \<Rightarrow> aad \<Rightarrow> bool \<Rightarrow> group_error + applied \<times> group_state" where
  "observe K now m gs st by aad own =
     (let removed = List.map_filter (member_of K m) (remove_proposals st);
          added = map (\<lambda>kp. \<lparr> cm_index = 0, cm_key = ln_key (kp_leaf kp), cm_leaf = leaf_of K (ln_extensions (kp_leaf kp)) \<rparr>) (add_proposals st);
          refs = (if own then Some (case gs_posted gs of None \<Rightarrow> [] | Some p \<Rightarrow> po_add_refs p) else None)
      in rbind (case aa_invite aad of
                  None \<Rightarrow> Inr []
                | Some invite \<Rightarrow> add_records now invite (sc_epoch st) refs (add_proposals st)) (\<lambda>records.
         Inr (\<lparr> ap_by = by, ap_own = own, ap_added = added, ap_removed = removed, ap_gone = sc_self_removed st,
                ap_updated = (sc_path st \<noteq> None), ap_cut = foldl (\<lambda>cuts new. replace_cut new cuts) (gs_cut gs) (aa_moved aad),
                ap_admission = None \<rparr>,
              gs\<lparr> gs_added := gs_added gs @ records \<rparr>)))"

fun reindex :: "core_member list \<Rightarrow> core_member list \<Rightarrow> group_error + core_member list" where
  "reindex ms [] = Inr []"
| "reindex ms (a # as) =
     rbind (context_of (List.find (\<lambda>m. cm_key m = cm_key a) ms) NotInTree) (\<lambda>m.
     rbind (reindex ms as) (\<lambda>as. Inr (a\<lparr> cm_index := cm_index m \<rparr> # as)))"

definition next_cut :: "core_member list \<Rightarrow> nat \<Rightarrow> msg_ref list \<Rightarrow> core_member list \<Rightarrow> msg_ref list" where
  "next_cut ms epoch cuts added =
     sort_key ref_order (filter (\<lambda>r. list_ex (\<lambda>m. cm_key m = r_key r) ms) cuts @ map (\<lambda>m. cut_start (cm_key m) epoch) added)"

definition merged :: "codec \<Rightarrow> applied \<Rightarrow> core_group \<Rightarrow> (group_error + applied) \<times> core_group" where
  "merged K a g =
     (let ms = members_of K (gr_mls g)
      in case reindex ms (ap_added a) of
           Inl e \<Rightarrow> (Inl e, g)
         | Inr added \<Rightarrow>
             let a = a\<lparr> ap_added := added \<rparr>
             in (Inr a, g\<lparr> gr_state := (gr_state g)\<lparr> gs_cut := next_cut ms (ml_epoch (gr_mls g)) (ap_cut a) added, gs_ended := ap_cut a \<rparr> \<rparr>))"

text \<open>Merging a staged commit drops what was pending.\<close>

definition merge_into :: "mls_api \<Rightarrow> staged \<Rightarrow> core_group \<Rightarrow> group_error + core_group" where
  "merge_into A st g =
     (case api_merge A (gr_mls g) st of None \<Rightarrow> Inl MergeFailed | Some m \<Rightarrow> Inr (g\<lparr> gr_mls := m\<lparr> ml_pending := None \<rparr> \<rparr>))"

definition own_entry :: "bytes \<Rightarrow> core_group \<Rightarrow> bool" where
  "own_entry e g = (case gs_posted (gr_state g) of None \<Rightarrow> False | Some p \<Rightarrow> po_inner p = e)"

definition apply_own :: "codec \<Rightarrow> mls_api \<Rightarrow> nat \<Rightarrow> core_group \<Rightarrow> (group_error + applied) \<times> core_group" where
  "apply_own K A now g =
     (case ml_pending (gr_mls g) of
        None \<Rightarrow> (Inl NoPendingCommit, g)
      | Some st \<Rightarrow>
          (case observe K now (gr_mls g) (gr_state g) st (ml_own (gr_mls g)) (gs_aad (gr_state g)) True of
             Inl e \<Rightarrow> (Inl e, g)
           | Inr (a, gs) \<Rightarrow>
               let a = a\<lparr> ap_admission := (case gs_posted gs of None \<Rightarrow> None | Some p \<Rightarrow> po_admission p) \<rparr>;
                   g = g\<lparr> gr_state := gs\<lparr> gs_posted := None \<rparr> \<rparr>
               in (case merge_into A st g of Inl e \<Rightarrow> (Inl e, g) | Inr g \<Rightarrow> merged K a g)))"

definition apply_other :: "crypto \<Rightarrow> codec \<Rightarrow> mls_api \<Rightarrow> nat \<Rightarrow> bytes \<Rightarrow> core_group \<Rightarrow> (group_error + applied) \<times> core_group" where
  "apply_other C K A now e g =
     (case entry_parse e of
        Inl x \<Rightarrow> (Inl (BadEntry x), g)
      | Inr en \<Rightarrow>
          (case stage C K A (commit en) (sig en) g of
             (Inl x, g) \<Rightarrow> (Inl x, g)
           | (Inr StagedCopied, g) \<Rightarrow> (Inl NotToApply, g)
           | (Inr (StagedCommit st by aad), g) \<Rightarrow>
               (case observe K now (gr_mls g) (gr_state g) st by aad False of
                  Inl x \<Rightarrow> (Inl x, g)
                | Inr (a, gs) \<Rightarrow>
                    let g = g\<lparr> gr_state := gs\<lparr> gs_posted := None \<rparr>, gr_mls := (gr_mls g)\<lparr> ml_pending := None \<rparr> \<rparr>
                    in (case merge_into A st g of Inl x \<Rightarrow> (Inl x, g) | Inr g \<Rightarrow> merged K a g))))"

definition apply_entry :: "crypto \<Rightarrow> codec \<Rightarrow> mls_api \<Rightarrow> nat \<Rightarrow> bytes \<Rightarrow> core_group \<Rightarrow> (group_error + applied) \<times> core_group" where
  "apply_entry C K A now wire g =
     (case open_entry C K (gr_mls g) wire of
        Inl e \<Rightarrow> (Inl e, g)
      | Inr e \<Rightarrow> guarded is_ok (\<lambda>g. if own_entry e g then apply_own K A now g else apply_other C K A now e g) g)"

definition drop_posted :: "core_group \<Rightarrow> core_group" where
  "drop_posted g = g\<lparr> gr_state := (gr_state g)\<lparr> gs_posted := None \<rparr>, gr_mls := (gr_mls g)\<lparr> ml_pending := None \<rparr> \<rparr>"

definition judge :: "crypto \<Rightarrow> codec \<Rightarrow> mls_api \<Rightarrow> bytes \<Rightarrow> core_group \<Rightarrow> (group_error + verdict) \<times> core_group" where
  "judge C K A wire g =
     (if \<not> ml_active (gr_mls g) then (Inr (SkippedVerdict RemovedFromGroup), g)
      else case open_entry C K (gr_mls g) wire of
        Inl e \<Rightarrow> (Inr (SkippedVerdict e), g)
      | Inr e \<Rightarrow>
          if own_entry e g then
            (case ml_pending (gr_mls g) of
               None \<Rightarrow> (Inl NoPendingCommit, g)
             | Some st \<Rightarrow>
                 (case rules C K (gr_mls g) st (ml_own (gr_mls g)) (gs_aad (gr_state g)) (gs_cut (gr_state g)) of
                    Inl x \<Rightarrow> (Inr (SkippedVerdict x), drop_posted g)
                  | Inr _ \<Rightarrow> (Inr (CommitVerdict False (aa_time (gs_aad (gr_state g)))), g)))
          else
            (case entry_parse e of
               Inl x \<Rightarrow> (Inr (SkippedVerdict (BadEntry x)), g)
             | Inr en \<Rightarrow>
                 (case guarded (\<lambda>_. False) (stage C K A (commit en) (sig en)) g of
                    (Inr StagedCopied, g) \<Rightarrow> (Inr CopiedVerdict, g)
                  | (Inr (StagedCommit st by aad), g) \<Rightarrow> (Inr (CommitVerdict (sc_self_removed st) (aa_time aad)), g)
                  | (Inl x, g) \<Rightarrow> (Inr (SkippedVerdict x), g))))"

section \<open>Committing\<close>

fun packages_in :: "mls_api \<Rightarrow> bytes list \<Rightarrow> group_error + key_package list" where
  "packages_in A [] = Inr []"
| "packages_in A (b # bs) = rbind (context_of (api_key_package A b) BadKeyPackage) (\<lambda>kp. rbind (packages_in A bs) (\<lambda>kps. Inr (kp # kps)))"

definition welcome_of :: "crypto \<Rightarrow> codec \<Rightarrow> bytes \<Rightarrow> change \<Rightarrow> bytes \<Rightarrow> bytes \<Rightarrow> welcome_admission" where
  "welcome_of C K sk ch e welcome = \<lparr> wa_welcome = welcome, wa_cut = ch_cut ch,
     wa_sig = ed_sign C sk (welcome_signed C e (cut_to K (ch_cut ch)) welcome) \<rparr>"

definition build_commit ::
  "crypto \<Rightarrow> codec \<Rightarrow> mls_api \<Rightarrow> bytes \<Rightarrow> nat \<Rightarrow> bytes \<Rightarrow> change \<Rightarrow> core_group \<Rightarrow> group_error + (bytes \<times> welcome_admission option) \<times> core_group" where
  "build_commit C K A sk time nonce ch g =
     rbind (packages_in A (ch_add ch)) (\<lambda>adds.
     (let aad = \<lparr> aa_invite = ch_invite ch, aa_left = ch_left ch, aa_moved = filter (\<lambda>r. r \<notin> set (gs_cut (gr_state g))) (ch_cut ch), aa_time = time \<rparr>;
          m = (gr_mls g)\<lparr> ml_pending := None, ml_aad := aad_to K aad \<rparr>
      in rbind (context_of (api_build A m adds (ch_remove ch) (map_option (context_extensions K) (ch_settings ch))
                  (map_option (leaf_extensions K) (ch_leaf ch)) (ch_add ch = [] \<or> ch_leaf ch \<noteq> None)) BuildFailed) (\<lambda>(st, c, welcome).
         rbind (rules C K m st (ml_own m) aad (gs_cut (gr_state g))) (\<lambda>_.
         (let e = entry_encode \<lparr> commit = c, sig = ed_sign C sk (commit_signed c) \<rparr>;
              admission = map_option (welcome_of C K sk ch e) welcome
          in rbind (seal_entry C K m nonce e) (\<lambda>wire.
               Inr ((wire, admission),
                    g\<lparr> gr_mls := m\<lparr> ml_pending := Some st \<rparr>,
                      gr_state := (gr_state g)\<lparr> gs_aad := aad,
                        gs_posted := Some \<lparr> po_inner = e, po_wire = wire, po_add_refs = map kp_ref (add_proposals st), po_admission = admission \<rparr> \<rparr> \<rparr>)))))))"

definition commit_change ::
  "crypto \<Rightarrow> codec \<Rightarrow> mls_api \<Rightarrow> bytes \<Rightarrow> nat \<Rightarrow> bytes \<Rightarrow> change \<Rightarrow> core_group \<Rightarrow> (group_error + bytes \<times> welcome_admission option) \<times> core_group" where
  "commit_change C K A sk time nonce ch g =
     (if gs_posted (gr_state g) \<noteq> None then (Inl AlreadyPending, g)
      else guarded is_ok (\<lambda>g. case build_commit C K A sk time nonce ch g of Inl e \<Rightarrow> (Inl e, g) | Inr (r, g') \<Rightarrow> (Inr r, g')) g)"

definition cancel :: "core_group \<Rightarrow> core_group" where
  "cancel g = drop_posted g"

section \<open>Held messages\<close>

definition seal_held :: "codec \<Rightarrow> mls_api \<Rightarrow> bytes \<Rightarrow> core_group \<Rightarrow> (group_error + bytes) \<times> core_group" where
  "seal_held K A plain g =
     (if length plain + FRAMING > MAX_MESSAGE then (Inl TooLarge, g)
      else case header_open (header_from K) plain of
        Inl e \<Rightarrow> (Inl (BadHeader e), g)
      | Inr h \<Rightarrow>
          let m = (gr_mls g)\<lparr> ml_aad := claim_to K (claim_of h) \<rparr>
          in (case api_message A m plain of
                None \<Rightarrow> (Inl SealFailed, g\<lparr> gr_mls := m \<rparr>)
              | Some (bytes, secrets) \<Rightarrow> (Inr bytes, g\<lparr> gr_mls := m\<lparr> ml_secrets := secrets \<rparr> \<rparr>)))"

definition check_opened :: "crypto \<Rightarrow> codec \<Rightarrow> core_group \<Rightarrow> processed \<Rightarrow> group_error + opened" where
  "check_opened C K g pr =
     rbind (context_of (claim_from K (pr_aad pr)) NoClaim) (\<lambda>cl.
     rbind (case pr_content pr of ApplicationMessage b \<Rightarrow> Inr b | _ \<Rightarrow> Inl NotApplication) (\<lambda>plain.
     rbind (map_error BadHeader (header_open (header_from K) plain)) (\<lambda>h.
     rbind (ensure (hd_group h = ml_group_id (gr_mls g)) OtherGroup) (\<lambda>_.
     rbind (ensure (hd_author h = pr_credential pr \<and> claim_of h = cl) NotAuthored) (\<lambda>_.
     (let cuts = (if pr_epoch pr = ml_epoch (gr_mls g) then gs_cut (gr_state g) else gs_ended (gr_state g))
      in rbind (context_of (find_cut cuts (hd_author h)) NoMembership) (\<lambda>r.
         rbind (ensure (r_joined r = hd_joined h) OtherMembership) (\<lambda>_.
         (let ended = (group_joined g (hd_author h) \<noteq> Some (hd_joined h))
          in rbind (ensure (\<not> ended \<or> hd_seq h \<le> r_seq r) PastFinalCut) (\<lambda>_.
             Inr \<lparr> op_id = held_id C plain, op_epoch = pr_epoch pr, op_header = h, op_plaintext = plain \<rparr>))))))))))"

definition open_held :: "crypto \<Rightarrow> codec \<Rightarrow> mls_api \<Rightarrow> bytes \<Rightarrow> core_group \<Rightarrow> (group_error + opened) \<times> core_group" where
  "open_held C K A bytes g =
     (case (case api_parse A bytes of None \<Rightarrow> None | Some b \<Rightarrow> protocol_content b) of
        None \<Rightarrow> (Inl NotProtocolMessage, g)
      | Some ct \<Rightarrow>
          if ct \<noteq> ApplicationContent then (Inl NotApplication, g)
          else
            let (r, secrets) = api_process A (gr_mls g) bytes; g = g\<lparr> gr_mls := (gr_mls g)\<lparr> ml_secrets := secrets \<rparr> \<rparr>
            in (case r of
                  Inl TooDistantInThePast \<Rightarrow> Inl UnheldMessage
                | Inl SecretReuse \<Rightarrow> Inl UnheldMessage
                | Inl OtherFailure \<Rightarrow> Inl ProcessFailed
                | Inr pr \<Rightarrow> check_opened C K g pr, g))"

text \<open>\<open>core::claim\<close>: what a ciphertext's clear framing claims.\<close>

definition core_claim :: "codec \<Rightarrow> mls_api \<Rightarrow> bytes \<Rightarrow> group_error + claim \<times> nat" where
  "core_claim K A bytes =
     (case api_parse A bytes of
        Some (PrivateMessage ct epoch _ ad) \<Rightarrow>
          rbind (ensure (ct = ApplicationContent) NotApplication) (\<lambda>_.
          rbind (context_of (claim_from K ad) NoClaim) (\<lambda>cl. Inr (cl, epoch)))
      | _ \<Rightarrow> Inl NotProtocolMessage)"

section \<open>Creating and joining\<close>

definition create_admins :: "crypto \<Rightarrow> bytes \<Rightarrow> leaf \<Rightarrow> bytes list" where
  "create_admins C key l = key # (case device_of C l key of None \<Rightarrow> [] | Some d \<Rightarrow> [dv_key d])"

text \<open>\<open>fresh\<close> is the MLS group openmls creates with these context and leaf extensions.\<close>

definition create_group ::
  "crypto \<Rightarrow> codec \<Rightarrow> (extension list \<Rightarrow> extension list \<Rightarrow> mls option) \<Rightarrow> bytes \<Rightarrow> leaf \<Rightarrow> settings \<Rightarrow> group_error + core_group" where
  "create_group C K fresh key l s =
     rbind (ensure (s_protocol s = PROTOCOL) OtherProtocol) (\<lambda>_.
     rbind (service_key C s) (\<lambda>_.
     (let s = s\<lparr> s_admins := create_admins C key l \<rparr>
      in rbind (context_of (fresh (context_extensions K s) (leaf_extensions K l)) BuildFailed) (\<lambda>m.
           Inr \<lparr> gr_mls = m, gr_state = default_state\<lparr> gs_cut := [cut_start key 0] \<rparr> \<rparr>))))"

definition join_cut :: "mls \<Rightarrow> msg_ref list \<Rightarrow> msg_ref list" where
  "join_cut m ended = sort_key ref_order (map (\<lambda>e. case find_cut ended (ln_key (snd e)) of
     None \<Rightarrow> cut_start (ln_key (snd e)) (ml_epoch m) | Some r \<Rightarrow> r) (ml_leaves m))"

definition join_group ::
  "crypto \<Rightarrow> codec \<Rightarrow> mls_api \<Rightarrow> bytes \<Rightarrow> welcome_admission \<Rightarrow> bytes \<Rightarrow> group_error + core_group" where
  "join_group C K A e adm expected =
     rbind (map_error BadEntry (entry_parse e)) (\<lambda>en.
     rbind (ensure (api_parse A (wa_welcome adm) = Some WelcomeMessage) NotAWelcome) (\<lambda>_.
     rbind (case api_parse A (commit en) of Some (PrivateMessage ct ep gid ad) \<Rightarrow> Inr (ct, ep, gid, ad) | _ \<Rightarrow> Inl NotACommit) (\<lambda>(ct, ep, gid, ad).
     rbind (ensure (ct = CommitContent) NotACommit) (\<lambda>_.
     rbind (context_of (aad_from K ad) BadAad) (\<lambda>aad.
     rbind (context_of (api_welcome A (wa_welcome adm)) NotAWelcome) (\<lambda>w.
     rbind (context_of (wm_package_ref w) OtherPackage) (\<lambda>package.
     rbind (ensure (package = expected) OtherPackage) (\<lambda>_.
     rbind (context_of (wm_sender w) NotAMember) (\<lambda>committer.
     rbind (settings_of K (ml_extensions (wm_mls w))) (\<lambda>s.
     rbind (ensure (s_protocol s = PROTOCOL) OtherProtocol) (\<lambda>_.
     rbind (service_key C s) (\<lambda>_.
     (let m = wm_mls w; ended = wa_cut adm
      in rbind (ensure (length (ml_group_id m) = 16) BadGroupId) (\<lambda>_.
         rbind (ensure (list_all (\<lambda>x. names_its_key (snd x) (ln_key (snd x))) (ml_leaves m)) CredentialNamesAnother) (\<lambda>_.
         rbind (ensure (gid = ml_group_id m \<and> ep + 1 = ml_epoch m) OtherCommit) (\<lambda>_.
         rbind (ensure (verify_ed C committer (commit_signed (commit en)) (sig en)) EntryUnsigned) (\<lambda>_.
         rbind (ensure (verify_ed C committer (welcome_signed C e (cut_to K ended) (wa_welcome adm)) (wa_sig adm)) WelcomeUnsigned) (\<lambda>_.
         rbind (ensure (successively (\<lambda>a b. r_key a < r_key b) ended \<and> list_all well_formed ended) MalformedCut) (\<lambda>_.
         rbind (ensure (list_all (\<lambda>r. r \<in> set ended) (aa_moved aad)) CutNotMovedTo) (\<lambda>_.
         Inr \<lparr> gr_mls = m, gr_state = default_state\<lparr> gs_cut := join_cut m ended, gs_ended := ended \<rparr> \<rparr>))))))))))))))))))))"

definition key_package_leaf :: "codec \<Rightarrow> mls_api \<Rightarrow> bytes \<Rightarrow> group_error + bytes \<times> leaf option" where
  "key_package_leaf K A b =
     rbind (context_of (api_key_package A b) BadKeyPackage) (\<lambda>kp. Inr (ln_key (kp_leaf kp), leaf_of K (ln_extensions (kp_leaf kp))))"

definition key_package_reference :: "mls_api \<Rightarrow> bytes \<Rightarrow> group_error + bytes" where
  "key_package_reference A b = rbind (context_of (api_key_package A b) BadKeyPackage) (\<lambda>kp. Inr (kp_ref kp))"

end
