(* ===== verification/Group_Spec.thy ===== *)
theory Group_Spec
  imports Group "HOL-Library.Multiset"
begin

text \<open>
  What a group's commits keep: every commit judged valid was allowed to its committer, the cut state names each
  member once at its membership and only moves on, and whatever fails leaves no trace.
\<close>

section \<open>What merging a commit does\<close>

definition leaf_keys :: "mls \<Rightarrow> bytes list" where
  "leaf_keys m = map (ln_key \<circ> snd) (ml_leaves m)"

text \<open>
  openmls's merge of a staged commit, as documented: the next epoch, with the staged context, which only a
  context proposal changes, and the leaves that were not removed beside the added ones, no two of one key.
\<close>

definition merges :: "mls \<Rightarrow> staged \<Rightarrow> mls \<Rightarrow> bool" where
  "merges m st m' \<longleftrightarrow> ml_epoch m' = ml_epoch m + 1 \<and> ml_group_id m' = ml_group_id m \<and> ml_extensions m' = sc_extensions st \<and>
     (ContextProposal \<notin> snd ` set (sc_proposals st) \<longrightarrow> sc_extensions st = ml_extensions m) \<and>
     distinct (map fst (ml_leaves m')) \<and> distinct (leaf_keys m') \<and>
     mset (leaf_keys m') = mset (map (ln_key \<circ> snd) (filter (\<lambda>x. fst x \<notin> set (remove_proposals st)) (ml_leaves m))) +
       mset (map (ln_key \<circ> kp_leaf) (add_proposals st))"

definition merge_law :: "mls_api \<Rightarrow> bool" where
  "merge_law A \<longleftrightarrow> (\<forall>m st m'. api_merge A m st = Some m' \<longrightarrow> merges m st m')"

definition cut_ok :: "core_group \<Rightarrow> bool" where
  "cut_ok g \<longleftrightarrow> distinct (map fst (ml_leaves (gr_mls g))) \<and> distinct (leaf_keys (gr_mls g)) \<and>
     sorted_wrt (\<lambda>a b. r_key a < r_key b) (gs_cut (gr_state g)) \<and>
     r_key ` set (gs_cut (gr_state g)) = set (leaf_keys (gr_mls g)) \<and> list_all well_formed (gs_cut (gr_state g))"

lemma member_at_leaf: "distinct (map fst (ml_leaves m)) \<Longrightarrow> x \<in> set (ml_leaves m) \<Longrightarrow> member_at m (fst x) = Some (snd x)"
  by (simp add: member_at_def)

lemma members_of_keys: "distinct (map fst (ml_leaves m)) \<Longrightarrow> cm_key ` set (members_of K m) = set (leaf_keys m)"
proof -
  assume d: "distinct (map fst (ml_leaves m))"
  then have "members_of K m = map (\<lambda>x. \<lparr> cm_index = fst x, cm_key = ln_key (snd x), cm_leaf = leaf_of K (ln_extensions (snd x)) \<rparr>) (ml_leaves m)"
    unfolding members_of_def map_filter_def comp_def member_of_def by (subst filter_True) (auto simp: member_at_leaf)
  then show ?thesis by (simp add: leaf_keys_def image_image)
qed

section \<open>Judging\<close>

text \<open>What stands behind a commit judged valid: the staged commit, whose rules hold, of a member, which signed it.\<close>

definition valid_commit :: "crypto \<Rightarrow> codec \<Rightarrow> mls_api \<Rightarrow> bytes \<Rightarrow> core_group \<Rightarrow> staged \<Rightarrow> nat \<Rightarrow> aad \<Rightarrow> bool" where
  "valid_commit C K A e g st by aad \<longleftrightarrow> rules C K (gr_mls g) st by aad (gs_cut (gr_state g)) = Inr () \<and>
     (if own_entry e g then ml_pending (gr_mls g) = Some st \<and> by = ml_own (gr_mls g) \<and> aad = gs_aad (gr_state g)
      else \<exists>en ln. entry_parse e = Inr en \<and> member_at (gr_mls g) by = Some ln \<and>
        verify_ed C (ln_key ln) (commit_signed (commit en)) (sig en) \<and>
        fst (stage C K A (commit en) (sig en) g) = Inr (StagedCommit st by aad))"

lemma member_at_update [simp]:
  "member_at (m\<lparr> ml_secrets := x \<rparr>) = member_at m" "member_at (m\<lparr> ml_pending := y \<rparr>) = member_at m" "member_at (m\<lparr> ml_aad := z \<rparr>) = member_at m"
  by (simp_all add: member_at_def fun_eq_iff)

text \<open>The rules read the group's id, its context and its leaves.\<close>

lemma rules_cong:
  assumes "ml_group_id m' = ml_group_id m" "ml_extensions m' = ml_extensions m" "ml_leaves m' = ml_leaves m"
  shows "rules C K m' = rules C K m"
proof -
  have eq: "member_at m' = member_at m" using assms(3) by (simp add: member_at_def fun_eq_iff)
  show ?thesis
    unfolding rules_def [abs_def] member_of_def [abs_def] check_proposal_def [abs_def] check_path_def [abs_def] removed_keys_def [abs_def] eq assms
    by (rule refl)
qed

lemma rules_update [simp]:
  "rules C K (m\<lparr> ml_secrets := x \<rparr>) = rules C K m" "rules C K (m\<lparr> ml_pending := y \<rparr>) = rules C K m" "rules C K (m\<lparr> ml_aad := z \<rparr>) = rules C K m"
  by (rule rules_cong; simp)+

lemma stage_commit:
  assumes "fst (stage C K A c sg g) = Inr (StagedCommit st by aad)"
  shows "rules C K (gr_mls g) st by aad (gs_cut (gr_state g)) = Inr () \<and>
    (\<exists>ln. member_at (gr_mls g) by = Some ln \<and> verify_ed C (ln_key ln) (commit_signed c) sg)"
  using assms by (auto simp: stage_def stage_processed_def Let_def result_simps split: option.splits if_splits prod.splits sum.splits sender.splits content.splits)

lemma stage_state: "\<exists>x. snd (stage C K A c sg g) = g\<lparr> gr_mls := (gr_mls g)\<lparr> ml_secrets := x \<rparr> \<rparr>"
proof -
  have "\<exists>x. g = g\<lparr> gr_mls := (gr_mls g)\<lparr> ml_secrets := x \<rparr> \<rparr>" by (rule exI [of _ "ml_secrets (gr_mls g)"]) simp
  then show ?thesis unfolding stage_def Let_def by (auto split: option.splits prod.splits)
qed

lemma judge_valid:
  assumes "judge C K A wire g = (Inr (CommitVerdict rm t), g')"
  shows "g' = g \<and> (\<exists>e st by aad. open_entry C K (gr_mls g) wire = Inr e \<and> valid_commit C K A e g st by aad \<and>
    t = aa_time aad \<and> (rm \<longleftrightarrow> \<not> own_entry e g \<and> sc_self_removed st))"
proof -
  obtain e where e: "open_entry C K (gr_mls g) wire = Inr e" using assms by (auto simp: judge_def split: if_splits sum.splits)
  show ?thesis
  proof (cases "own_entry e g")
    case True
    then show ?thesis using assms e by (auto simp: judge_def valid_commit_def split: if_splits option.splits sum.splits)
  next
    case False
    obtain en where en: "entry_parse e = Inr en" using assms e False by (auto simp: judge_def split: if_splits sum.splits)
    obtain r g1 where st: "stage C K A (commit en) (sig en) g = (r, g1)" by fastforce
    then obtain st i aad where r: "r = Inr (StagedCommit st i aad)" "rm = sc_self_removed st" "t = aa_time aad" "g' = g"
      using assms e False en by (auto simp: judge_def guarded_def split: if_splits sum.splits staged_entry.splits)
    then show ?thesis using e False en st stage_commit [of C K A "commit en" "sig en" g st i aad] by (auto simp: valid_commit_def)
  qed
qed

section \<open>Failures leave no trace\<close>

lemma guarded_error: "guarded is_ok f g = (Inl e, g') \<Longrightarrow> g' = g"
  by (auto simp: guarded_def split: prod.splits if_splits)


section \<open>The cut\<close>

lemma find_cut_in: "sorted_wrt (\<lambda>a b. r_key a < r_key b) cuts \<Longrightarrow> r \<in> set cuts \<Longrightarrow> find_cut cuts (r_key r) = Some r"
  by (induction cuts) (auto simp: find_cut_def)

lemma cut_distinct: "sorted_wrt (\<lambda>a b. r_key a < r_key b) cuts \<Longrightarrow> distinct (map r_key cuts)"
  by (induction cuts) auto

lemma well_formed_start: "well_formed (cut_start k j)"
  by (simp add: well_formed_def cut_start_def)

definition moved_to :: "msg_ref set \<Rightarrow> msg_ref \<Rightarrow> msg_ref \<Rightarrow> bool" where
  "moved_to S r r' \<longleftrightarrow> r_key r' = r_key r \<and> (r' = r \<or> r' \<in> S)"

lemma replace_cut_moved: "list_all2 (moved_to {new}) cuts (replace_cut new cuts)"
  by (induction cuts) (auto simp: moved_to_def list_all2_refl)

lemma replace_cuts_moved: "list_all2 (moved_to (set moved)) cuts (foldl (\<lambda>cuts new. replace_cut new cuts) cuts moved)"
proof (induction moved arbitrary: cuts)
  case (Cons new moved)
  have "list_all2 (moved_to (set (new # moved))) cuts (foldl (\<lambda>cuts new. replace_cut new cuts) (replace_cut new cuts) moved)"
    by (rule list_all2_trans [OF _ replace_cut_moved Cons.IH]) (auto simp: moved_to_def)
  then show ?case by simp
qed (simp add: list_all2_refl moved_to_def)

lemma moved_keys: "list_all2 (moved_to S) cuts cuts' \<Longrightarrow> map r_key cuts' = map r_key cuts"
  by (induction rule: list_all2_induct) (auto simp: moved_to_def)

text \<open>How one entry of the cut state moves on: at its membership, up, by no more than \<open>MAX_CUT_STEP\<close>.\<close>

definition cut_moves :: "msg_ref \<Rightarrow> msg_ref \<Rightarrow> bool" where
  "cut_moves r r' \<longleftrightarrow> r_key r' = r_key r \<and> r_joined r' = r_joined r \<and> r_seq r \<le> r_seq r' \<and> unat (r_seq r' - r_seq r) \<le> MAX_CUT_STEP"

lemma check_moved_moves:
  assumes "sorted_wrt (\<lambda>a b. r_key a < r_key b) cuts" "check_moved cuts new = Inr ()" "r \<in> set cuts" "r_key r = r_key new"
  shows "cut_moves r new" "well_formed new"
proof -
  obtain old where old: "List.find (\<lambda>old. r_key old = r_key new \<and> r_joined old = r_joined new) cuts = Some old" "well_formed new"
      "r_seq old < r_seq new" "unat (r_seq new - r_seq old) \<le> MAX_CUT_STEP"
    using assms(2) by (auto simp: check_moved_def result_simps)
  have "old \<in> set cuts" "r_key old = r_key new" "r_joined old = r_joined new" using find_Some_iff2 [OF old(1)] by auto
  moreover from this have "old = r" using find_cut_in [OF assms(1)] assms(3,4) by (metis option.inject)
  ultimately show "cut_moves r new" "well_formed new" using old(2-4) by (auto simp: cut_moves_def)
qed

lemma rules_moved:
  assumes "rules C K m st i aad cuts = Inr ()" "sorted_wrt (\<lambda>a b. r_key a < r_key b) cuts" "list_all well_formed cuts"
  shows "list_all2 (\<lambda>r r'. cut_moves r r' \<and> well_formed r') cuts (foldl (\<lambda>cuts new. replace_cut new cuts) cuts (aa_moved aad))"
proof -
  have moved: "\<forall>new\<in>set (aa_moved aad). check_moved cuts new = Inr ()" using assms(1) by (auto simp: rules_def Let_def result_simps)
  have "cut_moves r r' \<and> well_formed r'" if "r \<in> set cuts" "moved_to (set (aa_moved aad)) r r'" for r r'
    using that check_moved_moves [OF assms(2)] moved assms(3) by (auto simp: moved_to_def cut_moves_def list_all_iff)
  then show ?thesis by (rule list.rel_mono_strong [OF replace_cuts_moved])
qed

section \<open>What applying a valid commit does\<close>

definition same_tree :: "mls \<Rightarrow> mls \<Rightarrow> bool" where
  "same_tree m m' \<longleftrightarrow> ml_group_id m' = ml_group_id m \<and> ml_epoch m' = ml_epoch m \<and> ml_extensions m' = ml_extensions m \<and> ml_leaves m' = ml_leaves m"

definition shown :: "core_member \<Rightarrow> bytes \<times> leaf option" where
  "shown m = (cm_key m, cm_leaf m)"

definition shown_leaf :: "codec \<Rightarrow> leaf_node \<Rightarrow> bytes \<times> leaf option" where
  "shown_leaf K ln = (ln_key ln, leaf_of K (ln_extensions ln))"

lemma reindex_shown: "reindex ms as = Inr bs \<Longrightarrow> map shown bs = map shown as"
  by (induction as arbitrary: bs) (auto simp: result_simps shown_def)

lemma observe_spec:
  assumes "observe K now m gs st i aad own = Inr (a, gs')"
  shows "ap_by a = i" "ap_gone a = sc_self_removed st" "map shown (ap_added a) = map (shown_leaf K \<circ> kp_leaf) (add_proposals st)"
    "ap_removed a = List.map_filter (member_of K m) (remove_proposals st)"
    "ap_cut a = foldl (\<lambda>cuts new. replace_cut new cuts) (gs_cut gs) (aa_moved aad)" "gs_cut gs' = gs_cut gs"
  using assms by (auto simp: observe_def Let_def result_simps shown_def shown_leaf_def split: option.splits)

lemma merge_merged_spec:
  assumes "(case merge_into A st g of Inl x \<Rightarrow> (Inl x, g) | Inr g \<Rightarrow> merged K a g) = (Inr a', g')"
  shows "\<exists>m. api_merge A (gr_mls g) st = Some m \<and> gr_mls g' = m\<lparr> ml_pending := None \<rparr> \<and> ap_by a' = ap_by a \<and> ap_gone a' = ap_gone a \<and>
    map shown (ap_added a') = map shown (ap_added a) \<and> ap_removed a' = ap_removed a \<and> ap_cut a' = ap_cut a \<and>
    gs_cut (gr_state g') = next_cut (members_of K (gr_mls g')) (ml_epoch (gr_mls g')) (ap_cut a') (ap_added a')"
  using assms by (auto simp: merge_into_def merged_def Let_def dest: reindex_shown split: sum.splits option.splits)

lemma apply_valid:
  assumes "open_entry C K (gr_mls g) wire = Inr e" "valid_commit C K A e g st i aad" "apply_entry C K A now wire g = (Inr a, g')"
  shows "\<exists>m0 m. same_tree (gr_mls g) m0 \<and> api_merge A m0 st = Some m \<and> gr_mls g' = m\<lparr> ml_pending := None \<rparr> \<and>
    ap_by a = i \<and> ap_gone a = sc_self_removed st \<and> map shown (ap_added a) = map (shown_leaf K \<circ> kp_leaf) (add_proposals st) \<and>
    ap_removed a = List.map_filter (member_of K (gr_mls g)) (remove_proposals st) \<and>
    ap_cut a = foldl (\<lambda>cuts new. replace_cut new cuts) (gs_cut (gr_state g)) (aa_moved aad) \<and>
    gs_cut (gr_state g') = next_cut (members_of K (gr_mls g')) (ml_epoch (gr_mls g')) (ap_cut a) (ap_added a)"
proof (cases "own_entry e g")
  case True
  have "apply_own K A now g = (Inr a, g')"
    using assms(1,3) True by (auto simp: apply_entry_def guarded_def split: prod.splits if_splits)
  moreover have "ml_pending (gr_mls g) = Some st" "i = ml_own (gr_mls g)" "aad = gs_aad (gr_state g)" using assms(2) True by (auto simp: valid_commit_def)
  ultimately obtain a0 gs where o: "observe K now (gr_mls g) (gr_state g) st i aad True = Inr (a0, gs)"
    and m: "(let a = a0\<lparr> ap_admission := (case gs_posted gs of None \<Rightarrow> None | Some p \<Rightarrow> po_admission p) \<rparr>; g = g\<lparr> gr_state := gs\<lparr> gs_posted := None \<rparr> \<rparr>
      in (case merge_into A st g of Inl e \<Rightarrow> (Inl e, g) | Inr g \<Rightarrow> merged K a g)) = (Inr a, g')"
    by (auto simp: apply_own_def split: sum.splits)
  show ?thesis using observe_spec [OF o] merge_merged_spec [OF m [unfolded Let_def]]
    by - (rule exI [of _ "gr_mls g"], simp add: same_tree_def)
next
  case False
  have "apply_other C K A now e g = (Inr a, g')"
    using assms(1,3) False by (auto simp: apply_entry_def guarded_def split: prod.splits if_splits)
  moreover obtain en where en: "entry_parse e = Inr en" "fst (stage C K A (commit en) (sig en) g) = Inr (StagedCommit st i aad)"
    using assms(2) False by (auto simp: valid_commit_def)
  moreover obtain x where x: "stage C K A (commit en) (sig en) g = (Inr (StagedCommit st i aad), g\<lparr> gr_mls := (gr_mls g)\<lparr> ml_secrets := x \<rparr> \<rparr>)"
    using en(2) stage_state [of C K A "commit en" "sig en" g] by (metis prod.collapse)
  ultimately obtain a0 gs where o: "observe K now ((gr_mls g)\<lparr> ml_secrets := x \<rparr>) (gr_state g) st i aad False = Inr (a0, gs)"
    and m: "(let g = g\<lparr> gr_state := gs\<lparr> gs_posted := None \<rparr>, gr_mls := (gr_mls g)\<lparr> ml_secrets := x, ml_pending := None \<rparr> \<rparr>
      in (case merge_into A st g of Inl x \<Rightarrow> (Inl x, g) | Inr g \<Rightarrow> merged K a0 g)) = (Inr a, g')"
    by (auto simp: apply_other_def Let_def split: sum.splits prod.splits)
  have "member_of K ((gr_mls g)\<lparr> ml_secrets := x \<rparr>) = member_of K (gr_mls g)" by (simp add: member_of_def fun_eq_iff)
  then show ?thesis using observe_spec [OF o] merge_merged_spec [OF m [unfolded Let_def]]
    by - (rule exI [of _ "(gr_mls g)\<lparr> ml_secrets := x, ml_pending := None \<rparr>"], simp add: same_tree_def)
qed

lemma ref_order_key: "ref_order a \<le> ref_order b \<Longrightarrow> r_key a \<le> r_key b"
  by (auto simp: ref_order_def less_eq_prod_def)

lemma sorted_by_key:
  assumes "sorted (map ref_order rs)" "distinct (map r_key rs)"
  shows "sorted_wrt (\<lambda>a b. r_key a < r_key b) rs"
  using assms by (auto simp: sorted_wrt_iff_nth_less sorted_iff_nth_mono_less distinct_conv_nth
      order.strict_iff_order intro!: ref_order_key)

lemma next_cut_spec:
  assumes "distinct (map r_key cuts)" "distinct (map cm_key added)"
    "\<And>k. k \<in> r_key ` set cuts \<Longrightarrow> k \<in> cm_key ` set ms \<Longrightarrow> k \<notin> cm_key ` set added"
  shows "sorted_wrt (\<lambda>a b. r_key a < r_key b) (next_cut ms epoch cuts added)"
    "set (next_cut ms epoch cuts added) = {r \<in> set cuts. r_key r \<in> cm_key ` set ms} \<union> (\<lambda>m. cut_start (cm_key m) epoch) ` set added"
proof -
  let ?rs = "filter (\<lambda>r. list_ex (\<lambda>m. cm_key m = r_key r) ms) cuts @ map (\<lambda>m. cut_start (cm_key m) epoch) added"
  have keys: "map r_key (map (\<lambda>m. cut_start (cm_key m) epoch) added) = map cm_key added" by (simp add: cut_start_def)
  have apart: "r_key r \<notin> cm_key ` set added" if "r \<in> set cuts" "list_ex (\<lambda>m. cm_key m = r_key r) ms" for r
  proof -
    have "r_key r \<in> cm_key ` set ms" using that(2) unfolding list_ex_iff by (metis image_eqI)
    then show ?thesis using that(1) assms(3) by blast
  qed
  have "distinct (map r_key (filter (\<lambda>r. list_ex (\<lambda>m. cm_key m = r_key r) ms) cuts))" using assms(1) by (rule distinct_map_filter)
  moreover have "set (map r_key (filter (\<lambda>r. list_ex (\<lambda>m. cm_key m = r_key r) ms) cuts)) \<inter> set (map cm_key added) = {}"
    unfolding set_map set_filter using apart by blast
  ultimately have "distinct (map r_key ?rs)" unfolding map_append distinct_append keys using assms(2) by blast
  moreover have "mset (map r_key (sort_key ref_order ?rs)) = mset (map r_key ?rs)" unfolding mset_map mset_sort by (rule refl)
  ultimately have "distinct (map r_key (sort_key ref_order ?rs))" using mset_eq_imp_distinct_iff by blast
  then show "sorted_wrt (\<lambda>a b. r_key a < r_key b) (next_cut ms epoch cuts added)"
    unfolding next_cut_def using sorted_by_key sorted_sort_key by blast
  show "set (next_cut ms epoch cuts added) = {r \<in> set cuts. r_key r \<in> cm_key ` set ms} \<union> (\<lambda>m. cut_start (cm_key m) epoch) ` set added"
    by (auto simp: next_cut_def list_ex_iff image_iff) metis+
qed

section \<open>Authority\<close>

lemma rules_checks:
  assumes "rules C K m st i aad cuts = Inr ()"
  shows "\<exists>ln s. member_at m i = Some ln \<and> settings_of K (ml_extensions m) = Inr s \<and>
    (\<forall>p\<in>set (sc_proposals st). check_proposal C K m st s (admin C s (ln_key ln) (leaf_of K (ln_extensions ln))) aad cuts p = Inr ())"
  using assms by (auto simp: rules_def Let_def result_simps member_of_def)

lemma check_add:
  assumes "check_proposal C K m st s adm aad cuts (b, AddProposal kp) = Inr ()"
  shows "ln_key (kp_leaf kp) \<notin> set (removed_keys m st)" "adm \<or> admits C s (ln_key (kp_leaf kp)) (leaf_of K (ln_extensions (kp_leaf kp)))"
  using assms by (auto simp: check_proposal_def Let_def result_simps)

lemma check_remove:
  assumes "check_proposal C K m st s adm aad cuts (b, RemoveProposal i) = Inr ()" "member_at m i = Some ln"
  shows "adm \<or> (\<exists>sg. left_by C (ml_group_id m) cuts (ln_key ln) sg)"
  using assms by (auto simp: check_proposal_def result_simps list_ex_iff)

lemma check_context:
  assumes "check_proposal C K m st s adm aad cuts (b, ContextProposal) = Inr ()"
  shows "adm \<and> (\<exists>new. settings_of K (sc_extensions st) = Inr new \<and> fixed_settings new = fixed_settings s \<and> s_admins new \<noteq> [])"
  using assms by (auto simp: check_proposal_def result_simps)

lemma added_package:
  assumes "map shown (ap_added a) = map (shown_leaf K \<circ> kp_leaf) (add_proposals st)" "mem \<in> set (ap_added a)"
  obtains b kp where "(b, AddProposal kp) \<in> set (sc_proposals st)" "cm_key mem = ln_key (kp_leaf kp)" "cm_leaf mem = leaf_of K (ln_extensions (kp_leaf kp))"
proof -
  have "shown mem \<in> set (map (shown_leaf K \<circ> kp_leaf) (add_proposals st))" using assms by (metis image_eqI set_map)
  then show ?thesis using that by (auto simp: shown_def shown_leaf_def set_add_proposals)
qed

text \<open>
  C11. Only what a group allows is applied: the committer of a commit judged valid is a member, and unless it is
  an admin the commit adds only sessions whose device is admitted or an admin's, removes only members that signed
  their leave, and leaves the settings alone; an admin's may change the lists of admins and admitted devices,
  nothing else, and leaves an admin. No commit adds a key it removes.
\<close>

theorem judged_commit_authorized:
  assumes "merge_law A" and "judge C K A wire g = (Inr (CommitVerdict rm t), g1)" and "apply_entry C K A now wire g = (Inr a, g')"
  shows "g1 = g \<and> (\<exists>ln s s'. member_at (gr_mls g) (ap_by a) = Some ln \<and> group_settings K g = Inr s \<and> group_settings K g' = Inr s' \<and>
    fixed_settings s' = fixed_settings s \<and> (s' = s \<or> s_admins s' \<noteq> []) \<and>
    (admin C s (ln_key ln) (leaf_of K (ln_extensions ln)) \<or>
      s' = s \<and> (\<forall>m\<in>set (ap_added a). admits C s (cm_key m) (cm_leaf m)) \<and> (\<forall>m\<in>set (ap_removed a). \<exists>sg. group_left C g (cm_key m) sg)) \<and>
    cm_key ` set (ap_added a) \<inter> cm_key ` set (ap_removed a) = {})"
proof -
  obtain e st i aad where j: "g1 = g" "open_entry C K (gr_mls g) wire = Inr e" "valid_commit C K A e g st i aad" using judge_valid [OF assms(2)] by blast
  obtain m0 m where ap: "same_tree (gr_mls g) m0" "api_merge A m0 st = Some m" "gr_mls g' = m\<lparr> ml_pending := None \<rparr>" "ap_by a = i"
      "map shown (ap_added a) = map (shown_leaf K \<circ> kp_leaf) (add_proposals st)"
      "ap_removed a = List.map_filter (member_of K (gr_mls g)) (remove_proposals st)"
    using apply_valid [OF j(2,3) assms(3)] by blast
  have rules: "rules C K (gr_mls g) st i aad (gs_cut (gr_state g)) = Inr ()" using j(3) by (simp add: valid_commit_def)
  obtain ln s where ln: "member_at (gr_mls g) i = Some ln" and s: "settings_of K (ml_extensions (gr_mls g)) = Inr s"
    and checks: "\<forall>p\<in>set (sc_proposals st).
      check_proposal C K (gr_mls g) st s (admin C s (ln_key ln) (leaf_of K (ln_extensions ln))) aad (gs_cut (gr_state g)) p = Inr ()"
    using rules_checks [OF rules] by blast
  note check = bspec [OF checks]
  let ?adm = "admin C s (ln_key ln) (leaf_of K (ln_extensions ln))"
  have ext: "ml_extensions (gr_mls g') = sc_extensions st" "ContextProposal \<notin> snd ` set (sc_proposals st) \<Longrightarrow> sc_extensions st = ml_extensions (gr_mls g)"
    using assms(1) ap(1-3) unfolding merge_law_def merges_def same_tree_def by simp_all
  obtain s' where s': "group_settings K g' = Inr s'" "fixed_settings s' = fixed_settings s" "s' = s \<or> ?adm \<and> s_admins s' \<noteq> []"
  proof (cases "ContextProposal \<in> snd ` set (sc_proposals st)")
    case True
    then obtain b where "(b, ContextProposal) \<in> set (sc_proposals st)" by force
    from check_context [OF check [OF this]] show ?thesis using that ext(1) unfolding group_settings_def by auto
  next
    case False
    then show ?thesis using that [of s] ext s by (simp add: group_settings_def)
  qed
  have add: "(?adm \<or> admits C s (cm_key mem) (cm_leaf mem)) \<and> cm_key mem \<notin> set (removed_keys (gr_mls g) st)" if mem: "mem \<in> set (ap_added a)" for mem
  proof -
    obtain b kp where kp: "(b, AddProposal kp) \<in> set (sc_proposals st)" "cm_key mem = ln_key (kp_leaf kp)" "cm_leaf mem = leaf_of K (ln_extensions (kp_leaf kp))"
      using added_package [OF ap(5) mem] .
    show ?thesis using check_add [OF check [OF kp(1)]] kp(2,3) by simp
  qed
  have rem: "(?adm \<or> (\<exists>sg. group_left C g (cm_key mem) sg)) \<and> cm_key mem \<in> set (removed_keys (gr_mls g) st)" if mem: "mem \<in> set (ap_removed a)" for mem
  proof -
    obtain k lr where k: "k \<in> set (remove_proposals st)" "member_at (gr_mls g) k = Some lr" "cm_key mem = ln_key lr"
      using mem unfolding ap(6) by (auto simp: map_filter_in member_of_def)
    obtain b where "(b, RemoveProposal k) \<in> set (sc_proposals st)" using k(1) by (auto simp: set_remove_proposals)
    moreover have "lr \<in> set (List.map_filter (member_at (gr_mls g)) (remove_proposals st))" unfolding map_filter_in using k(1,2) by blast
    then have "ln_key lr \<in> set (removed_keys (gr_mls g) st)" by (simp add: removed_keys_def)
    ultimately show ?thesis using check_remove [OF check k(2)] k(3) by (auto simp: group_left_def)
  qed
  have "cm_key ` set (ap_added a) \<inter> cm_key ` set (ap_removed a) = {}" unfolding disjoint_iff using add rem by (metis imageE)
  moreover have "?adm \<or> s' = s \<and> (\<forall>m\<in>set (ap_added a). admits C s (cm_key m) (cm_leaf m)) \<and> (\<forall>m\<in>set (ap_removed a). \<exists>sg. group_left C g (cm_key m) sg)"
    using add rem s'(3) by metis
  moreover have "s' = s \<or> s_admins s' \<noteq> []" using s'(3) by blast
  moreover have "member_at (gr_mls g) (ap_by a) = Some ln" "group_settings K g = Inr s" using ln ap(4) s by (simp_all add: group_settings_def)
  ultimately show ?thesis using j(1) s'(1,2) by blast
qed

section \<open>The cut state\<close>

lemma keys_after_merge:
  assumes "mset (leaf_keys m') = mset (map (ln_key \<circ> snd) (filter P (ml_leaves m))) + mset (map (ln_key \<circ> kp_leaf) adds)" "distinct (leaf_keys m')"
  shows "set (leaf_keys m') = (ln_key \<circ> snd) ` {x \<in> set (ml_leaves m). P x} \<union> (ln_key \<circ> kp_leaf) ` set adds"
    "distinct (map (ln_key \<circ> kp_leaf) adds)" "(ln_key \<circ> snd) ` {x \<in> set (ml_leaves m). P x} \<inter> (ln_key \<circ> kp_leaf) ` set adds = {}"
proof -
  let ?ks = "map (ln_key \<circ> snd) (filter P (ml_leaves m)) @ map (ln_key \<circ> kp_leaf) adds"
  have eq: "mset (leaf_keys m') = mset ?ks" using assms(1) by simp
  then have "set (leaf_keys m') = set ?ks" "distinct ?ks" using assms(2) mset_eq_setD mset_eq_imp_distinct_iff by blast+
  then show "set (leaf_keys m') = (ln_key \<circ> snd) ` {x \<in> set (ml_leaves m). P x} \<union> (ln_key \<circ> kp_leaf) ` set adds"
    "distinct (map (ln_key \<circ> kp_leaf) adds)" "(ln_key \<circ> snd) ` {x \<in> set (ml_leaves m). P x} \<inter> (ln_key \<circ> kp_leaf) ` set adds = {}"
    by (simp_all only: set_append set_map set_filter distinct_append)
qed

text \<open>
  C12. The cut state stays right as commits are applied: it names each member of the group exactly once, in the
  order of their keys, with ids that fit their seqs; every member that stays keeps its membership and its entry
  only moves up, by at most \<open>MAX_CUT_STEP\<close>, and every member added starts at seq 0 in the epoch it joined.
\<close>

theorem apply_keeps_cut_state:
  assumes "merge_law A" and "cut_ok g" and "judge C K A wire g = (Inr (CommitVerdict rm t), g1)" and "apply_entry C K A now wire g = (Inr a, g')"
  shows "cut_ok g' \<and> ml_epoch (gr_mls g') = ml_epoch (gr_mls g) + 1 \<and>
    (\<forall>r'\<in>set (gs_cut (gr_state g')). (\<exists>r\<in>set (gs_cut (gr_state g)). cut_moves r r') \<or>
       r' = cut_start (r_key r') (ml_epoch (gr_mls g')) \<and> r_key r' \<in> cm_key ` set (ap_added a))"
proof -
  obtain e st i aad where j: "open_entry C K (gr_mls g) wire = Inr e" "valid_commit C K A e g st i aad" using judge_valid [OF assms(3)] by blast
  obtain m0 m where ap: "same_tree (gr_mls g) m0" "api_merge A m0 st = Some m" "gr_mls g' = m\<lparr> ml_pending := None \<rparr>"
      "map shown (ap_added a) = map (shown_leaf K \<circ> kp_leaf) (add_proposals st)"
      "ap_cut a = foldl (\<lambda>cuts new. replace_cut new cuts) (gs_cut (gr_state g)) (aa_moved aad)"
      "gs_cut (gr_state g') = next_cut (members_of K (gr_mls g')) (ml_epoch (gr_mls g')) (ap_cut a) (ap_added a)"
    using apply_valid [OF j assms(4)] by blast
  have rules: "rules C K (gr_mls g) st i aad (gs_cut (gr_state g)) = Inr ()" using j(2) by (simp add: valid_commit_def)
  let ?P = "\<lambda>x. fst x \<notin> set (remove_proposals st)" and ?m = "gr_mls g'" and ?cut = "gs_cut (gr_state g)"
  have law: "ml_epoch ?m = ml_epoch (gr_mls g) + 1" "distinct (map fst (ml_leaves ?m))" "distinct (leaf_keys ?m)"
      "mset (leaf_keys ?m) = mset (map (ln_key \<circ> snd) (filter ?P (ml_leaves (gr_mls g)))) + mset (map (ln_key \<circ> kp_leaf) (add_proposals st))"
    using assms(1) ap(1-3) unfolding merge_law_def merges_def same_tree_def leaf_keys_def by simp_all
  note keys = keys_after_merge [OF law(4,3)]
  have added: "map cm_key (ap_added a) = map (ln_key \<circ> kp_leaf) (add_proposals st)"
    using arg_cong [OF ap(4), of "map fst"] by (simp add: shown_def shown_leaf_def comp_def)
  have ok: "distinct (map fst (ml_leaves (gr_mls g)))" "sorted_wrt (\<lambda>a b. r_key a < r_key b) ?cut" "r_key ` set ?cut = set (leaf_keys (gr_mls g))"
      "list_all well_formed ?cut" using assms(2) by (auto simp: cut_ok_def)
  have moves: "list_all2 (\<lambda>r r'. cut_moves r r' \<and> well_formed r') ?cut (ap_cut a)" unfolding ap(5) by (rule rules_moved [OF rules ok(2,4)])
  have cutkeys: "map r_key (ap_cut a) = map r_key ?cut" unfolding ap(5) by (rule moved_keys [OF replace_cuts_moved])
  have gone: "k \<notin> cm_key ` set (ap_added a)" if "k \<in> r_key ` set (ap_cut a)" for k
  proof
    assume "k \<in> cm_key ` set (ap_added a)"
    then have "k \<in> set (map (ln_key \<circ> kp_leaf) (add_proposals st))" unfolding added [symmetric] by simp
    then obtain kp where kp: "kp \<in> set (add_proposals st)" "k = ln_key (kp_leaf kp)" by auto
    then have new: "k \<notin> set (removed_keys (gr_mls g) st)" using rules_checks [OF rules] check_add(1) by (metis set_add_proposals)
    have "k \<in> set (leaf_keys (gr_mls g))" using that cutkeys ok(3) by (metis list.set_map)
    then obtain x where x: "x \<in> set (ml_leaves (gr_mls g))" "k = ln_key (snd x)" by (auto simp: leaf_keys_def)
    show False
    proof (cases "?P x")
      case True
      then show False using keys(3) x kp by fastforce
    next
      case False
      then have "snd x \<in> set (List.map_filter (member_at (gr_mls g)) (remove_proposals st))"
        unfolding map_filter_in using member_at_leaf [OF ok(1) x(1)] by blast
      then show False using new x(2) by (simp add: removed_keys_def)
    qed
  qed
  have dist: "distinct (map r_key (ap_cut a))" unfolding cutkeys by (rule cut_distinct [OF ok(2)])
  have dadd: "distinct (map cm_key (ap_added a))" unfolding added by (rule keys(2))
  have gone': "\<And>k. k \<in> r_key ` set (ap_cut a) \<Longrightarrow> k \<in> cm_key ` set (members_of K ?m) \<Longrightarrow> k \<notin> cm_key ` set (ap_added a)" using gone by blast
  have nxt: "sorted_wrt (\<lambda>a b. r_key a < r_key b) (gs_cut (gr_state g'))"
      "set (gs_cut (gr_state g')) = {r \<in> set (ap_cut a). r_key r \<in> set (leaf_keys ?m)} \<union> (\<lambda>m. cut_start (cm_key m) (ml_epoch ?m)) ` set (ap_added a)"
    unfolding ap(6) members_of_keys [OF law(2), of K, symmetric]
    by (rule next_cut_spec(1) [OF dist dadd gone'], assumption+, rule next_cut_spec(2) [OF dist dadd gone'], assumption+)
  have source: "\<exists>r\<in>set ?cut. cut_moves r r' \<and> well_formed r'" if "r' \<in> set (ap_cut a)" for r' using all2_in [OF moves that] by blast
  have addkeys: "cm_key ` set (ap_added a) = (ln_key \<circ> kp_leaf) ` set (add_proposals st)" using arg_cong [OF added, of set] by simp
  have cutset: "r_key ` set (ap_cut a) = (ln_key \<circ> snd) ` set (ml_leaves (gr_mls g))"
    using arg_cong [OF cutkeys, of set] ok(3) by (simp add: leaf_keys_def)
  have "r_key ` set (gs_cut (gr_state g')) = {k \<in> r_key ` set (ap_cut a). k \<in> set (leaf_keys ?m)} \<union> cm_key ` set (ap_added a)"
    unfolding nxt(2) image_Un image_image by (auto simp: cut_start_def)
  also have "\<dots> = set (leaf_keys ?m)" unfolding cutset keys(1) addkeys by auto
  finally have "r_key ` set (gs_cut (gr_state g')) = set (leaf_keys ?m)" .
  moreover have "list_all well_formed (gs_cut (gr_state g'))"
    unfolding list_all_iff nxt(2) using source by (auto simp: well_formed_start)
  ultimately have "cut_ok g'" using law(2,3) nxt(1) by (simp add: cut_ok_def)
  moreover have "(\<exists>r\<in>set ?cut. cut_moves r r') \<or> r' = cut_start (r_key r') (ml_epoch ?m) \<and> r_key r' \<in> cm_key ` set (ap_added a)"
    if "r' \<in> set (gs_cut (gr_state g'))" for r'
    using that source unfolding nxt(2) by (auto simp: cut_start_def)
  ultimately show ?thesis using law(1) by blast
qed

section \<open>Joining\<close>

lemma join_cut_ok:
  assumes "join_group C K A e adm expected = Inr g" "distinct (map fst (ml_leaves (gr_mls g)))" "distinct (leaf_keys (gr_mls g))"
  shows "cut_ok g" "gs_ended (gr_state g) = wa_cut adm"
proof -
  let ?m = "gr_mls g" and ?ended = "wa_cut adm"
  let ?r = "\<lambda>x. case find_cut ?ended (ln_key (snd x)) of None \<Rightarrow> cut_start (ln_key (snd x)) (ml_epoch ?m) | Some r \<Rightarrow> r"
  have "gs_cut (gr_state g) = join_cut ?m ?ended" and g2: "gs_ended (gr_state g) = ?ended" "list_all well_formed ?ended"
    using assms(1) by (auto simp: join_group_def Let_def result_simps split: prod.splits)
  then have g: "gs_cut (gr_state g) = sort_key ref_order (map ?r (ml_leaves ?m))" "gs_ended (gr_state g) = ?ended" "list_all well_formed ?ended"
    unfolding join_cut_def by simp_all
  have key: "r_key (?r x) = ln_key (snd x)" "well_formed (?r x)" for x
    using g(3) by (auto simp: find_cut_def well_formed_start list_all_iff dest: find_Some_iff2 split: option.split) (simp add: cut_start_def)
  have keys: "map r_key (map ?r (ml_leaves ?m)) = leaf_keys ?m" unfolding leaf_keys_def map_map comp_def key(1) by (rule refl)
  have "mset (map r_key (gs_cut (gr_state g))) = mset (leaf_keys ?m)" unfolding g(1) keys [symmetric] mset_map mset_sort by (rule refl)
  then have set: "distinct (map r_key (gs_cut (gr_state g)))" "set (map r_key (gs_cut (gr_state g))) = set (leaf_keys ?m)"
    using assms(3) mset_eq_imp_distinct_iff mset_eq_setD by blast+
  have "sorted_wrt (\<lambda>a b. r_key a < r_key b) (gs_cut (gr_state g))"
    using sorted_by_key [OF _ set(1)] unfolding g(1) by simp
  moreover have "list_all well_formed (gs_cut (gr_state g))" unfolding g(1) list_all_iff using key(2) by auto
  ultimately show "cut_ok g" using assms(2,3) set(2) by (simp add: cut_ok_def)
  show "gs_ended (gr_state g) = ?ended" by (rule g(2))
qed

section \<open>A session's own commit\<close>

lemma open_entry_update [simp]:
  "open_entry C K (m\<lparr> ml_pending := y \<rparr>) = open_entry C K m" "open_entry C K (m\<lparr> ml_aad := z \<rparr>) = open_entry C K m"
  by (simp_all add: fun_eq_iff open_entry_def envelope_ad_def capability_of_def epoch_context_def)

text \<open>
  C29. A commit this session makes stands until the log decides: it is kept as posted, its wire entry opens to it
  and is judged a valid commit in the epoch it was made in, with the time it was made, and no second commit can
  be made beside it; once cancelled, neither is left.
\<close>

theorem own_commit_is_valid:
  assumes "aead_ad_law C" and "length nonce = 24" and "ml_active (gr_mls g)"
    and "commit_change C K A sk time nonce ch g = (Inr (wire, adm), g')"
  shows "group_posted g' = Some wire \<and> judge C K A wire g' = (Inr (CommitVerdict False time), g') \<and>
    fst (commit_change C K A sk' time' nonce' ch' g') = Inl AlreadyPending \<and>
    gs_cut (gr_state g') = gs_cut (gr_state g) \<and> group_posted (cancel g') = None \<and> ml_pending (gr_mls (cancel g')) = None"
proof -
  have b: "build_commit C K A sk time nonce ch g = Inr ((wire, adm), g')"
    using assms(4) by (auto simp: commit_change_def guarded_def split: if_splits sum.splits prod.splits)
  then obtain st c adds aad where w: "aad = \<lparr> aa_invite = ch_invite ch, aa_left = ch_left ch,
        aa_moved = filter (\<lambda>r. r \<notin> set (gs_cut (gr_state g))) (ch_cut ch), aa_time = time \<rparr>"
      "rules C K (gr_mls g) st (ml_own (gr_mls g)) aad (gs_cut (gr_state g)) = Inr ()"
      "seal_entry C K ((gr_mls g)\<lparr> ml_pending := None, ml_aad := aad_to K aad \<rparr>) nonce (entry_encode \<lparr> commit = c, sig = ed_sign C sk (commit_signed c) \<rparr>) = Inr wire"
      "g' = g\<lparr> gr_mls := (gr_mls g)\<lparr> ml_pending := Some st, ml_aad := aad_to K aad \<rparr>, gr_state := (gr_state g)\<lparr> gs_aad := aad,
        gs_posted := Some \<lparr> po_inner = entry_encode \<lparr> commit = c, sig = ed_sign C sk (commit_signed c) \<rparr>, po_wire = wire,
          po_add_refs = map kp_ref (add_proposals st), po_admission = adm \<rparr> \<rparr> \<rparr>"
    by (auto simp: build_commit_def Let_def result_simps)
  have "open_entry C K (gr_mls g') wire = Inr (entry_encode \<lparr> commit = c, sig = ed_sign C sk (commit_signed c) \<rparr>)"
    using seal_entry_opens(1) [OF assms(1,2) w(3)] w(4) by simp
  then have "judge C K A wire g' = (Inr (CommitVerdict False time), g')"
    using w(1,2,4) assms(3) by (simp add: judge_def own_entry_def)
  then show ?thesis using w(4) by (simp add: group_posted_def commit_change_def cancel_def drop_posted_def)
qed

section \<open>A group of one\<close>

definition one_codec :: codec where
  "one_codec = toy_codec\<lparr> aad_from := (\<lambda>_. Some empty_aad),
     settings_from := (\<lambda>_. Some \<lparr> s_protocol = PROTOCOL, s_carry = 30, s_update = 86400, s_membership = Serve (replicate 32 5) [] [],
       s_admins = [replicate 32 0], s_admitted = [] \<rparr>) \<rparr>"

definition one_group :: core_group where
  "one_group = \<lparr> gr_mls = toy_mls\<lparr> ml_leaves := [(0, \<lparr> ln_key = replicate 32 0, ln_credential = replicate 32 0, ln_encryption = [], ln_extensions = [] \<rparr>)] \<rparr>,
     gr_state = default_state\<lparr> gs_cut := [cut_start (replicate 32 0) 0] \<rparr> \<rparr>"

definition one_staged :: staged where
  "one_staged = \<lparr> sc_proposals = [], sc_epoch = 4, sc_extensions = [UnknownExtension SETTINGS_EXTENSION []], sc_path = None, sc_self_removed = False \<rparr>"

definition one_api :: mls_api where
  "one_api = \<lparr> api_parse = (\<lambda>_. Some (PublicMessage CommitContent)), api_key_package = (\<lambda>_. None),
     api_process = (\<lambda>m b. (Inr \<lparr> pr_epoch = 3, pr_aad = [], pr_sender = MemberSender 0, pr_credential = [], pr_content = StagedCommitMessage one_staged \<rparr>, [])),
     api_merge = (\<lambda>m st. let m' = m\<lparr> ml_epoch := ml_epoch m + 1, ml_extensions := sc_extensions st \<rparr> in if merges m st m' then Some m' else None),
     api_build = (\<lambda>_ _ _ _ _ _. None), api_welcome = (\<lambda>_. None), api_message = (\<lambda>_ _. None) \<rparr>"

definition one_signed :: entry where
  "one_signed = \<lparr> commit = [3], sig = take 64 (replicate 32 0 @ commit_signed [3] @ replicate 32 0) \<rparr>"

definition one_entry :: bytes where
  "one_entry = entry_encode one_signed"

lemma one_law: "merge_law one_api"
  by (simp add: merge_law_def one_api_def Let_def)

lemma one_cut_ok: "cut_ok one_group"
  by (simp add: cut_ok_def one_group_def toy_mls_def default_state_def leaf_keys_def cut_start_def well_formed_def)

lemma one_wire: "\<exists>wire. open_entry toy_crypto one_codec (gr_mls one_group) wire = Inr one_entry"
proof -
  have e: "length one_entry \<le> MAX_INNER" "\<exists>e. entry_parse one_entry = Inr e"
    by (simp_all add: one_entry_def one_signed_def entry_encode_def MAX_INNER_def COMMIT_def entry_parse_def take_bytes_def from_to_be commit_signed_def COMMIT_SIGNED_def)
  then obtain wire where "seal_entry toy_crypto one_codec (gr_mls one_group) (replicate 24 9) one_entry = Inr wire"
    by (auto simp: seal_entry_def envelope_ad_def capability_of_def epoch_context_def settings_of_def one_group_def toy_mls_def one_codec_def toy_codec_def
        service_key_def toy_crypto_def)
  then show ?thesis using seal_entry_opens(1) [OF toy_aead_ad_law] by (metis length_replicate)
qed

lemma one_judged:
  obtains wire a g' where "judge toy_crypto one_codec one_api wire one_group = (Inr (CommitVerdict False 0), one_group)"
    "apply_entry toy_crypto one_codec one_api 5 wire one_group = (Inr a, g')"
proof -
  obtain wire where wire: "open_entry toy_crypto one_codec (gr_mls one_group) wire = Inr one_entry" using one_wire by blast
  have en: "entry_parse one_entry = Inr one_signed"
    by (simp add: one_entry_def one_signed_def entry_encode_def COMMIT_def entry_parse_def take_bytes_def from_to_be commit_signed_def COMMIT_SIGNED_def)
  have own: "\<not> own_entry one_entry one_group" "ml_active (gr_mls one_group)" by (simp_all add: own_entry_def one_group_def default_state_def toy_mls_def)
  have stage: "stage toy_crypto one_codec one_api (commit one_signed) (sig one_signed) one_group =
      (Inr (StagedCommit one_staged 0 empty_aad), one_group\<lparr> gr_mls := (gr_mls one_group)\<lparr> ml_secrets := [] \<rparr> \<rparr>)"
    by (simp add: stage_def one_api_def stage_processed_def one_codec_def toy_codec_def member_at_def one_group_def toy_mls_def rules_def
        verify_ed_def toy_crypto_def one_staged_def settings_of_def member_of_def empty_aad_def add_proposals_def map_filter_def check_path_def
        one_signed_def commit_signed_def COMMIT_SIGNED_def default_state_def)
  have judge: "judge toy_crypto one_codec one_api wire one_group = (Inr (CommitVerdict False 0), one_group)"
    using wire own en stage by (simp add: judge_def guarded_def) (simp add: one_staged_def empty_aad_def)
  obtain a gs where o: "observe one_codec 5 ((gr_mls one_group)\<lparr> ml_secrets := [] \<rparr>) (gr_state one_group) one_staged 0 empty_aad False = Inr (a, gs)"
      "ap_added a = []"
    by (simp add: observe_def one_staged_def empty_aad_def add_proposals_def map_filter_def)
  obtain m where "api_merge one_api ((gr_mls one_group)\<lparr> ml_secrets := [], ml_pending := None \<rparr>) one_staged = Some m"
    by (simp add: one_api_def one_group_def toy_mls_def one_staged_def merges_def leaf_keys_def add_proposals_def remove_proposals_def map_filter_def)
  then have "\<exists>a g'. apply_entry toy_crypto one_codec one_api 5 wire one_group = (Inr a, g')"
    using wire own(1) en stage o by (simp add: apply_entry_def guarded_def apply_other_def merge_into_def merged_def Let_def)
  then show ?thesis using judge that by blast
qed

theorem judged_commit_authorized_witness:
  "\<exists>wire a g'. apply_entry toy_crypto one_codec one_api 5 wire one_group = (Inr a, g') \<and> member_at (gr_mls one_group) (ap_by a) \<noteq> None"
proof -
  obtain wire a g' where w: "judge toy_crypto one_codec one_api wire one_group = (Inr (CommitVerdict False 0), one_group)"
    "apply_entry toy_crypto one_codec one_api 5 wire one_group = (Inr a, g')" using one_judged .
  show ?thesis using judged_commit_authorized [OF one_law w] w(2) by blast
qed

theorem apply_keeps_cut_state_witness:
  "\<exists>wire a g'. apply_entry toy_crypto one_codec one_api 5 wire one_group = (Inr a, g') \<and> cut_ok g'"
proof -
  obtain wire a g' where w: "judge toy_crypto one_codec one_api wire one_group = (Inr (CommitVerdict False 0), one_group)"
    "apply_entry toy_crypto one_codec one_api 5 wire one_group = (Inr a, g')" using one_judged .
  show ?thesis using apply_keeps_cut_state [OF one_law one_cut_ok w] w(2) by blast
qed

definition built_api :: mls_api where
  "built_api = one_api\<lparr> api_build := (\<lambda>_ _ _ _ _ _. Some (one_staged, [3], None)) \<rparr>"

definition empty_change :: change where
  "empty_change = \<lparr> ch_add = [], ch_invite = None, ch_remove = [], ch_left = [], ch_leaf = None, ch_settings = None, ch_cut = [] \<rparr>"

theorem own_commit_is_valid_witness:
  "\<exists>wire adm g'. commit_change toy_crypto one_codec built_api [] 8 (replicate 24 9) empty_change one_group = (Inr (wire, adm), g') \<and>
    judge toy_crypto one_codec built_api wire g' = (Inr (CommitVerdict False 8), g')"
proof -
  have "\<exists>r g'. commit_change toy_crypto one_codec built_api [] 8 (replicate 24 9) empty_change one_group = (Inr r, g')"
    by (simp add: commit_change_def guarded_def build_commit_def empty_change_def built_api_def one_group_def default_state_def toy_mls_def Let_def
        rules_def settings_of_def one_codec_def toy_codec_def member_of_def member_at_def one_staged_def add_proposals_def map_filter_def check_path_def
        seal_entry_def envelope_ad_def capability_of_def epoch_context_def service_key_def toy_crypto_def entry_encode_def COMMIT_def entry_parse_def
        take_bytes_def from_to_be commit_signed_def COMMIT_SIGNED_def MAX_INNER_def cut_start_def)
  then obtain wire adm g' where c: "commit_change toy_crypto one_codec built_api [] 8 (replicate 24 9) empty_change one_group = (Inr (wire, adm), g')"
    by (metis surj_pair)
  have "ml_active (gr_mls one_group)" by (simp add: one_group_def toy_mls_def)
  from own_commit_is_valid [OF toy_aead_ad_law _ this c] show ?thesis using c by auto
qed

end
