(* ===== verification/Opening.thy ===== *)
theory Opening
  imports Delivery_Live Group_Spec Peers
begin

text \<open>
  Taking held ciphertexts (\<open>take\<close> to \<open>control\<close> in \<open>crates/node/src/held.rs\<close>): what a peer sends is opened when it is in
  order, within the window and the membership's bucket, kept a while unopened when it is not, and stored once
  opened. The state of one group is its MLS group, what the node keeps of its held messages, and the peers. The
  fields of \<open>node\<close> that show the MLS state are the group's (\<open>in_sync\<close>). A warning, which the code sends at once, is
  the event of its place. \<open>D\<close> is serde's reading of one of the core's payloads.
\<close>

section \<open>State\<close>

record inbox =
  ib_core :: core_group
  ib_node :: node
  ib_peers :: peers

definition in_sync :: "core_group \<Rightarrow> node \<Rightarrow> bool" where
  "in_sync g n \<longleftrightarrow> (\<forall>key. joined_at n key = group_joined g key) \<and> n_epoch n = ml_epoch (gr_mls g) \<and> n_gid n = ml_group_id (gr_mls g)"

definition remember :: "bytes list \<Rightarrow> bytes \<Rightarrow> bytes list" where
  "remember seen hash = (if length seen \<ge> SEEN then drop 1 seen else seen) @ [hash]"

definition kept_bytes :: "node \<Rightarrow> nat" where
  "kept_bytes n = sum_list (map (length \<circ> snd) (n_early n)) + sum_list (map (length \<circ> snd \<circ> snd) (n_unopened n))"

definition has_room :: "node \<Rightarrow> bytes \<Rightarrow> bool" where
  "has_room n cipher \<longleftrightarrow> kept_bytes n + length cipher \<le> UNOPENED"

fun raise_at :: "bytes \<Rightarrow> nat \<Rightarrow> (bytes \<times> nat) list \<Rightarrow> (bytes \<times> nat) list" where
  "raise_at key epoch [] = [(key, epoch)]"
| "raise_at key epoch (m # ms) = (if fst m = key then (key, max (snd m) epoch) # ms else m # raise_at key epoch ms)"

definition member_at_epoch :: "node \<Rightarrow> bytes \<Rightarrow> nat \<Rightarrow> node" where
  "member_at_epoch n key epoch = n\<lparr> n_members := raise_at key epoch (n_members n) \<rparr>"

definition with_author :: "bytes \<Rightarrow> nat \<Rightarrow> (author \<Rightarrow> author) \<Rightarrow> node \<Rightarrow> node" where
  "with_author key joined f n = n\<lparr> n_authors := author_mut key joined f (n_authors n) \<rparr>"

section \<open>Acting on what opened\<close>

text \<open>What others lost of this session's own: of those it knows it sent, with the ids of its chat messages among them.\<close>

definition lost_of_own :: "node \<Rightarrow> seqs \<Rightarrow> lost_of option" where
  "lost_of_own n lost =
     (case author_at (n_authors n) (n_me n) (sq_joined lost) of
        None \<Rightarrow> None
      | Some a \<Rightarrow>
          let seqs = iter (intersection (sq_seqs lost) (range_of 1 (evidence a)));
              ids = List.map_filter (\<lambda>s. case id_at n (n_me n) (sq_joined lost) s of
                  None \<Rightarrow> None
                | Some ident \<Rightarrow> (case n_records n ident of
                    Some r \<Rightarrow> if is_control (hd_payload (hr_header r)) then None else Some ident
                  | None \<Rightarrow> Some ident)) seqs
          in if seqs = [] then None
             else Some \<lparr> lo_from = member_by_key n (n_me n), lo_joined = sq_joined lost, lo_seqs = seqs, lo_ids = ids \<rparr>)"

definition control_on :: "(json \<Rightarrow> control option) \<Rightarrow> node \<Rightarrow> header \<Rightarrow> node" where
  "control_on D n h =
     (if \<not> is_control (hd_payload h) then n
      else case D (hd_payload h) of
        None \<Rightarrow> n
      | Some (LeaveControl sg) \<Rightarrow>
          n\<lparr> n_leaves := n_leaves n @ [(hd_author h, hd_joined h, hd_seq h, sg)], n_duties := n_duties n + 1 \<rparr>
      | Some (InviteControl hash expires) \<Rightarrow>
          if list_ex (\<lambda>r. ru_hash r = hash) (n_invites n) then n
          else n\<lparr> n_invites := n_invites n @ [\<lparr> ru_hash = hash, ru_expires = expires, ru_by = hd_author h, ru_to = None \<rparr>] \<rparr>
      | Some (LostControl lost) \<Rightarrow>
          if hd_author h = n_me n then n
          else
            let messages = List.map_filter (lost_of_own n) (filter (\<lambda>l. sq_key l = n_me n) lost)
            in if messages = [] then n
               else n\<lparr> n_events := n_events n @ [LostEvent (n_gid n) (member_by_key n (hd_author h)) messages] \<rparr>
      | Some PresentControl \<Rightarrow> n)"

text \<open>A ciphertext of a kept seq that is too old to open: the seq is lost.\<close>

definition unheld :: "codec \<Rightarrow> mls_api \<Rightarrow> node \<Rightarrow> bytes \<Rightarrow> node_error + node" where
  "unheld S A n cipher =
     (case core_claim S A cipher of
        Inl _ \<Rightarrow> Inl BadClaim
      | Inr (cl, _) \<Rightarrow>
          (case author_at (n_authors n) (cl_key cl) (cl_joined cl) of
             None \<Rightarrow> Inr n
           | Some a \<Rightarrow>
               if cl_seq cl > a_cut a \<or> contains (a_held a) (cl_seq cl) \<or> contains (a_lost a) (cl_seq cl) then Inr n
               else
                 let n = with_author (cl_key cl) (cl_joined cl) (\<lambda>a. a\<lparr> a_lost := insert_at (cl_seq cl) (a_lost a) \<rparr>) n
                 in Inr (n\<lparr> n_changed := True,
                      n_lost := n_lost n @ [\<lparr> sq_key = cl_key cl, sq_joined = cl_joined cl, sq_seqs = range_of (cl_seq cl) (cl_seq cl) \<rparr>],
                      n_duties := n_duties n + 1,
                      n_events := n_events n @ [LostEvent (n_gid n) (member_by_key n (n_me n))
                        [\<lparr> lo_from = member_by_key n (cl_key cl), lo_joined = cl_joined cl, lo_seqs = [cl_seq cl], lo_ids = [] \<rparr>]] \<rparr>)))"

text \<open>A newer sealing of a message not kept yet.\<close>

definition reseal :: "nat \<Rightarrow> header \<Rightarrow> bytes \<Rightarrow> bytes \<Rightarrow> node \<Rightarrow> node_error + (bytes \<times> nat) option \<times> node" where
  "reseal epoch h ident cipher n =
     rbind (context_of (n_records n ident) NoRecord) (\<lambda>r.
     rbind (context_of (author_at (n_authors n) (hd_author h) (hd_joined h)) NoAuthor) (\<lambda>a.
       if hd_seq h \<le> a_cut a \<or> (case hr_sealing r of None \<Rightarrow> False | Some s \<Rightarrow> fst s \<ge> epoch) then Inr (None, n)
       else
         let n = with_author (hd_author h) (hd_joined h) (\<lambda>a. a\<lparr> a_servable := insert_at (hd_seq h) (a_servable a),
               a_sealed := bt_insert (hd_seq h) epoch (a_sealed a) \<rparr>) n;
             n = store_record (n\<lparr> n_changed := True \<rparr>) (r\<lparr> hr_sealing := Some (epoch, cipher) \<rparr>);
             n = (if list_ex (\<lambda>l. fst l = hd_author h \<and> fst (snd l) = hd_joined h) (n_leaves n) then n\<lparr> n_duties := n_duties n + 1 \<rparr> else n)
         in Inr (Some (cipher, hd_epoch h), n)))"

text \<open>What a message's prev and deps tell: what was sent before this session joined, and what is known.\<close>

definition take_evidence :: "nat \<Rightarrow> nat \<Rightarrow> header \<Rightarrow> node \<Rightarrow> node" where
  "take_evidence now own h n =
     (let n = (case hd_prev h of
                 Some (_, sent) \<Rightarrow> if sent < own then before_joining n (hd_author h) (hd_joined h) (hd_seq h - 1) else n
               | None \<Rightarrow> n);
          n = foldl (\<lambda>n dep. before_joining n (r_key dep) (r_joined dep) (r_seq dep)) n (filter (\<lambda>dep. r_epoch dep < own) (hd_deps h));
          n = learn n (hd_author h) (hd_joined h) (sat_sub (hd_seq h) 1) now
      in foldl (\<lambda>n dep. learn n (r_key dep) (r_joined dep) (r_seq dep) now) n (hd_deps h))"

definition hold_opened :: "header \<Rightarrow> nat \<Rightarrow> author \<Rightarrow> author" where
  "hold_opened h epoch a = a\<lparr> a_known := max (a_known a) (hd_seq h), a_held := insert_at (hd_seq h) (a_held a),
     a_servable := insert_at (hd_seq h) (a_servable a),
     a_sealed := (if hd_seq h > a_cut a then bt_insert (hd_seq h) epoch (a_sealed a) else a_sealed a) \<rparr>"

definition keep_opened :: "(json \<Rightarrow> control option) \<Rightarrow> nat \<Rightarrow> core_group \<Rightarrow> opened \<Rightarrow> bytes \<Rightarrow> node \<Rightarrow> node_error + (bytes \<times> nat) option \<times> node" where
  "keep_opened D now g op cipher n =
     (let h = op_header op
      in rbind (context_of (group_joined g (n_me n)) node_error.NotAMember) (\<lambda>own.
         (let n = take_evidence now own h n
          in rbind (context_of (author_at (n_authors n) (hd_author h) (hd_joined h)) NoAuthor) (\<lambda>_.
             (let n = with_author (hd_author h) (hd_joined h) (hold_opened h (op_epoch op)) n;
                  r = \<lparr> hr_id = op_id op, hr_header = h, hr_plaintext = None, hr_sealing = Some (op_epoch op, cipher),
                        hr_opened = now, hr_released = False, hr_delivered = None \<rparr>;
                  n = store_record (n\<lparr> n_changed := True \<rparr>) r
              in Inr (Some (cipher, hd_epoch h), control_on D n h))))))"

definition contradicts_prev :: "node \<Rightarrow> header \<Rightarrow> bool" where
  "contradicts_prev n h \<longleftrightarrow> hd_seq h > 1 \<and>
     (case id_at n (hd_author h) (hd_joined h) (hd_seq h - 1) of None \<Rightarrow> False | Some prev \<Rightarrow> map_option fst (hd_prev h) \<noteq> Some prev)"

definition warn :: "node \<Rightarrow> bytes \<Rightarrow> u64 \<Rightarrow> node" where
  "warn n author seq = n\<lparr> n_events := n_events n @ [WarningEvent (n_gid n) author seq] \<rparr>"

definition keep_or_reseal ::
  "(json \<Rightarrow> control option) \<Rightarrow> nat \<Rightarrow> core_group \<Rightarrow> opened \<Rightarrow> bytes \<Rightarrow> node \<Rightarrow> node_error + (bytes \<times> nat) option \<times> node" where
  "keep_or_reseal D now g op cipher n =
     (let h = op_header op;
          n = (if hd_author h \<noteq> n_me n \<and> group_joined g (hd_author h) = Some (hd_joined h)
               then member_at_epoch n (hd_author h) (op_epoch op) else n)
      in case id_at n (hd_author h) (hd_joined h) (hd_seq h) of
           Some held \<Rightarrow> if held = op_id op then reseal (op_epoch op) h (op_id op) cipher n
             else Inr (None, warn n (hd_author h) (hd_seq h))
         | None \<Rightarrow> if contradicts_prev n h then Inr (None, warn n (hd_author h) (hd_seq h - 1)) else keep_opened D now g op cipher n)"

definition open_one ::
  "crypto \<Rightarrow> codec \<Rightarrow> mls_api \<Rightarrow> (json \<Rightarrow> control option) \<Rightarrow> nat \<Rightarrow> bytes \<Rightarrow> inbox \<Rightarrow> node_error + (bytes \<times> nat) option \<times> inbox" where
  "open_one C S A D now cipher ib =
     (let (r, g) = open_held C S A cipher (ib_core ib); ib = ib\<lparr> ib_core := g \<rparr>
      in case r of
           Inl UnheldMessage \<Rightarrow> rbind (unheld S A (ib_node ib) cipher) (\<lambda>n. Inr (None, ib\<lparr> ib_node := n \<rparr>))
         | Inl _ \<Rightarrow> Inr (None, ib)
         | Inr op \<Rightarrow> rbind (keep_or_reseal D now g op cipher (ib_node ib)) (\<lambda>(x, n). Inr (x, ib\<lparr> ib_node := n \<rparr>)))"

section \<open>Taking\<close>

definition take_bucket :: "node \<Rightarrow> bytes \<times> nat \<Rightarrow> nat \<Rightarrow> nat \<Rightarrow> bool \<times> node" where
  "take_bucket n m size_of now =
     (let (taken, b) = bucket_take (bt_or bucket_default (n_buckets n) m) size_of 2 now
      in (taken, n\<lparr> n_buckets := bt_insert m b (n_buckets n) \<rparr>))"

definition take_known ::
  "crypto \<Rightarrow> codec \<Rightarrow> mls_api \<Rightarrow> (json \<Rightarrow> control option) \<Rightarrow> nat \<Rightarrow> claim \<Rightarrow> nat \<Rightarrow> bytes \<Rightarrow> author \<Rightarrow> inbox \<Rightarrow>
    node_error + (bytes \<times> nat) option \<times> inbox" where
  "take_known C S A D now cl epoch cipher a ib =
     (let n = ib_node ib; seq = cl_seq cl; m = (cl_key cl, cl_joined cl);
          newer = (case bt_get (a_sealed a) seq of None \<Rightarrow> False | Some sealed \<Rightarrow> epoch > sealed);
          wanted = (\<not> contains (a_held a) seq \<and> \<not> contains (a_lost a) seq)
      in if seq \<le> a_baseline a \<or> (a_ended a \<and> seq > a_cut a) \<or> \<not> (newer \<or> wanted) then Inr (None, ib)
         else rbind (context_of (lowest_of a) LowestOverflow) (\<lambda>lowest.
           (let (taken, n) = (if \<not> seq < lowest + WINDOW then (False, n)
                              else if n_waiting n \<or> newer then (True, n)
                              else take_bucket n m (length cipher) now)
            in if \<not> taken then
                 Inr (None, ib\<lparr> ib_node := (if has_room n cipher
                   then n\<lparr> n_unopened := bt_insert (cl_key cl, cl_joined cl, seq) (epoch, cipher) (n_unopened n),
                          n_seen := remember (n_seen n) (sha256 C cipher) \<rparr>
                   else n) \<rparr>)
               else open_one C S A D now cipher (ib\<lparr> ib_node := n\<lparr> n_seen := remember (n_seen n) (sha256 C cipher) \<rparr> \<rparr>))))"

definition take_one ::
  "crypto \<Rightarrow> codec \<Rightarrow> mls_api \<Rightarrow> (json \<Rightarrow> control option) \<Rightarrow> nat \<Rightarrow> bytes option \<Rightarrow> bytes \<Rightarrow> inbox \<Rightarrow>
    node_error + (bytes \<times> nat) option \<times> inbox" where
  "take_one C S A D now from_peer cipher ib =
     (let n = ib_node ib; current = ml_epoch (gr_mls (ib_core ib))
      in if length cipher > MAX_MESSAGE \<or> sha256 C cipher \<in> set (n_seen n) then Inr (None, ib)
         else case core_claim S A cipher of
           Inl _ \<Rightarrow> Inr (None, ib)
         | Inr (cl, epoch) \<Rightarrow>
             let ib = (case from_peer of
                         Some peer \<Rightarrow> if epoch > current then ib\<lparr> ib_peers := behind (ib_peers ib) peer \<rparr> else ib
                       | None \<Rightarrow> ib)
             in if epoch = current + 1 then
                  Inr (None, case from_peer of
                    Some peer \<Rightarrow> if has_room n cipher then ib\<lparr> ib_node := n\<lparr> n_early := n_early n @ [(peer, cipher)] \<rparr> \<rparr> else ib
                  | None \<Rightarrow> ib)
                else case author_at (n_authors n) (cl_key cl) (cl_joined cl) of
                  None \<Rightarrow> Inr (None, ib)
                | Some a \<Rightarrow>
                    if \<not> (epoch \<le> current \<and> epoch + 1 \<ge> current) then Inr (None, ib)
                    else take_known C S A D now cl epoch cipher a ib)"

text \<open>
  The next unopened ciphertext in order: within the window of its membership. \<open>lowest\<close> panics on a membership with
  no seq left, which stops the search there.
\<close>

fun next_unopened :: "author list \<Rightarrow> ((bytes \<times> nat \<times> u64) \<times> nat \<times> bytes) list \<Rightarrow> node_error + (bytes \<times> nat \<times> u64) option" where
  "next_unopened as [] = Inr None"
| "next_unopened as (u # us) =
     (let (key, joined, seq) = fst u
      in case author_at as key joined of
           None \<Rightarrow> next_unopened as us
         | Some a \<Rightarrow> rbind (context_of (lowest_of a) LowestOverflow) (\<lambda>lowest.
             if seq < lowest + WINDOW then Inr (Some (fst u)) else next_unopened as us))"

text \<open>Each turn of the loop opens one, so as many turns as there are unopened are enough; \<open>None\<close> is running out.\<close>

fun open_unopened_loop ::
  "nat \<Rightarrow> crypto \<Rightarrow> codec \<Rightarrow> mls_api \<Rightarrow> (json \<Rightarrow> control option) \<Rightarrow> nat \<Rightarrow> (bytes \<times> nat) list \<Rightarrow> inbox \<Rightarrow>
    (node_error + (bytes \<times> nat) list \<times> inbox) option" where
  "open_unopened_loop 0 C S A D now opened ib = None"
| "open_unopened_loop (Suc fuel) C S A D now opened ib =
     (let n = ib_node ib
      in case next_unopened (n_authors n) (n_unopened n) of
           Inl e \<Rightarrow> Some (Inl e)
         | Inr None \<Rightarrow> Some (Inr (opened, ib))
         | Inr (Some u) \<Rightarrow>
             (case bt_get (n_unopened n) u of
                None \<Rightarrow> Some (Inl BadClaim)
              | Some (_, cipher) \<Rightarrow>
                  let (taken, n) = (if n_waiting n then (True, n) else take_bucket n (fst u, fst (snd u)) (length cipher) now)
                  in if \<not> taken then Some (Inr (opened, ib\<lparr> ib_node := n \<rparr>))
                     else (case open_one C S A D now cipher (ib\<lparr> ib_node := n\<lparr> n_unopened := bt_remove u (n_unopened n) \<rparr> \<rparr>) of
                             Inl e \<Rightarrow> Some (Inl e)
                           | Inr (x, ib) \<Rightarrow> open_unopened_loop fuel C S A D now (opened @ (case x of None \<Rightarrow> [] | Some y \<Rightarrow> [y])) ib)))"

definition open_unopened ::
  "crypto \<Rightarrow> codec \<Rightarrow> mls_api \<Rightarrow> (json \<Rightarrow> control option) \<Rightarrow> nat \<Rightarrow> (bytes \<times> nat) list \<Rightarrow> inbox \<Rightarrow>
    (node_error + (bytes \<times> nat) list \<times> inbox) option" where
  "open_unopened C S A D now opened ib = open_unopened_loop (Suc (length (n_unopened (ib_node ib)))) C S A D now opened ib"

fun open_claims ::
  "crypto \<Rightarrow> codec \<Rightarrow> mls_api \<Rightarrow> (json \<Rightarrow> control option) \<Rightarrow> nat \<Rightarrow> (bytes \<times> nat \<times> u64) list \<Rightarrow> inbox \<Rightarrow> node_error + inbox" where
  "open_claims C S A D now [] ib = Inr ib"
| "open_claims C S A D now (u # us) ib =
     (case bt_get (n_unopened (ib_node ib)) u of
        None \<Rightarrow> Inl BadClaim
      | Some (_, cipher) \<Rightarrow>
          let n = ib_node ib
          in rbind (open_one C S A D now cipher (ib\<lparr> ib_node := n\<lparr> n_unopened := bt_remove u (n_unopened n) \<rparr> \<rparr>)) (\<lambda>(_, ib).
             open_claims C S A D now us ib))"

definition open_all ::
  "crypto \<Rightarrow> codec \<Rightarrow> mls_api \<Rightarrow> (json \<Rightarrow> control option) \<Rightarrow> nat \<Rightarrow> nat \<Rightarrow> inbox \<Rightarrow> node_error + inbox" where
  "open_all C S A D now epoch ib =
     open_claims C S A D now (map fst (filter (\<lambda>u. fst (snd u) \<le> epoch) (n_unopened (ib_node ib)))) ib"

fun take_each ::
  "crypto \<Rightarrow> codec \<Rightarrow> mls_api \<Rightarrow> (json \<Rightarrow> control option) \<Rightarrow> nat \<Rightarrow> bytes option \<Rightarrow> bytes list \<Rightarrow> inbox \<Rightarrow>
    node_error + (bytes \<times> nat) list \<times> inbox" where
  "take_each C S A D now from_peer [] ib = Inr ([], ib)"
| "take_each C S A D now from_peer (c # cs) ib =
     rbind (take_one C S A D now from_peer c ib) (\<lambda>(x, ib).
     rbind (take_each C S A D now from_peer cs ib) (\<lambda>(xs, ib).
       Inr ((case x of None \<Rightarrow> [] | Some y \<Rightarrow> [y]) @ xs, ib)))"

text \<open>
  What \<open>take\<close> passes on: to each neighbour but the sender, what was sent since the neighbour joined, the small
  ones pushed and the large ones announced. \<open>joined_of\<close> gives a neighbour's epoch, past all for no member.
\<close>

fun claims_of :: "codec \<Rightarrow> mls_api \<Rightarrow> (bytes \<times> nat) list \<Rightarrow> node_error + (claim \<times> nat) list" where
  "claims_of S A [] = Inr []"
| "claims_of S A (x # xs) = (case core_claim S A (fst x) of
     Inl _ \<Rightarrow> Inl BadClaim
   | Inr (cl, _) \<Rightarrow> rbind (claims_of S A xs) (\<lambda>cs. Inr ((cl, snd x) # cs)))"

definition forward_to :: "bytes \<Rightarrow> bool \<Rightarrow> (bytes \<times> nat) list \<Rightarrow> (claim \<times> nat) list \<Rightarrow> nat \<Rightarrow> frame list" where
  "forward_to gid forward small large joined =
     (let items = map fst (filter (\<lambda>x. forward \<and> snd x \<ge> joined) small);
          held = map (\<lambda>x. \<lparr> sq_key = cl_key (fst x), sq_joined = cl_joined (fst x), sq_seqs = range_of (cl_seq (fst x)) (cl_seq (fst x)) \<rparr>)
            (filter (\<lambda>x. snd x \<ge> joined) large)
      in (if items = [] then [] else [HeldFrame gid items None]) @ (if held = [] then [] else [Have gid held]))"

definition forwards ::
  "codec \<Rightarrow> mls_api \<Rightarrow> (bytes \<Rightarrow> nat option) \<Rightarrow> bytes option \<Rightarrow> bool \<Rightarrow> (bytes \<times> nat) list \<Rightarrow> inbox \<Rightarrow> node_error + (bytes \<times> frame) list" where
  "forwards S A joined_of from_peer forward opened ib =
     (let gid = n_gid (ib_node ib)
      in if opened = [] then Inr []
         else rbind (context_of (full_mesh (ib_peers ib) gid) NotShared) (\<lambda>meshed.
           if meshed then Inr []
           else
             let small = filter (\<lambda>x. \<not> length (fst x) > PUSH) opened
             in rbind (claims_of S A (filter (\<lambda>x. length (fst x) > PUSH) opened)) (\<lambda>large.
                Inr (concat (map (\<lambda>peer. if Some peer = from_peer then []
                   else map (\<lambda>f. (peer, f)) (case joined_of peer of None \<Rightarrow> [] | Some joined \<Rightarrow> forward_to gid forward small large joined))
                  (neighbours (ib_peers ib) gid))))))"

definition take_held ::
  "crypto \<Rightarrow> codec \<Rightarrow> mls_api \<Rightarrow> (json \<Rightarrow> control option) \<Rightarrow> nat \<Rightarrow> (bytes \<Rightarrow> nat option) \<Rightarrow> bytes option \<Rightarrow> bytes list \<Rightarrow> bool \<Rightarrow> bool \<Rightarrow> inbox \<Rightarrow>
    (node_error + (bytes \<times> frame) list \<times> inbox) option" where
  "take_held C S A D now joined_of from_peer ciphers forward fetching ib =
     (case take_each C S A D now from_peer ciphers ib of
        Inl e \<Rightarrow> Some (Inl e)
      | Inr (opened, ib) \<Rightarrow>
          (case open_unopened C S A D now opened ib of
             None \<Rightarrow> None
           | Some (Inl e) \<Rightarrow> Some (Inl e)
           | Some (Inr (opened, ib)) \<Rightarrow>
               (case forwards S A joined_of from_peer forward opened ib of
                  Inl e \<Rightarrow> Some (Inl e)
                | Inr frames \<Rightarrow>
                    (case deliver_ready now (ib_node ib) of
                       None \<Rightarrow> None
                     | Some (Inl e) \<Rightarrow> Some (Inl e)
                     | Some (Inr n) \<Rightarrow>
                         Some (Inr (frames, ib\<lparr> ib_node := (if fetching then n\<lparr> n_duties := n_duties n + 1 \<rparr> else n) \<rparr>))))))"

end
