(* ===== verification/Opening_Spec.thy ===== *)
theory Opening_Spec
  imports Opening
begin

text \<open>
  Taking what peers send is safe: whatever bytes come, storage stays one record for each seq stored, delivery
  stays causal and complete, and no step fails. SHA-256 names messages; where two plaintexts met have one digest,
  the theorems exhibit them.
\<close>

section \<open>The invariant\<close>

definition seq_at :: "author \<Rightarrow> u64 \<Rightarrow> bytes \<times> nat \<times> u64" where
  "seq_at a s = (a_key a, a_joined a, s)"

definition seq_of_header :: "header \<Rightarrow> bytes \<times> nat \<times> u64" where
  "seq_of_header h = (hd_author h, hd_joined h, hd_seq h)"

text \<open>Each seq stored has one record, of that seq, named by the digest of one of the plaintexts in \<open>P\<close> that decodes to it.\<close>

definition stored_ok :: "crypto \<Rightarrow> codec \<Rightarrow> bytes set \<Rightarrow> node \<Rightarrow> bool" where
  "stored_ok C S P n \<longleftrightarrow>
     (\<forall>k ident. n_ids n k = Some ident \<longrightarrow> (\<exists>r. n_records n ident = Some r \<and> seq_of_header (hr_header r) = k)) \<and>
     (\<forall>ident r. n_records n ident = Some r \<longrightarrow> hr_id r = ident \<and> n_ids n (seq_of_header (hr_header r)) = Some ident \<and>
        (\<exists>p\<in>P. held_id C p = ident \<and> header_from S p = Some (hr_header r)))"

definition sealed_stored :: "node \<Rightarrow> bool" where
  "sealed_stored n \<longleftrightarrow> (\<forall>a\<in>set (n_authors n). \<forall>s. bt_get (a_sealed a) s \<noteq> None \<longrightarrow> seq_at a s \<in> dom (n_ids n))"

text \<open>Opening it stores no second record for a seq delivered before.\<close>

definition openable :: "node \<Rightarrow> bytes \<times> nat \<times> u64 \<Rightarrow> bool" where
  "openable n k \<longleftrightarrow> (\<exists>a. author_at (n_authors n) (fst k) (fst (snd k)) = Some a \<and>
     (snd (snd k) \<in> range_set (a_delivered a) \<longrightarrow> k \<in> dom (n_ids n)))"

definition claimed :: "codec \<Rightarrow> mls_api \<Rightarrow> bytes \<Rightarrow> (bytes \<times> nat \<times> u64) \<Rightarrow> nat \<Rightarrow> bool" where
  "claimed S A c k epoch \<longleftrightarrow> (\<exists>cl. core_claim S A c = Inr (cl, epoch) \<and> k = (cl_key cl, cl_joined cl, cl_seq cl))"

text \<open>What a group keeps unopened, and of the hashes it saw, stays within its bounds.\<close>

definition within_bounds :: "node \<Rightarrow> bool" where
  "within_bounds n \<longleftrightarrow> kept_bytes n \<le> UNOPENED \<and> length (n_seen n) \<le> SEEN"

definition unopened_ok :: "codec \<Rightarrow> mls_api \<Rightarrow> node \<Rightarrow> bool" where
  "unopened_ok S A n \<longleftrightarrow> bt_wf (n_unopened n) \<and> within_bounds n \<and>
     (\<forall>(k, epoch, c)\<in>set (n_unopened n). claimed S A c k epoch \<and> openable n k)"

definition node_ok :: "crypto \<Rightarrow> codec \<Rightarrow> bytes set \<Rightarrow> node \<Rightarrow> bool" where
  "node_ok C S P n \<longleftrightarrow> wf_node n \<and> causal n \<and> stored_ok C S P n \<and> sealed_stored n"

definition inbox_ok :: "crypto \<Rightarrow> codec \<Rightarrow> mls_api \<Rightarrow> bytes set \<Rightarrow> inbox \<Rightarrow> bool" where
  "inbox_ok C S A P ib \<longleftrightarrow> node_ok C S P (ib_node ib) \<and> unopened_ok S A (ib_node ib) \<and> in_sync (ib_core ib) (ib_node ib) \<and>
     group_joined (ib_core ib) (n_me (ib_node ib)) \<noteq> None \<and> full_mesh (ib_peers ib) (n_gid (ib_node ib)) \<noteq> None"

text \<open>openmls processes a message under the authenticated data of its framing.\<close>

definition framing_law :: "mls_api \<Rightarrow> bool" where
  "framing_law A \<longleftrightarrow> (\<forall>m b ct epoch gid ad pr secrets. api_parse A b = Some (PrivateMessage ct epoch gid ad) \<and>
     api_process A m b = (Inr pr, secrets) \<longrightarrow> pr_aad pr = ad)"

definition opens_in :: "mls_api \<Rightarrow> bytes set \<Rightarrow> bool" where
  "opens_in A P \<longleftrightarrow> (\<forall>m b pr secrets plain. api_process A m b = (Inr pr, secrets) \<and> pr_content pr = ApplicationMessage plain \<longrightarrow> plain \<in> P)"

definition two_of_one_digest :: "crypto \<Rightarrow> bytes set \<Rightarrow> bool" where
  "two_of_one_digest C P \<longleftrightarrow> (\<exists>p\<in>P. \<exists>q\<in>P. p \<noteq> q \<and> sha256 C p = sha256 C q)"

section \<open>What opening changes\<close>

definition adds :: "node \<Rightarrow> node \<Rightarrow> author \<Rightarrow> author \<Rightarrow> bool" where
  "adds n n' a a' \<longleftrightarrow> keyof a' = keyof a \<and> a_delivered a' = a_delivered a \<and> resolves_more a a' \<and> (wf_author a \<longrightarrow> wf_author a') \<and>
     (\<forall>s\<in>range_set (a_held a'). s \<in> range_set (a_held a) \<or> 1 \<le> s \<and> seq_at a s \<in> dom (n_ids n') - dom (n_ids n)) \<and>
     (\<forall>s. bt_get (a_sealed a') s \<noteq> None \<longrightarrow> bt_get (a_sealed a) s \<noteq> None \<or> seq_at a s \<in> dom (n_ids n'))"

definition same_record :: "held_record \<Rightarrow> held_record \<Rightarrow> bool" where
  "same_record r r' \<longleftrightarrow> r' = r\<lparr> hr_sealing := hr_sealing r' \<rparr>"

definition same_view :: "node \<Rightarrow> node \<Rightarrow> bool" where
  "same_view n n' \<longleftrightarrow> n_gid n' = n_gid n \<and> n_me n' = n_me n \<and> n_joined n' = n_joined n \<and> n_epoch n' = n_epoch n \<and>
     n_index n' = n_index n \<and> n_delivered n' = n_delivered n \<and> n_unopened n' = n_unopened n \<and> n_early n' = n_early n \<and>
     n_seen n' = n_seen n \<and> n_waiting n' = n_waiting n"

definition opens :: "node \<Rightarrow> node \<Rightarrow> bool" where
  "opens n n' \<longleftrightarrow> list_all2 (adds n n') (n_authors n) (n_authors n') \<and>
     (\<forall>k ident. n_ids n k = Some ident \<longrightarrow> n_ids n' k = Some ident) \<and>
     (\<forall>ident r. n_records n ident = Some r \<longrightarrow> (\<exists>r'. n_records n' ident = Some r' \<and> same_record r r')) \<and> same_view n n'"

lemma same_recordE:
  assumes "same_record r r'"
  obtains x where "r' = r\<lparr> hr_sealing := x \<rparr>"
  using assms unfolding same_record_def by blast

lemma same_record_refl [simp]: "same_record r r"
  by (simp add: same_record_def)

lemma same_record_trans: "same_record p q \<Longrightarrow> same_record q r \<Longrightarrow> same_record p r"
  by (elim same_recordE) (simp add: same_record_def)

lemma seq_at_eq: "keyof a' = keyof a \<Longrightarrow> seq_at a' s = seq_at a s"
  by (simp add: seq_at_def keyof_def)

lemma resolves_more_lesser [intro]: "resolved_set a \<subseteq> resolved_set b \<Longrightarrow> resolves_more a b"
  by (simp add: resolves_more_def)

lemma adds_refl [simp]: "adds n n' a a"
  by (simp add: adds_def)

lemma opens_refl [simp]: "opens n n"
  by (simp add: opens_def same_view_def list_all2_refl)

lemma opens_ids: "opens n n' \<Longrightarrow> dom (n_ids n) \<subseteq> dom (n_ids n')"
  unfolding opens_def dom_def by blast

lemma adds_trans:
  assumes "adds n n1 a b" "adds n1 n2 b c" "dom (n_ids n) \<subseteq> dom (n_ids n1)" "dom (n_ids n1) \<subseteq> dom (n_ids n2)"
  shows "adds n n2 a c"
proof -
  have k: "keyof b = keyof a" using assms(1) by (simp add: adds_def)
  show ?thesis using assms resolves_more_trans unfolding adds_def seq_at_eq [OF k] by (simp add: subset_eq) blast
qed

lemma adds_key: "adds n n' a a' \<Longrightarrow> keyof a' = keyof a"
  by (simp add: adds_def)

lemma opens_authors: "opens n n' \<Longrightarrow> list_all2 (adds n n') (n_authors n) (n_authors n')"
  by (simp add: opens_def)

lemma opens_ident: "opens n n' \<Longrightarrow> n_ids n k = Some ident \<Longrightarrow> n_ids n' k = Some ident"
  unfolding opens_def by blast

lemma opens_record:
  assumes "opens n n'" "n_records n ident = Some r"
  obtains r' where "n_records n' ident = Some r'" "same_record r r'"
  using assms unfolding opens_def by blast

lemma opens_view: "opens n n' \<Longrightarrow> same_view n n'"
  by (simp add: opens_def)

lemma opens_trans:
  assumes "opens n n1" "opens n1 n2"
  shows "opens n n2"
  unfolding opens_def
proof (intro conjI allI impI)
  show "list_all2 (adds n n2) (n_authors n) (n_authors n2)"
    by (rule list_all2_trans [OF _ opens_authors [OF assms(1)] opens_authors [OF assms(2)]])
      (rule adds_trans [OF _ _ opens_ids [OF assms(1)] opens_ids [OF assms(2)]])
  show "n_ids n2 k = Some ident" if "n_ids n k = Some ident" for k ident
    using opens_ident [OF assms(2) opens_ident [OF assms(1) that]] .
  show "\<exists>r'. n_records n2 ident = Some r' \<and> same_record r r'" if "n_records n ident = Some r" for ident r
    using opens_record [OF assms(1) that] opens_record [OF assms(2)] same_record_trans by metis
  show "same_view n n2" using opens_view [OF assms(1)] opens_view [OF assms(2)] by (simp add: same_view_def)
qed

lemma opens_keys: "opens n n' \<Longrightarrow> map keyof (n_authors n') = map keyof (n_authors n)"
  by (rule all2_keys [OF adds_key opens_authors])

lemma opens_keyed: "opens n n' \<Longrightarrow> list_all2 (\<lambda>v w. keyof w = keyof v \<and> adds n n' v w) (n_authors n) (n_authors n')"
  by (rule list_all2_mono [OF opens_authors]) (simp_all add: adds_key)

lemma opens_author:
  assumes "opens n n'" "author_at (n_authors n) k j = Some a"
  obtains a' where "author_at (n_authors n') k j = Some a'" "adds n n' a a'"
  using authors.get_rel [OF opens_keyed [OF assms(1)], of "(k, j)"] that assms(2) by (auto simp: option_rel_Some1)

lemma opens_openable:
  assumes "opens n n'" "openable n k"
  shows "openable n' k"
proof -
  obtain a where a: "author_at (n_authors n) (fst k) (fst (snd k)) = Some a" "snd (snd k) \<in> range_set (a_delivered a) \<longrightarrow> k \<in> dom (n_ids n)"
    using assms(2) by (auto simp: openable_def)
  obtain a' where "author_at (n_authors n') (fst k) (fst (snd k)) = Some a'" "adds n n' a a'" using opens_author [OF assms(1) a(1)] .
  then show ?thesis using a(2) opens_ids [OF assms(1)] by (auto simp: openable_def adds_def)
qed

lemma opens_delivered:
  assumes "opens n n'"
  shows "delivered_of n' k = delivered_of n k"
proof (cases "author_at (n_authors n) (fst k) (snd k)")
  case None
  from authors.get_rel [OF opens_keyed [OF assms], of k] None show ?thesis by (simp add: delivered_of_def)
next
  case (Some a)
  obtain a' where "author_at (n_authors n') (fst k) (snd k) = Some a'" "adds n n' a a'" using opens_author [OF assms Some] .
  then show ?thesis using Some by (simp add: delivered_of_def adds_def)
qed

section \<open>What stays true\<close>

lemma record_at_stored:
  assumes "stored_ok C S P n" "n_ids n k = Some ident"
  obtains r where "n_records n ident = Some r" "seq_of_header (hr_header r) = k" "hr_id r = ident"
  using assms unfolding stored_ok_def by metis

lemma opens_has_record:
  assumes "opens n n'" "has_record n a s" "keyof a' = keyof a"
  shows "has_record n' a' s"
proof -
  obtain r where r: "1 \<le> s" "n_ids n (a_key a, a_joined a, s) = Some (hr_id r)" "n_records n (hr_id r) = Some r"
     "hd_author (hr_header r) = a_key a" "hd_joined (hr_header r) = a_joined a" "hd_seq (hr_header r) = s"
    using assms(2) by (auto simp: has_record_def)
  obtain r' where r': "n_records n' (hr_id r) = Some r'" "same_record r r'" using opens_record [OF assms(1) r(3)] .
  then obtain x where "r' = r\<lparr> hr_sealing := x \<rparr>" by (metis same_recordE)
  then show ?thesis
    using r r'(1) assms(3) opens_ident [OF assms(1) r(2)] unfolding has_record_def by (intro conjI exI [of _ r']) (simp_all add: keyof_def)
qed

lemma stored_has_record:
  assumes "stored_ok C S P n" "seq_at a s \<in> dom (n_ids n)" "1 \<le> s"
  shows "has_record n a s"
proof -
  obtain ident where ident: "n_ids n (seq_at a s) = Some ident" using assms(2) by blast
  obtain r where "n_records n ident = Some r" "seq_of_header (hr_header r) = seq_at a s" "hr_id r = ident"
    using record_at_stored [OF assms(1) ident] .
  then show ?thesis using ident assms(3) unfolding has_record_def by (intro conjI exI [of _ r]) (auto simp: seq_at_def seq_of_header_def)
qed

text \<open>New seqs stored are of seqs not delivered.\<close>

definition fresh_stored :: "node \<Rightarrow> node \<Rightarrow> bool" where
  "fresh_stored n n' \<longleftrightarrow> (\<forall>a\<in>set (n_authors n). \<forall>s\<in>range_set (a_delivered a). seq_at a s \<notin> dom (n_ids n') - dom (n_ids n))"

lemma opens_wf:
  assumes "opens n n'" "wf_node n" "stored_ok C S P n'"
  shows "wf_node n'"
proof -
  have "wf_author a' \<and> (\<forall>s\<in>pending a'. has_record n' a' s)" if a': "a' \<in> set (n_authors n')" for a'
  proof -
    obtain a where a: "a \<in> set (n_authors n)" "adds n n' a a'" using all2_in [OF opens_authors [OF assms(1)] a'] by blast
    have wf: "wf_author a" "\<forall>s\<in>pending a. has_record n a s" using assms(2) a(1) by (auto simp: wf_node_def)
    have "has_record n' a' s" if s: "s \<in> pending a'" for s
    proof (cases "s \<in> range_set (a_held a)")
      case True
      then have "s \<in> pending a" using s a(2) by (simp add: pending_def adds_def)
      then show ?thesis using wf(2) opens_has_record [OF assms(1) _ adds_key [OF a(2)]] by blast
    next
      case False
      then have "1 \<le> s" "seq_at a' s \<in> dom (n_ids n')" using s a(2) seq_at_eq [OF adds_key [OF a(2)]] by (auto simp: pending_def adds_def)
      then show ?thesis using stored_has_record [OF assms(3)] by blast
    qed
    then show ?thesis using wf(1) a(2) by (simp add: adds_def)
  qed
  then show ?thesis using assms(2) opens_keys [OF assms(1)] by (simp add: wf_node_def)
qed

lemma opens_causal:
  assumes "opens n n'" "causal n" "stored_ok C S P n" "fresh_stored n n'"
  shows "causal n'"
proof (rule causal_step [OF assms(2)])
  show "list_all2 grows (n_authors n) (n_authors n')"
    by (rule list_all2_mono [OF opens_authors [OF assms(1)]]) (simp_all add: adds_def grows_def)
  fix a' s r'
  assume a': "a' \<in> set (n_authors n')" "s \<in> range_set (a_delivered a')" "record_at n' (a_key a') (a_joined a') s = Some r'"
  obtain a where a: "a \<in> set (n_authors n)" "adds n n' a a'" using all2_in [OF opens_authors [OF assms(1)] a'(1)] by blast
  have s: "s \<in> range_set (a_delivered a)" "grows a a'" using a(2) a'(2) by (auto simp: adds_def grows_def)
  have at: "record_at n' (a_key a) (a_joined a) s = Some r'" using a'(3) adds_key [OF a(2)] by (simp add: keyof_def)
  then have "seq_at a s \<in> dom (n_ids n')" by (auto simp: record_at_def id_at_def seq_at_def split: option.splits)
  then have "seq_at a s \<in> dom (n_ids n)" using assms(4) a(1) s(1) by (auto simp: fresh_stored_def)
  then obtain ident where ident: "n_ids n (a_key a, a_joined a, s) = Some ident" by (auto simp: seq_at_def)
  obtain r where r: "n_records n ident = Some r" using record_at_stored [OF assms(3) ident] .
  obtain q where q: "n_records n' ident = Some q" "same_record r q" using opens_record [OF assms(1) r] .
  have "q = r'" using at q(1) opens_ident [OF assms(1) ident] by (simp add: record_at_def id_at_def)
  then obtain x where "r' = r\<lparr> hr_sealing := x \<rparr>" using q(2) by (metis same_recordE)
  then have "hr_header r' = hr_header r" "hr_released r' = hr_released r" by simp_all
  moreover have "record_at n (a_key a) (a_joined a) s = Some r" using ident r by (simp add: record_at_def id_at_def)
  ultimately show "\<exists>a r. a \<in> set (n_authors n) \<and> grows a a' \<and> hr_header r' = hr_header r \<and> (hr_released r \<longrightarrow> hr_released r') \<and>
      (s \<in> range_set (a_delivered a) \<and> record_at n (a_key a) (a_joined a) s = Some r \<or> requires_resolved (n_authors n) a r s)"
    using a(1) s by blast
qed

lemma opens_sealed:
  assumes "opens n n'" "sealed_stored n"
  shows "sealed_stored n'"
  unfolding sealed_stored_def
proof (intro ballI allI impI)
  fix a' s
  assume a': "a' \<in> set (n_authors n')" "bt_get (a_sealed a') s \<noteq> None"
  obtain a where a: "a \<in> set (n_authors n)" "adds n n' a a'" using all2_in [OF opens_authors [OF assms(1)] a'(1)] by blast
  then have "seq_at a s \<in> dom (n_ids n) \<or> seq_at a s \<in> dom (n_ids n')" using a'(2) assms(2) unfolding sealed_stored_def adds_def by blast
  then show "seq_at a' s \<in> dom (n_ids n')" using opens_ids [OF assms(1)] seq_at_eq [OF adds_key [OF a(2)]] by auto
qed

lemma opens_keeps:
  assumes "opens n n'" "node_ok C S P n" "stored_ok C S P n'" "fresh_stored n n'"
  shows "node_ok C S P n'"
  using assms opens_wf [OF assms(1) _ assms(3)] opens_causal [OF assms(1) _ _ assms(4)] opens_sealed [OF assms(1)] by (auto simp: node_ok_def)

section \<open>Each step\<close>

text \<open>A step that stores nothing.\<close>

definition quiet :: "node \<Rightarrow> node \<Rightarrow> bool" where
  "quiet n n' \<longleftrightarrow> opens n n' \<and> n_ids n' = n_ids n \<and> n_records n' = n_records n"

lemma quiet_refl [simp]: "quiet n n"
  by (simp add: quiet_def)

lemma quiet_trans: "quiet n n1 \<Longrightarrow> quiet n1 n2 \<Longrightarrow> quiet n n2"
  unfolding quiet_def using opens_trans by metis

lemma quiet_foldl:
  assumes "\<And>n x. quiet n (f n x)"
  shows "quiet n (foldl f n xs)"
proof (induction xs arbitrary: n)
  case (Cons x xs)
  show ?case using quiet_trans [OF assms Cons.IH] by simp
qed simp

lemma adds_cong: "n_ids m = n_ids n \<Longrightarrow> n_ids m' = n_ids n' \<Longrightarrow> adds m m' a b = adds n n' a b"
  by (simp add: adds_def)

lemma quiet_fields:
  assumes "n_authors n' = n_authors n" "n_ids n' = n_ids n" "n_records n' = n_records n" "same_view n n'"
  shows "quiet n n'"
proof -
  have "adds n n' a a" for a using adds_cong [OF refl assms(2), of n a a] by simp
  then show ?thesis using assms by (simp add: quiet_def opens_def list_all2_refl)
qed

lemma quiet_with_author:
  assumes "\<And>a. adds n n a (f a)"
  shows "quiet n (with_author k j f n)"
proof -
  let ?n = "with_author k j f n"
  have "adds n ?n = adds n n" by (intro ext adds_cong) (simp_all add: with_author_def)
  then have "list_all2 (adds n ?n) (n_authors n) (n_authors ?n)"
    using authors.modify_all2 [of "adds n n" "n_authors n" "(k, j)" f] assms by (simp add: with_author_def)
  then show ?thesis by (simp add: quiet_def opens_def same_view_def with_author_def)
qed

lemma quiet_stored: "quiet n n' \<Longrightarrow> stored_ok C S P n' = stored_ok C S P n"
  by (simp add: quiet_def stored_ok_def)

lemma quiet_fresh: "quiet n n' \<Longrightarrow> fresh_stored n n'"
  by (simp add: quiet_def fresh_stored_def)

lemma quiet_keeps: "quiet n n' \<Longrightarrow> node_ok C S P n \<Longrightarrow> node_ok C S P n'"
  using opens_keeps [of n n' C S P] quiet_stored [of n n' C S P] quiet_fresh [of n n'] unfolding quiet_def node_ok_def by blast

lemma adds_raise: "adds n n a (raise_baseline seq a)"
  by (auto simp: adds_def raise_baseline_def keyof_def resolves_more_def resolved_set_def wf_author_def le_max_iff_disj)

lemma quiet_before_joining: "quiet n (before_joining n k j seq)"
  using quiet_with_author [of n "raise_baseline seq", OF adds_raise] by (simp add: with_author_def before_joining_def)

lemma quiet_learn: "quiet n (learn n k j seq now)"
proof (cases "author_at (n_authors n) k j")
  case (Some a)
  show ?thesis
  proof (cases "seq > a_known a")
    case True
    have "adds n n b (b\<lparr> a_known := seq \<rparr>)" for b by (auto simp: adds_def keyof_def resolves_more_def resolved_set_def wf_author_def)
    from quiet_with_author [OF this, of k j]
    have "quiet n (n\<lparr> n_authors := author_mut k j (\<lambda>a. a\<lparr> a_known := seq \<rparr>) (n_authors n) \<rparr>)" by (simp add: with_author_def)
    moreover have "quiet (n\<lparr> n_authors := author_mut k j (\<lambda>a. a\<lparr> a_known := seq \<rparr>) (n_authors n) \<rparr>) (learn n k j seq now)"
      by (rule quiet_fields) (use Some True in \<open>simp_all add: learn_def same_view_def\<close>)
    ultimately show ?thesis by (rule quiet_trans)
  qed (simp add: learn_def Some)
qed (simp add: learn_def)

lemma quiet_take_evidence: "quiet n (take_evidence now own h n)"
  unfolding take_evidence_def Let_def
  by (intro quiet_trans [OF _ quiet_foldl [OF quiet_learn]] quiet_trans [OF _ quiet_learn] quiet_trans [OF _ quiet_foldl [OF quiet_before_joining]])
    (auto simp: quiet_before_joining split: option.split)

lemma quiet_member_at_epoch: "quiet n (member_at_epoch n key epoch)"
  by (rule quiet_fields) (simp_all add: member_at_epoch_def same_view_def)

lemma quiet_control_on: "quiet n (control_on D n h)"
  by (rule quiet_fields) (simp_all add: control_on_def same_view_def Let_def split: option.split control.split)

lemma quiet_warn: "quiet n (warn n author seq)"
  by (rule quiet_fields) (simp_all add: warn_def same_view_def)

lemma quiet_unheld:
  assumes "unheld S A n c = Inr n'"
  shows "quiet n n'"
proof -
  have "adds n n a (a\<lparr> a_lost := insert_at s (a_lost a) \<rparr>)" for a s
    by (auto simp: adds_def keyof_def resolves_more_def resolved_set_def wf_author_def)
  note q = quiet_with_author [OF this]
  have "quiet (with_author k j (\<lambda>a. a\<lparr> a_lost := insert_at s (a_lost a) \<rparr>) n)
      ((with_author k j (\<lambda>a. a\<lparr> a_lost := insert_at s (a_lost a) \<rparr>) n)\<lparr> n_changed := x, n_lost := l, n_duties := d, n_events := e \<rparr>)" for k j s x l d e
    by (rule quiet_fields) (simp_all add: same_view_def)
  from quiet_trans [OF q this] show ?thesis
    using assms by (auto simp: unheld_def Let_def split: sum.splits option.splits if_splits)
qed

section \<open>Opening one\<close>

lemma open_held_core:
  assumes "open_held C S A c g = (r, g')"
  shows "gr_state g' = gr_state g" "ml_epoch (gr_mls g') = ml_epoch (gr_mls g)" "ml_group_id (gr_mls g') = ml_group_id (gr_mls g)"
  using assms by (auto simp: open_held_def Let_def split: option.splits if_splits prod.splits)

lemma open_held_sync:
  assumes "open_held C S A c g = (r, g')"
  shows "group_joined g' k = group_joined g k" "in_sync g' n = in_sync g n"
  using open_held_core [OF assms] by (simp_all add: group_joined_def in_sync_def)

lemma open_held_opened:
  assumes "open_held C S A c g = (Inr op, g')" "claimed S A c k epoch" "framing_law A" "opens_in A P"
  shows "seq_of_header (op_header op) = k" "header_ok (op_header op)"
    "\<exists>p\<in>P. held_id C p = op_id op \<and> header_from S p = Some (op_header op)"
proof -
  obtain cl ct gid ad where cl: "api_parse A c = Some (PrivateMessage ct epoch gid ad)" "claim_from S ad = Some cl" "k = (cl_key cl, cl_joined cl, cl_seq cl)"
    using assms(2) by (auto simp: claimed_def core_claim_def result_simps split: option.splits mls_body.splits)
  obtain pr secrets g1 where pr: "api_process A (gr_mls g) c = (Inr pr, secrets)" "check_opened C S g1 pr = Inr op"
    using assms(1) cl(1) by (auto simp: open_held_def Let_def split: if_splits prod.splits sum.splits process_error.splits)
  have aad: "pr_aad pr = ad" using assms(3) cl(1) pr(1) unfolding framing_law_def by blast
  obtain plain h where h: "pr_content pr = ApplicationMessage plain" "header_open (header_from S) plain = Inr h" "op_header op = h" "op_id op = held_id C plain" "claim_of h = cl"
    using pr(2) cl(2) aad unfolding check_opened_def Let_def result_simps by (clarsimp split: content.splits)
  have "plain \<in> P" using assms(4) pr(1) h(1) unfolding opens_in_def by blast
  moreover have "header_from S plain = Some h" "header_ok h"
    using h(2) by (simp_all add: header_open_iff)
  ultimately show "seq_of_header (op_header op) = k" "header_ok (op_header op)"
    "\<exists>p\<in>P. held_id C p = op_id op \<and> header_from S p = Some (op_header op)"
    using h cl(3) by (auto simp: seq_of_header_def claim_of_def)
qed

lemma unknown_id:
  assumes "stored_ok C S P n" "n_ids n (seq_of_header h) = None" "p \<in> P" "held_id C p = ident" "header_from S p = Some h" "\<not> two_of_one_digest C P"
  shows "n_records n ident = None"
proof (rule ccontr)
  assume "n_records n ident \<noteq> None"
  then obtain r where "n_records n ident = Some r" by blast
  then obtain q where q: "q \<in> P" "held_id C q = ident" "header_from S q = Some (hr_header r)" "n_ids n (seq_of_header (hr_header r)) = Some ident"
    using assms(1) unfolding stored_ok_def by blast
  then have "q = p" using assms(3,4,6) by (auto simp: two_of_one_digest_def held_id_def)
  then show False using q(3,4) assms(2,5) by simp
qed

lemma store_new:
  assumes "stored_ok C S P n" "n_ids n (seq_of_header (hr_header r)) = None" "n_records n (hr_id r) = None"
    "p \<in> P" "held_id C p = hr_id r" "header_from S p = Some (hr_header r)"
    "n_ids n' = (n_ids n)(seq_of_header (hr_header r) := Some (hr_id r))" "n_records n' = (n_records n)(hr_id r := Some r)"
  shows "stored_ok C S P n'"
  unfolding stored_ok_def
proof (intro conjI allI impI)
  show "\<exists>q. n_records n' ident = Some q \<and> seq_of_header (hr_header q) = k" if "n_ids n' k = Some ident" for k ident
  proof (cases "k = seq_of_header (hr_header r)")
    case False
    then have "n_ids n k = Some ident" using that assms(7) by simp
    then obtain q where "n_records n ident = Some q" "seq_of_header (hr_header q) = k" using assms(1) unfolding stored_ok_def by blast
    then show ?thesis using assms(3,8) by (intro exI [of _ q]) auto
  qed (use that assms(7,8) in simp)
  fix ident q
  assume q: "n_records n' ident = Some q"
  have "hr_id q = ident \<and> n_ids n' (seq_of_header (hr_header q)) = Some ident \<and> (\<exists>p\<in>P. held_id C p = ident \<and> header_from S p = Some (hr_header q))"
  proof (cases "ident = hr_id r")
    case True
    then show ?thesis using q assms(4-8) by auto
  next
    case False
    then have "hr_id q = ident" "n_ids n (seq_of_header (hr_header q)) = Some ident" "\<exists>p\<in>P. held_id C p = ident \<and> header_from S p = Some (hr_header q)"
      using q assms(1,8) unfolding stored_ok_def by auto
    then show ?thesis using assms(2,7) by auto
  qed
  then show "hr_id q = ident" "n_ids n' (seq_of_header (hr_header q)) = Some ident" "\<exists>p\<in>P. held_id C p = ident \<and> header_from S p = Some (hr_header q)"
    by blast+
qed

definition hold_record :: "nat \<Rightarrow> opened \<Rightarrow> bytes \<Rightarrow> held_record" where
  "hold_record now op c = \<lparr> hr_id = op_id op, hr_header = op_header op, hr_plaintext = None, hr_sealing = Some (op_epoch op, c),
     hr_opened = now, hr_released = False, hr_delivered = None \<rparr>"

lemma hold_opens:
  assumes "n_ids n (seq_of_header h) = None" "n_records n ident = None" "hd_seq h \<ge> 1" "hr_id r = ident" "hr_header r = h"
  shows "opens n (store_record ((with_author (hd_author h) (hd_joined h) (hold_opened h epoch) n)\<lparr> n_changed := x \<rparr>) r)" (is "opens n ?n")
  unfolding opens_def
proof (intro conjI allI impI)
  have ids: "n_ids ?n = (n_ids n)(seq_of_header h := Some ident)"
    using assms(4,5) by (simp add: store_record_def with_author_def seq_of_header_def Let_def)
  have "adds n ?n a (hold_opened h epoch a)" if "keyof a = (hd_author h, hd_joined h)" for a
    using that assms(1,3) ids
    by (auto simp: adds_def hold_opened_def keyof_def resolves_more_def resolved_set_def wf_author_def seq_at_def seq_of_header_def dom_def)
  then show "list_all2 (adds n ?n) (n_authors n) (n_authors ?n)"
    using authors.modify_all2 [of "adds n ?n" "n_authors n" "(hd_author h, hd_joined h)" "hold_opened h epoch"]
    by (simp add: store_record_def with_author_def Let_def)
  show "n_ids ?n k = Some i" if "n_ids n k = Some i" for k i using that assms(1) ids by auto
  show "\<exists>r'. n_records ?n i = Some r' \<and> same_record q r'" if "n_records n i = Some q" for i q
    using that assms(2,4) by (auto simp: store_record_def with_author_def Let_def)
  show "same_view n ?n" by (simp add: same_view_def store_record_def with_author_def Let_def)
qed

lemma one_author_of:
  assumes "wf_node n" "openable n k" "k \<notin> dom (n_ids n)" "a \<in> set (n_authors n)" "seq_at a s = k"
  shows "s \<notin> range_set (a_delivered a)"
proof -
  obtain b where b: "author_at (n_authors n) (fst k) (fst (snd k)) = Some b" "snd (snd k) \<notin> range_set (a_delivered b)"
    using assms(2,3) by (auto simp: openable_def)
  have "author_at (n_authors n) (a_key a) (a_joined a) = Some a"
    using authors.get_in [of "n_authors n" a] assms(1,4) by (simp add: wf_node_def keyof_def)
  then show ?thesis using b assms(5) by (auto simp: seq_at_def)
qed

lemma keep_opened_spec:
  assumes "node_ok C S P n" "group_joined g (n_me n) \<noteq> None" "header_ok (op_header op)" "openable n (seq_of_header (op_header op))"
    "n_ids n (seq_of_header (op_header op)) = None" "p \<in> P" "held_id C p = op_id op" "header_from S p = Some (op_header op)" "\<not> two_of_one_digest C P"
  obtains n' where "keep_opened D now g op c n = Inr (Some (c, hd_epoch (op_header op)), n')" "opens n n'" "node_ok C S P n'"
proof -
  let ?h = "op_header op"
  obtain own where own: "group_joined g (n_me n) = Some own" using assms(2) by blast
  define n1 where "n1 = take_evidence now own ?h n"
  have q1: "quiet n n1" by (simp add: n1_def quiet_take_evidence)
  then have ids1: "n_ids n1 = n_ids n" "n_records n1 = n_records n" "opens n n1" by (simp_all add: quiet_def)
  have ok1: "node_ok C S P n1" using quiet_keeps [OF q1 assms(1)] .
  then have st1: "stored_ok C S P n1" "wf_node n1" by (simp_all add: node_ok_def)
  have new: "n_ids n1 (seq_of_header ?h) = None" using assms(5) ids1 by simp
  have unknown: "n_records n1 (op_id op) = None" using unknown_id [OF st1(1) new assms(6-9)] .
  have openable: "openable n1 (seq_of_header ?h)" using opens_openable [OF ids1(3) assms(4)] .
  then obtain a where a: "author_at (n_authors n1) (hd_author ?h) (hd_joined ?h) = Some a" by (auto simp: openable_def seq_of_header_def)
  define r where "r = hold_record now op c"
  have r: "hr_id r = op_id op" "hr_header r = ?h" by (simp_all add: r_def hold_record_def)
  define n2 where "n2 = store_record ((with_author (hd_author ?h) (hd_joined ?h) (hold_opened ?h (op_epoch op)) n1)\<lparr> n_changed := True \<rparr>) r"
  have "1 \<le> hd_seq ?h" using assms(3) by (simp add: header_ok_def)
  from hold_opens [OF new unknown this r] have o2: "opens n1 n2" by (simp add: n2_def)
  have ids2: "n_ids n2 = (n_ids n1)(seq_of_header (hr_header r) := Some (hr_id r))" "n_records n2 = (n_records n1)(hr_id r := Some r)"
    by (simp_all add: n2_def store_record_def with_author_def Let_def seq_of_header_def)
  have "fresh_stored n1 n2"
    using one_author_of [OF st1(2) openable] new ids2(1) r(2) by (auto simp: fresh_stored_def dom_def)
  moreover have "stored_ok C S P n2"
    by (rule store_new [OF st1(1) _ _ assms(6) _ _ ids2]) (use new unknown r assms(7,8) in simp_all)
  ultimately have ok2: "node_ok C S P n2" using opens_keeps [OF o2 ok1] by blast
  have q3: "quiet n2 (control_on D n2 ?h)" by (rule quiet_control_on)
  have "keep_opened D now g op c n = Inr (Some (c, hd_epoch ?h), control_on D n2 ?h)"
    using own a by (simp add: keep_opened_def Let_def n1_def [symmetric] n2_def r_def hold_record_def)
  moreover have "opens n (control_on D n2 ?h)" using opens_trans [OF opens_trans [OF ids1(3) o2]] q3 by (simp add: quiet_def)
  ultimately show ?thesis using that quiet_keeps [OF q3 ok2] by blast
qed

text \<open>One record rewritten in place, under its id and with its header.\<close>

lemma stored_rewrite:
  assumes "stored_ok C S P n" "n_records n ident = Some r" "hr_id r' = hr_id r" "hr_header r' = hr_header r"
    "n_ids n' = n_ids n" "n_records n' = (n_records n)(ident := Some r')"
  shows "stored_ok C S P n'"
  unfolding stored_ok_def
proof (intro conjI allI impI)
  show "\<exists>q. n_records n' i = Some q \<and> seq_of_header (hr_header q) = k" if k: "n_ids n' k = Some i" for k i
  proof -
    have "n_ids n k = Some i" using k assms(5) by simp
    from record_at_stored [OF assms(1) this] obtain q where "n_records n i = Some q" "seq_of_header (hr_header q) = k" by blast
    then show ?thesis using assms(2,4,6) by (cases "i = ident") auto
  qed
  fix i q
  assume "n_records n' i = Some q"
  then obtain q0 where "n_records n i = Some q0" "hr_id q0 = hr_id q" "hr_header q0 = hr_header q" using assms(2-4,6) by (cases "i = ident") auto
  then show "hr_id q = i" "n_ids n' (seq_of_header (hr_header q)) = Some i" "\<exists>p\<in>P. held_id C p = i \<and> header_from S p = Some (hr_header q)"
    using assms(1,5) unfolding stored_ok_def by metis+
qed

lemma reseal_spec:
  assumes "node_ok C S P n" "openable n (seq_of_header h)" "n_ids n (seq_of_header h) = Some ident"
  obtains x n' where "reseal epoch h ident c n = Inr (x, n')" "opens n n'" "node_ok C S P n'" "x = None \<or> x = Some (c, hd_epoch h)"
proof -
  have st: "stored_ok C S P n" using assms(1) by (simp add: node_ok_def)
  obtain r where r: "n_records n ident = Some r" "seq_of_header (hr_header r) = seq_of_header h" "hr_id r = ident" using record_at_stored [OF st assms(3)] .
  obtain a where a: "author_at (n_authors n) (hd_author h) (hd_joined h) = Some a" using assms(2) by (auto simp: openable_def seq_of_header_def)
  show ?thesis
  proof (cases "hd_seq h \<le> a_cut a \<or> (case hr_sealing r of None \<Rightarrow> False | Some s \<Rightarrow> fst s \<ge> epoch)")
    case True
    then show ?thesis using that [of None n] r(1) a assms(1) by (simp add: reseal_def)
  next
    case False
    let ?f = "\<lambda>a. a\<lparr> a_servable := insert_at (hd_seq h) (a_servable a), a_sealed := bt_insert (hd_seq h) epoch (a_sealed a) \<rparr>"
    define n1 where "n1 = store_record ((with_author (hd_author h) (hd_joined h) ?f n)\<lparr> n_changed := True \<rparr>) (r\<lparr> hr_sealing := Some (epoch, c) \<rparr>)"
    have ids: "n_ids n1 = n_ids n" "n_records n1 = (n_records n)(ident := Some (r\<lparr> hr_sealing := Some (epoch, c) \<rparr>))"
      using assms(3) r(2,3) by (simp_all add: n1_def store_record_def with_author_def Let_def seq_of_header_def fun_upd_idem)
    have "opens n n1"
      unfolding opens_def
    proof (intro conjI allI impI)
      have "adds n n1 a (?f a)" if "keyof a = (hd_author h, hd_joined h)" for a
        using that assms(3) ids(1)
        by (auto simp: adds_def keyof_def resolves_more_def resolved_set_def wf_author_def seq_at_def seq_of_header_def dom_def)
      then show "list_all2 (adds n n1) (n_authors n) (n_authors n1)"
        using authors.modify_all2 [of "adds n n1" "n_authors n" "(hd_author h, hd_joined h)" ?f]
        by (simp add: n1_def store_record_def with_author_def Let_def)
      show "n_ids n1 k = Some i" if "n_ids n k = Some i" for k i using that ids by simp
      show "\<exists>r'. n_records n1 i = Some r' \<and> same_record q r'" if "n_records n i = Some q" for i q
        using that ids(2) r(1) by (auto simp: same_record_def)
      show "same_view n n1" by (simp add: same_view_def n1_def store_record_def with_author_def Let_def)
    qed
    moreover have "stored_ok C S P n1" by (rule stored_rewrite [OF st r(1) _ _ ids]) simp_all
    moreover have "fresh_stored n n1" using ids(1) by (simp add: fresh_stored_def)
    ultimately have n1: "opens n n1" "node_ok C S P n1" using opens_keeps assms(1) by blast+
    define n2 where "n2 = (if list_ex (\<lambda>l. fst l = hd_author h \<and> fst (snd l) = hd_joined h) (n_leaves n1) then n1\<lparr> n_duties := n_duties n1 + 1 \<rparr> else n1)"
    have q: "quiet n1 n2" by (rule quiet_fields) (simp_all add: n2_def same_view_def)
    have "reseal epoch h ident c n = Inr (Some (c, hd_epoch h), n2)"
      using r(1) a False by (simp add: reseal_def Let_def n2_def n1_def)
    then show ?thesis using that [of "Some (c, hd_epoch h)" n2] opens_trans [OF n1(1)] q quiet_keeps [OF q n1(2)] by (simp add: quiet_def)
  qed
qed

lemma keep_or_reseal_spec:
  assumes "node_ok C S P n" "group_joined g (n_me n) \<noteq> None" "header_ok (op_header op)" "openable n (seq_of_header (op_header op))"
    "p \<in> P" "held_id C p = op_id op" "header_from S p = Some (op_header op)" "\<not> two_of_one_digest C P"
  obtains x n' where "keep_or_reseal D now g op c n = Inr (x, n')" "opens n n'" "node_ok C S P n'" "x = None \<or> x = Some (c, hd_epoch (op_header op))"
proof -
  let ?h = "op_header op"
  define n1 where "n1 = (if hd_author ?h \<noteq> n_me n \<and> group_joined g (hd_author ?h) = Some (hd_joined ?h)
     then member_at_epoch n (hd_author ?h) (op_epoch op) else n)"
  have q1: "quiet n n1" by (simp add: n1_def quiet_member_at_epoch)
  then have o1: "opens n n1" and ids1: "n_ids n1 = n_ids n" "n_me n1 = n_me n" by (auto simp: quiet_def opens_def same_view_def)
  have ok1: "node_ok C S P n1" using quiet_keeps [OF q1 assms(1)] .
  have openable: "openable n1 (seq_of_header ?h)" using opens_openable [OF o1 assms(4)] .
  have run: "keep_or_reseal D now g op c n = (case id_at n1 (hd_author ?h) (hd_joined ?h) (hd_seq ?h) of
      Some held \<Rightarrow> if held = op_id op then reseal (op_epoch op) ?h (op_id op) c n1 else Inr (None, warn n1 (hd_author ?h) (hd_seq ?h))
    | None \<Rightarrow> if contradicts_prev n1 ?h then Inr (None, warn n1 (hd_author ?h) (hd_seq ?h - 1)) else keep_opened D now g op c n1)"
    unfolding keep_or_reseal_def Let_def n1_def by (rule refl)
  have warned: "opens n (warn n1 k s) \<and> node_ok C S P (warn n1 k s)" for k s
    using opens_trans [OF o1] quiet_warn [of n1] quiet_keeps [OF quiet_warn ok1] by (simp add: quiet_def)
  show ?thesis
  proof (cases "n_ids n1 (seq_of_header ?h)")
    case None
    then have at: "id_at n1 (hd_author ?h) (hd_joined ?h) (hd_seq ?h) = None" by (simp add: id_at_def seq_of_header_def)
    show ?thesis
    proof (cases "contradicts_prev n1 ?h")
      case True
      then show ?thesis using that [of None "warn n1 (hd_author ?h) (hd_seq ?h - 1)"] run at warned by simp
    next
      case False
      obtain n' where "keep_opened D now g op c n1 = Inr (Some (c, hd_epoch ?h), n')" "opens n1 n'" "node_ok C S P n'"
        using keep_opened_spec [OF ok1 _ assms(3) openable None assms(5-8)] assms(2) ids1(2) by metis
      then show ?thesis using that [of "Some (c, hd_epoch ?h)" n'] run at False opens_trans [OF o1] by simp
    qed
  next
    case (Some ident)
    then have at: "id_at n1 (hd_author ?h) (hd_joined ?h) (hd_seq ?h) = Some ident" by (simp add: id_at_def seq_of_header_def)
    show ?thesis
    proof (cases "ident = op_id op")
      case True
      obtain x n' where "reseal (op_epoch op) ?h ident c n1 = Inr (x, n')" "opens n1 n'" "node_ok C S P n'" "x = None \<or> x = Some (c, hd_epoch ?h)"
        using reseal_spec [OF ok1 openable Some] .
      then show ?thesis using that [of x n'] run at True opens_trans [OF o1] by simp
    next
      case False
      then show ?thesis using that [of None "warn n1 (hd_author ?h) (hd_seq ?h)"] run at warned by simp
    qed
  qed
qed

text \<open>What an inbox's step keeps beside its invariant.\<close>

definition inbox_step :: "inbox \<Rightarrow> inbox \<Rightarrow> bool" where
  "inbox_step ib ib' \<longleftrightarrow> opens (ib_node ib) (ib_node ib') \<and> ib_peers ib' = ib_peers ib \<and>
     (\<forall>k. group_joined (ib_core ib') k = group_joined (ib_core ib) k) \<and> (\<forall>n. in_sync (ib_core ib') n = in_sync (ib_core ib) n)"

lemma in_sync_view: "same_view n n' \<Longrightarrow> in_sync g n' = in_sync g n"
  by (simp add: same_view_def in_sync_def joined_at_def)

lemma inbox_step_ok:
  assumes "inbox_step ib ib'" "inbox_ok C S A P ib" "node_ok C S P (ib_node ib')"
  shows "inbox_ok C S A P ib'"
proof -
  let ?n = "ib_node ib" and ?n' = "ib_node ib'"
  have o: "opens ?n ?n'" and v: "same_view ?n ?n'" using assms(1) opens_view by (simp_all add: inbox_step_def)
  have "unopened_ok S A ?n" using assms(2) by (simp add: inbox_ok_def)
  then have "unopened_ok S A ?n'" using opens_openable [OF o] v unfolding unopened_ok_def same_view_def within_bounds_def kept_bytes_def by fastforce
  moreover have "in_sync (ib_core ib') ?n'" using assms(1,2) in_sync_view [OF v] by (simp add: inbox_ok_def inbox_step_def)
  moreover have "group_joined (ib_core ib') (n_me ?n') \<noteq> None" "full_mesh (ib_peers ib') (n_gid ?n') \<noteq> None"
    using assms(1,2) v by (simp_all add: inbox_ok_def inbox_step_def same_view_def)
  ultimately show ?thesis using assms(3) unfolding inbox_ok_def by blast
qed

lemma unheld_total:
  assumes "claimed S A c k epoch"
  obtains n' where "unheld S A n c = Inr n'"
proof -
  have "is_ok (unheld S A n c)" using assms by (auto simp: claimed_def unheld_def Let_def split: option.split)
  then show ?thesis using that by (cases "unheld S A n c") auto
qed

lemma open_one_spec:
  assumes "inbox_ok C S A P ib" "claimed S A c k epoch" "openable (ib_node ib) k" "framing_law A" "opens_in A P" "\<not> two_of_one_digest C P"
  obtains x ib' where "open_one C S A D now c ib = Inr (x, ib')" "inbox_step ib ib'" "inbox_ok C S A P ib'" "\<forall>y. x = Some y \<longrightarrow> fst y = c"
proof -
  obtain r g where opened: "open_held C S A c (ib_core ib) = (r, g)" by fastforce
  let ?ib = "ib\<lparr> ib_core := g \<rparr>"
  have ok: "node_ok C S P (ib_node ib)" using assms(1) by (simp add: inbox_ok_def)
  have step: "inbox_step ib (?ib\<lparr> ib_node := n \<rparr>)" if "opens (ib_node ib) n" for n
    using that open_held_sync [OF opened] by (simp add: inbox_step_def)
  have kept: "inbox_ok C S A P (?ib\<lparr> ib_node := n \<rparr>)" if "opens (ib_node ib) n" "node_ok C S P n" for n
    using inbox_step_ok [OF step [OF that(1)] assms(1)] that(2) by simp
  show ?thesis
  proof (cases r)
    case (Inr op)
    note op = open_held_opened [OF opened [unfolded Inr] assms(2,4,5)]
    obtain p where p: "p \<in> P" "held_id C p = op_id op" "header_from S p = Some (op_header op)" using op(3) by blast
    have own: "group_joined g (n_me (ib_node ib)) \<noteq> None" using assms(1) open_held_sync(1) [OF opened] by (simp add: inbox_ok_def)
    have openable: "openable (ib_node ib) (seq_of_header (op_header op))" using assms(3) op(1) by simp
    obtain x n' where n': "keep_or_reseal D now g op c (ib_node ib) = Inr (x, n')" "opens (ib_node ib) n'" "node_ok C S P n'"
      "x = None \<or> x = Some (c, hd_epoch (op_header op))"
      using keep_or_reseal_spec [OF ok own op(2) openable p assms(6)] .
    have "open_one C S A D now c ib = Inr (x, ?ib\<lparr> ib_node := n' \<rparr>)" using opened Inr n'(1) by (simp add: open_one_def)
    then show ?thesis using that step [OF n'(2)] kept [OF n'(2,3)] n'(4) by auto
  next
    case (Inl e)
    show ?thesis
    proof (cases "e = UnheldMessage")
      case True
      obtain n' where n': "unheld S A (ib_node ib) c = Inr n'" using unheld_total [OF assms(2)] .
      then have q: "quiet (ib_node ib) n'" by (rule quiet_unheld)
      have "open_one C S A D now c ib = Inr (None, ?ib\<lparr> ib_node := n' \<rparr>)" using opened Inl True n' by (simp add: open_one_def)
      then show ?thesis using that step kept q quiet_keeps [OF q ok] by (auto simp: quiet_def)
    next
      case False
      then have "open_one C S A D now c ib = Inr (None, ?ib\<lparr> ib_node := ib_node ib \<rparr>)"
        using opened Inl by (cases e) (simp_all add: open_one_def)
      then show ?thesis using that step [OF opens_refl] kept [OF opens_refl ok] by blast
    qed
  qed
qed

end
