(* ===== verification/Taking_Spec.thy ===== *)
theory Taking_Spec
  imports Opening_Spec
begin

text \<open>
  What \<open>take\<close> keeps, over any ciphertexts from any peer: the invariants of storage and delivery, what it holds
  within its bounds, and who it passes messages on to. The one failure left is the panic of \<open>lowest\<close> on a
  membership whose every seq past its baseline is held or lost.
\<close>

section \<open>Results but for that panic\<close>

definition fine :: "node_error + 'a \<Rightarrow> ('a \<Rightarrow> bool) \<Rightarrow> bool" where
  "fine r Q \<longleftrightarrow> (case r of Inl e \<Rightarrow> e = LowestOverflow | Inr x \<Rightarrow> Q x)"

lemma fine_simps [simp]: "fine (Inl e) Q \<longleftrightarrow> e = LowestOverflow" "fine (Inr x) Q \<longleftrightarrow> Q x"
  by (simp_all add: fine_def)

lemma fine_rbind: "fine r P \<Longrightarrow> (\<And>x. r = Inr x \<Longrightarrow> P x \<Longrightarrow> fine (f x) Q) \<Longrightarrow> fine (rbind r f) Q"
  by (cases r) auto

lemma fine_mono: "fine r P \<Longrightarrow> (\<And>x. r = Inr x \<Longrightarrow> P x \<Longrightarrow> Q x) \<Longrightarrow> fine r Q"
  by (cases r) auto

lemma fine_context: "fine (context_of x LowestOverflow) (\<lambda>y. x = Some y)"
  by (cases x) auto

section \<open>Fields that opening does not read\<close>

definition same_store :: "node \<Rightarrow> node \<Rightarrow> bool" where
  "same_store n n' \<longleftrightarrow> n_authors n' = n_authors n \<and> n_ids n' = n_ids n \<and> n_records n' = n_records n \<and> n_gid n' = n_gid n \<and>
     n_me n' = n_me n \<and> n_joined n' = n_joined n \<and> n_epoch n' = n_epoch n"

lemma same_store_record: "same_store n n' \<Longrightarrow> record_at n' k j s = record_at n k j s"
  by (simp add: same_store_def record_at_def id_at_def split: option.split)

lemma same_store_node_ok: "same_store n n' \<Longrightarrow> node_ok C S P n' = node_ok C S P n"
  using same_store_record [of n n']
  by (simp add: same_store_def node_ok_def wf_node_def causal_def has_record_def stored_ok_def sealed_stored_def)

lemma same_store_openable: "same_store n n' \<Longrightarrow> openable n' k = openable n k"
  by (simp add: same_store_def openable_def)

lemma same_store_inbox:
  assumes "same_store (ib_node ib) n" "inbox_ok C S A P ib" "unopened_ok S A n"
  shows "inbox_ok C S A P (ib\<lparr> ib_node := n \<rparr>)"
  using assms same_store_node_ok [OF assms(1), of C S P] by (auto simp: inbox_ok_def same_store_def in_sync_def joined_at_def)

lemma same_store_delivered: "same_store n n' \<Longrightarrow> delivered_of n' k = delivered_of n k"
  by (simp add: same_store_def delivered_of_def)

lemma bt_insert_subset: "set (bt_insert k v m) \<subseteq> insert (k, v) (set m)"
  by (induction m) auto

lemma kept_insert: "kept_bytes (n\<lparr> n_unopened := bt_insert k (epoch, c) (n_unopened n) \<rparr>) \<le> kept_bytes n + length c"
proof -
  have "sum_list (map (length \<circ> snd \<circ> snd) (bt_insert k (epoch, c) m)) \<le> sum_list (map (length \<circ> snd \<circ> snd) m) + length c" for m
    by (induction m) auto
  then show ?thesis by (simp add: kept_bytes_def add.assoc)
qed

lemma kept_remove: "kept_bytes (n\<lparr> n_unopened := bt_remove k (n_unopened n) \<rparr>) \<le> kept_bytes n"
proof -
  have "sum_list (map (length \<circ> snd \<circ> snd) (bt_remove k m)) \<le> sum_list (map (length \<circ> snd \<circ> snd) m)" for m :: "('c \<times> nat \<times> bytes) list" and k
    by (induction m) (auto simp: bt_remove_def)
  then show ?thesis by (simp add: kept_bytes_def)
qed

lemma length_remember: "length seen \<le> SEEN \<Longrightarrow> length (remember seen h) \<le> SEEN"
  by (auto simp: remember_def SEEN_def)

text \<open>A node with the same bytes kept, and with the hashes seen the same or one more.\<close>

definition same_kept :: "node \<Rightarrow> node \<Rightarrow> bool" where
  "same_kept n n' \<longleftrightarrow> n_unopened n' = n_unopened n \<and> n_early n' = n_early n \<and> (n_seen n' = n_seen n \<or> (\<exists>h. n_seen n' = remember (n_seen n) h))"

lemma same_kept_bounds: "same_kept n n' \<Longrightarrow> within_bounds n \<Longrightarrow> within_bounds n'"
  using length_remember by (auto simp: same_kept_def within_bounds_def kept_bytes_def)

lemma unopened_insert:
  assumes "unopened_ok S A n" "claimed S A c k epoch" "openable n k" "same_store n n1" "same_kept n n1" "has_room n1 c"
  shows "unopened_ok S A (n1\<lparr> n_unopened := bt_insert k (epoch, c) (n_unopened n1), n_seen := remember (n_seen n1) h \<rparr>)"
proof -
  let ?m = "n1\<lparr> n_unopened := bt_insert k (epoch, c) (n_unopened n1) \<rparr>" and ?n = "n1\<lparr> n_unopened := bt_insert k (epoch, c) (n_unopened n1), n_seen := remember (n_seen n1) h \<rparr>"
  have u: "n_unopened n1 = n_unopened n" using assms(5) by (simp add: same_kept_def)
  have s: "same_store n ?n" using assms(4) by (simp add: same_store_def)
  have "within_bounds n1" using same_kept_bounds [OF assms(5)] assms(1) by (simp add: unopened_ok_def)
  moreover have "kept_bytes ?n = kept_bytes ?m" by (simp add: kept_bytes_def)
  ultimately have "within_bounds ?n"
    using kept_insert [where n = n1 and k = k and epoch = epoch and c = c] assms(6) length_remember [of "n_seen n1" h] by (simp add: within_bounds_def has_room_def)
  moreover have "\<forall>u\<in>set (n_unopened ?n). case u of (k, epoch, c) \<Rightarrow> claimed S A c k epoch \<and> openable n k"
    using assms(1-3) u bt_insert_subset [of k "(epoch, c)" "n_unopened n"] by (auto simp: unopened_ok_def)
  ultimately show ?thesis
    using assms(1) u bt_wf_insert [of "n_unopened n" k "(epoch, c)"] same_store_openable [OF s] by (simp add: unopened_ok_def)
qed

lemma unopened_same:
  assumes "unopened_ok S A n" "same_store n n'" "same_kept n n'"
  shows "unopened_ok S A n'"
  using assms(1) same_store_openable [OF assms(2)] same_kept_bounds [OF assms(3)] assms(3) by (simp add: unopened_ok_def same_kept_def)

lemma unopened_remove:
  assumes "unopened_ok S A n" "same_store n n1" "same_kept n n1"
  shows "unopened_ok S A (n1\<lparr> n_unopened := bt_remove u (n_unopened n1) \<rparr>)"
proof -
  let ?n = "n1\<lparr> n_unopened := bt_remove u (n_unopened n1) \<rparr>"
  have ok: "unopened_ok S A n1" by (rule unopened_same [OF assms])
  have "openable ?n k = openable n1 k" for k by (simp add: openable_def)
  moreover have "within_bounds ?n" using ok kept_remove [where n = n1 and k = u] by (simp add: unopened_ok_def within_bounds_def)
  ultimately show ?thesis using ok bt_wf_remove [of "n_unopened n1" u] unfolding unopened_ok_def by (auto simp: bt_remove_def)
qed

section \<open>Taking keeps the invariant\<close>

text \<open>The inbox after a step: the invariant, and delivery and the group as they were.\<close>

definition took :: "crypto \<Rightarrow> codec \<Rightarrow> mls_api \<Rightarrow> bytes set \<Rightarrow> inbox \<Rightarrow> inbox \<Rightarrow> bool" where
  "took C S A P ib ib' \<longleftrightarrow> inbox_ok C S A P ib' \<and> n_gid (ib_node ib') = n_gid (ib_node ib) \<and> n_me (ib_node ib') = n_me (ib_node ib) \<and>
     (\<forall>k. delivered_of (ib_node ib') k = delivered_of (ib_node ib) k)"

lemma took_trans: "took C S A P ib ib1 \<Longrightarrow> took C S A P ib1 ib2 \<Longrightarrow> took C S A P ib ib2"
  by (simp add: took_def)

lemma took_refl: "inbox_ok C S A P ib \<Longrightarrow> took C S A P ib ib"
  by (simp add: took_def)

lemma took_same:
  assumes "inbox_ok C S A P ib" "same_store (ib_node ib) n" "unopened_ok S A n"
  shows "took C S A P ib (ib\<lparr> ib_node := n \<rparr>)"
  using same_store_inbox [OF assms(2,1,3)] same_store_delivered [OF assms(2)] assms(2) by (simp add: took_def same_store_def)

lemma inbox_unopened: "inbox_ok C S A P ib \<Longrightarrow> unopened_ok S A (ib_node ib)"
  by (simp add: inbox_ok_def)

lemma took_step:
  assumes "inbox_step ib ib'" "inbox_ok C S A P ib'"
  shows "took C S A P ib ib'"
  using assms opens_delivered [of "ib_node ib" "ib_node ib'"] opens_view [of "ib_node ib" "ib_node ib'"]
  by (simp add: took_def inbox_step_def same_view_def)

definition opened_of :: "bytes \<Rightarrow> (bytes \<times> nat) option \<Rightarrow> bool" where
  "opened_of c x \<longleftrightarrow> (\<forall>y. x = Some y \<longrightarrow> fst y = c)"

lemma open_one_fine:
  assumes "inbox_ok C S A P ib" "claimed S A c k epoch" "openable (ib_node ib) k" "framing_law A" "opens_in A P" "\<not> two_of_one_digest C P"
  shows "fine (open_one C S A D now c ib) (\<lambda>(x, ib'). took C S A P ib ib' \<and> inbox_step ib ib' \<and> opened_of c x)"
proof -
  obtain x ib' where "open_one C S A D now c ib = Inr (x, ib')" "inbox_step ib ib'" "inbox_ok C S A P ib'" "\<forall>y. x = Some y \<longrightarrow> fst y = c"
    using open_one_spec [OF assms, of D now] .
  then show ?thesis using took_step by (simp add: opened_of_def)
qed

lemma take_bucket_same:
  assumes "take_bucket n m sz now = (t, n')"
  shows "same_store n n'" "same_kept n n'"
  using assms by (auto simp: take_bucket_def same_store_def same_kept_def Let_def split: prod.splits)

lemma same_refl [simp]: "same_store n n" "same_kept n n"
  by (simp_all add: same_store_def same_kept_def)

lemma wanted_openable:
  assumes "node_ok C S P n" "author_at (n_authors n) (cl_key cl) (cl_joined cl) = Some a"
    "bt_get (a_sealed a) (cl_seq cl) \<noteq> None \<or> \<not> contains (a_held a) (cl_seq cl)"
  shows "openable n (cl_key cl, cl_joined cl, cl_seq cl)"
proof -
  have a: "a \<in> set (n_authors n)" "a_key a = cl_key cl" "a_joined a = cl_joined cl" using author_at_Some [OF assms(2)] by (auto simp: keyof_def)
  then have wf: "wf_author a" "sealed_stored n" using assms(1) by (auto simp: node_ok_def wf_node_def)
  then have "bt_get (a_sealed a) (cl_seq cl) \<noteq> None \<Longrightarrow> seq_at a (cl_seq cl) \<in> dom (n_ids n)" using a(1) by (auto simp: sealed_stored_def)
  moreover have "\<not> contains (a_held a) (cl_seq cl) \<Longrightarrow> cl_seq cl \<notin> range_set (a_delivered a)"
    using wf(1) by (auto simp: wf_author_def contains_iff)
  ultimately show ?thesis using assms(2,3) a(2,3) by (auto simp: openable_def seq_at_def)
qed

definition lawful :: "crypto \<Rightarrow> mls_api \<Rightarrow> bytes set \<Rightarrow> bool" where
  "lawful C A P \<longleftrightarrow> framing_law A \<and> opens_in A P \<and> \<not> two_of_one_digest C P"

lemma opened_fine:
  "lawful C A P \<Longrightarrow> inbox_ok C S A P ib \<Longrightarrow> claimed S A c k epoch \<Longrightarrow> openable (ib_node ib) k \<Longrightarrow>
    fine (open_one C S A D now c ib) (\<lambda>(x, ib'). took C S A P ib ib' \<and> inbox_step ib ib' \<and> opened_of c x)"
  using open_one_fine unfolding lawful_def by blast

lemma take_known_fine:
  assumes "lawful C A P" "inbox_ok C S A P ib" "core_claim S A c = Inr (cl, epoch)"
    "author_at (n_authors (ib_node ib)) (cl_key cl) (cl_joined cl) = Some a"
  shows "fine (take_known C S A D now cl epoch c a ib) (\<lambda>(x, ib'). took C S A P ib ib' \<and> opened_of c x)"
proof -
  let ?n = "ib_node ib" and ?s = "cl_seq cl" and ?k = "(cl_key cl, cl_joined cl, cl_seq cl)"
  let ?newer = "case bt_get (a_sealed a) ?s of None \<Rightarrow> False | Some sealed \<Rightarrow> epoch > sealed"
  let ?wanted = "\<not> contains (a_held a) ?s \<and> \<not> contains (a_lost a) ?s"
  have claimed: "claimed S A c ?k epoch" using assms(3) by (auto simp: claimed_def)
  show ?thesis
  proof (cases "?s \<le> a_baseline a \<or> (a_ended a \<and> ?s > a_cut a) \<or> \<not> (?newer \<or> ?wanted)")
    case True
    then show ?thesis using took_refl [OF assms(2)] by (simp add: take_known_def Let_def opened_of_def)
  next
    case False
    have "node_ok C S P ?n" using assms(2) by (simp add: inbox_ok_def)
    moreover have "bt_get (a_sealed a) ?s \<noteq> None \<or> \<not> contains (a_held a) ?s" using False by (auto split: option.splits)
    ultimately have openable: "openable ?n ?k" using wanted_openable assms(4) by blast
    show ?thesis
    proof (cases "lowest_of a")
      case None
      then show ?thesis using False by (auto simp: take_known_def Let_def)
    next
      case (Some low)
      obtain t n where tn: "(if \<not> ?s < low + WINDOW then (False, ?n) else if n_waiting ?n \<or> ?newer then (True, ?n)
          else take_bucket ?n (cl_key cl, cl_joined cl) (length c) now) = (t, n)" by fastforce
      have same: "same_store ?n n" "same_kept ?n n" "n_seen n = n_seen ?n"
        using tn take_bucket_same [of ?n "(cl_key cl, cl_joined cl)" "length c" now t n] by (auto simp: take_bucket_def Let_def split: if_splits prod.splits)
      have run: "take_known C S A D now cl epoch c a ib =
          (if \<not> t then Inr (None, ib\<lparr> ib_node := (if has_room n c
             then n\<lparr> n_unopened := bt_insert ?k (epoch, c) (n_unopened n), n_seen := remember (n_seen n) (sha256 C c) \<rparr> else n) \<rparr>)
           else open_one C S A D now c (ib\<lparr> ib_node := n\<lparr> n_seen := remember (n_seen n) (sha256 C c) \<rparr> \<rparr>))"
        unfolding take_known_def Let_def by (simp only: if_not_P [OF False] Some context_of_simps rbind_Inr tn prod.case)
      note un = inbox_unopened [OF assms(2)]
      show ?thesis
      proof (cases t)
        case True
        let ?n' = "n\<lparr> n_seen := remember (n_seen n) (sha256 C c) \<rparr>"
        have s: "same_store ?n ?n'" using same(1) by (simp add: same_store_def)
        have "same_kept ?n ?n'" using same(2,3) by (auto simp: same_kept_def)
        then have "unopened_ok S A ?n'" by (rule unopened_same [OF un s])
        then have first: "took C S A P ib (ib\<lparr> ib_node := ?n' \<rparr>)" using took_same [OF assms(2) s] by simp
        then have "inbox_ok C S A P (ib\<lparr> ib_node := ?n' \<rparr>)" by (simp add: took_def)
        from opened_fine [OF assms(1) this claimed, of D now] have
          "fine (open_one C S A D now c (ib\<lparr> ib_node := ?n' \<rparr>))
             (\<lambda>(x, ib'). took C S A P (ib\<lparr> ib_node := ?n' \<rparr>) ib' \<and> inbox_step (ib\<lparr> ib_node := ?n' \<rparr>) ib' \<and> opened_of c x)"
          using openable same_store_openable [OF s] by simp
        then show ?thesis unfolding run using True by (simp, elim fine_mono) (use took_trans [OF first] in auto)
      next
        case False
        let ?n' = "n\<lparr> n_unopened := bt_insert ?k (epoch, c) (n_unopened n), n_seen := remember (n_seen n) (sha256 C c) \<rparr>"
        have s: "same_store ?n ?n'" using same(1) by (simp add: same_store_def)
        have "has_room n c \<Longrightarrow> unopened_ok S A ?n'" by (rule unopened_insert [OF un claimed openable same(1,2)])
        moreover have "unopened_ok S A n" by (rule unopened_same [OF un same(1,2)])
        ultimately show ?thesis
          unfolding run using False took_same [OF assms(2) s] took_same [OF assms(2) same(1)] by (simp add: opened_of_def)
      qed
    qed
  qed
qed

lemma behind_inbox:
  assumes "inbox_ok C S A P ib"
  shows "took C S A P ib (ib\<lparr> ib_peers := behind (ib_peers ib) peer \<rparr>)"
proof -
  have "full_mesh (behind p peer) gid = full_mesh p gid" for p gid
    by (simp add: full_mesh_def behind_def with_conn_def split: option.split)
  then show ?thesis using assms by (simp add: took_def inbox_ok_def)
qed

lemma took_early:
  assumes "inbox_ok C S A P ib" "has_room (ib_node ib) c"
  shows "took C S A P ib (ib\<lparr> ib_node := (ib_node ib)\<lparr> n_early := n_early (ib_node ib) @ [(peer, c)] \<rparr> \<rparr>)"
proof -
  let ?n = "(ib_node ib)\<lparr> n_early := n_early (ib_node ib) @ [(peer, c)] \<rparr>"
  have s: "same_store (ib_node ib) ?n" by (simp add: same_store_def)
  have "unopened_ok S A ?n"
    using inbox_unopened [OF assms(1)] assms(2) same_store_openable [OF s]
    by (simp add: unopened_ok_def within_bounds_def has_room_def kept_bytes_def)
  then show ?thesis using took_same [OF assms(1) s] by blast
qed

definition to_list :: "'a option \<Rightarrow> 'a list" where
  "to_list x = (case x of None \<Rightarrow> [] | Some y \<Rightarrow> [y])"

definition opened_ok :: "codec \<Rightarrow> mls_api \<Rightarrow> (bytes \<times> nat) list \<Rightarrow> bool" where
  "opened_ok S A xs \<longleftrightarrow> (\<forall>x\<in>set xs. is_ok (core_claim S A (fst x)))"

lemma opened_ok_simps [simp]: "opened_ok S A []" "opened_ok S A (xs @ ys) \<longleftrightarrow> opened_ok S A xs \<and> opened_ok S A ys" "to_list None = []"
  by (auto simp: opened_ok_def to_list_def)

lemma opened_of_ok: "opened_of c x \<Longrightarrow> is_ok (core_claim S A c) \<Longrightarrow> opened_ok S A (to_list x)"
  by (auto simp: opened_of_def opened_ok_def to_list_def split: option.splits)

lemma take_one_fine:
  assumes "lawful C A P" "inbox_ok C S A P ib"
  shows "fine (take_one C S A D now from_peer c ib) (\<lambda>(x, ib'). took C S A P ib ib' \<and> opened_ok S A (to_list x))"
proof (cases "length c > MAX_MESSAGE \<or> sha256 C c \<in> set (n_seen (ib_node ib)) \<or> (\<exists>e. core_claim S A c = Inl e)")
  case True
  then show ?thesis using took_refl [OF assms(2)] by (auto simp: take_one_def Let_def opened_of_def split: sum.split)
next
  case False
  then obtain cl epoch where cl: "core_claim S A c = Inr (cl, epoch)" by (cases "core_claim S A c") auto
  let ?current = "ml_epoch (gr_mls (ib_core ib))"
  define ib1 where "ib1 = (case from_peer of
      Some peer \<Rightarrow> if epoch > ?current then ib\<lparr> ib_peers := behind (ib_peers ib) peer \<rparr> else ib | None \<Rightarrow> ib)"
  have t1: "took C S A P ib ib1" using behind_inbox [OF assms(2)] took_refl [OF assms(2)] by (auto simp: ib1_def split: option.split)
  then have ok1: "inbox_ok C S A P ib1" by (simp add: took_def)
  have n1: "ib_node ib1 = ib_node ib" by (simp add: ib1_def split: option.split)
  have run: "take_one C S A D now from_peer c ib =
     (if epoch = ?current + 1 then
        Inr (None, case from_peer of
          Some peer \<Rightarrow> if has_room (ib_node ib) c then ib1\<lparr> ib_node := (ib_node ib)\<lparr> n_early := n_early (ib_node ib) @ [(peer, c)] \<rparr> \<rparr> else ib1
        | None \<Rightarrow> ib1)
      else case author_at (n_authors (ib_node ib)) (cl_key cl) (cl_joined cl) of
        None \<Rightarrow> Inr (None, ib1)
      | Some a \<Rightarrow> if \<not> (epoch \<le> ?current \<and> epoch + 1 \<ge> ?current) then Inr (None, ib1)
          else take_known C S A D now cl epoch c a ib1)"
    unfolding take_one_def Let_def ib1_def using False cl by simp
  have known: "fine (take_known C S A D now cl epoch c a ib1) (\<lambda>(x, ib'). took C S A P ib ib' \<and> opened_ok S A (to_list x))"
    if "author_at (n_authors (ib_node ib)) (cl_key cl) (cl_joined cl) = Some a" for a
    by (rule fine_mono [OF take_known_fine [OF assms(1) ok1 cl]]) (use that n1 took_trans [OF t1] opened_of_ok [of c _ S A] cl in auto)
  show ?thesis unfolding run using known t1 took_trans [OF t1 took_early [OF ok1, of c]] n1
    by (auto split: option.split)
qed

lemma take_each_fine:
  assumes "lawful C A P" "inbox_ok C S A P ib"
  shows "fine (take_each C S A D now from_peer cs ib) (\<lambda>(xs, ib'). took C S A P ib ib' \<and> opened_ok S A xs)"
  using assms(2)
proof (induction cs arbitrary: ib)
  case Nil
  then show ?case using took_refl by simp
next
  case (Cons c cs)
  have rest: "fine (take_each C S A D now from_peer cs ib1) (\<lambda>(xs, ib'). took C S A P ib ib' \<and> opened_ok S A xs)"
    if "took C S A P ib ib1" for ib1
    by (rule fine_mono [OF Cons.IH]) (use that took_trans [OF that] in \<open>auto simp: took_def\<close>)
  show ?case unfolding take_each.simps to_list_def [symmetric]
    by (rule fine_rbind [OF take_one_fine [OF assms(1) Cons.prems]])
      (auto simp: split_beta intro!: fine_rbind [OF rest])
qed

section \<open>Opening what waited\<close>

lemma next_unopened_fine: "fine (next_unopened as us) (\<lambda>x. \<forall>u. x = Some u \<longrightarrow> u \<in> fst ` set us)"
proof (induction us)
  case (Cons u us)
  have "fine (next_unopened as us) (\<lambda>x. \<forall>v. x = Some v \<longrightarrow> v \<in> fst ` set (u # us))" by (rule fine_mono [OF Cons.IH]) auto
  then show ?case
    by (auto simp: split_beta split: option.split intro!: fine_rbind [OF fine_context])
qed simp

lemma took_remove:
  assumes "inbox_ok C S A P ib" "same_store (ib_node ib) n" "same_kept (ib_node ib) n"
  shows "took C S A P ib (ib\<lparr> ib_node := n\<lparr> n_unopened := bt_remove u (n_unopened n) \<rparr> \<rparr>)"
proof -
  have "same_store (ib_node ib) (n\<lparr> n_unopened := bt_remove u (n_unopened n) \<rparr>)" using assms(2) by (simp add: same_store_def)
  then show ?thesis using took_same [OF assms(1)] unopened_remove [OF inbox_unopened [OF assms(1)] assms(2,3)] by blast
qed

lemma unopened_get:
  assumes "unopened_ok S A n" "bt_get (n_unopened n) u = Some (epoch, c)"
  shows "claimed S A c u epoch" "openable n u" "is_ok (core_claim S A c)"
proof -
  have "(u, epoch, c) \<in> set (n_unopened n)" using assms(2) by (rule bt_get_in)
  then show "claimed S A c u epoch" "openable n u" using assms(1) unfolding unopened_ok_def by fast+
  then show "is_ok (core_claim S A c)" by (auto simp: claimed_def)
qed

text \<open>A ciphertext that waited is opened after it left the map.\<close>

lemma open_removed:
  assumes "lawful C A P" "inbox_ok C S A P ib" "bt_get (n_unopened (ib_node ib)) u = Some (epoch, c)"
    "same_store (ib_node ib) n" "same_kept (ib_node ib) n"
  shows "fine (open_one C S A D now c (ib\<lparr> ib_node := n\<lparr> n_unopened := bt_remove u (n_unopened n) \<rparr> \<rparr>))
    (\<lambda>(x, ib'). took C S A P ib ib' \<and> n_unopened (ib_node ib') = bt_remove u (n_unopened (ib_node ib)) \<and> opened_ok S A (to_list x))"
proof -
  let ?ib = "ib\<lparr> ib_node := n\<lparr> n_unopened := bt_remove u (n_unopened n) \<rparr> \<rparr>"
  have t: "took C S A P ib ?ib" by (rule took_remove [OF assms(2,4,5)])
  note u = unopened_get [OF inbox_unopened [OF assms(2)] assms(3)]
  have "inbox_ok C S A P ?ib" using t by (simp add: took_def)
  moreover have "openable (ib_node ?ib) u" using u(2) assms(4) same_store_openable [of "ib_node ib" "ib_node ?ib" u] by (simp add: same_store_def)
  ultimately have "fine (open_one C S A D now c ?ib) (\<lambda>(x, ib'). took C S A P ?ib ib' \<and> inbox_step ?ib ib' \<and> opened_of c x)"
    using opened_fine [OF assms(1) _ u(1)] by blast
  then show ?thesis
    by (rule fine_mono)
      (use took_trans [OF t] opened_of_ok [OF _ u(3)] opens_view [of "ib_node ?ib"] assms(5) in \<open>auto simp: inbox_step_def same_view_def same_kept_def\<close>)
qed

lemma bt_remove_less: "u \<in> fst ` set m \<Longrightarrow> length (bt_remove u m) < length m"
  unfolding bt_remove_def by (metis (mono_tags, lifting) image_iff length_filter_less)

lemma open_unopened_loop_fine:
  assumes "lawful C A P" "inbox_ok C S A P ib" "opened_ok S A opened" "length (n_unopened (ib_node ib)) < fuel"
  shows "\<exists>r. open_unopened_loop fuel C S A D now opened ib = Some r \<and> fine r (\<lambda>(xs, ib'). took C S A P ib ib' \<and> opened_ok S A xs)"
  using assms(2-4)
proof (induction fuel arbitrary: ib opened)
  case (Suc fuel)
  let ?n = "ib_node ib"
  note un = inbox_unopened [OF Suc.prems(1)]
  note nx = next_unopened_fine [of "n_authors ?n" "n_unopened ?n"]
  show ?case
  proof (cases "next_unopened (n_authors ?n) (n_unopened ?n)")
    case (Inl e)
    then show ?thesis using nx by simp
  next
    case (Inr x)
    show ?thesis
    proof (cases x)
      case None
      then show ?thesis using Inr took_refl [OF Suc.prems(1)] Suc.prems(2) by simp
    next
      case (Some u)
      then have "u \<in> fst ` set (n_unopened ?n)" using nx Inr by (simp del: split_paired_All)
      then obtain epoch c where uc: "bt_get (n_unopened ?n) u = Some (epoch, c)"
        by (cases "bt_get (n_unopened ?n) u") (auto simp: bt_get_None_iff)
      obtain t n where tn: "(if n_waiting ?n then (True, ?n) else take_bucket ?n (fst u, fst (snd u)) (length c) now) = (t, n)" by fastforce
      have same: "same_store ?n n" "same_kept ?n n"
        using tn take_bucket_same [of ?n "(fst u, fst (snd u))" "length c" now t n] by (auto split: if_splits)
      have run: "open_unopened_loop (Suc fuel) C S A D now opened ib =
          (if \<not> t then Some (Inr (opened, ib\<lparr> ib_node := n \<rparr>))
           else (case open_one C S A D now c (ib\<lparr> ib_node := n\<lparr> n_unopened := bt_remove u (n_unopened n) \<rparr> \<rparr>) of
              Inl e \<Rightarrow> Some (Inl e)
            | Inr (x, ib) \<Rightarrow> open_unopened_loop fuel C S A D now (opened @ to_list x) ib))"
        by (simp only: open_unopened_loop.simps Let_def Inr Some uc tn sum.case option.case prod.case to_list_def)
      show ?thesis
      proof (cases t)
        case False
        have "unopened_ok S A n" by (rule unopened_same [OF un same])
        then show ?thesis unfolding run using False took_same [OF Suc.prems(1) same(1)] Suc.prems(2) by simp
      next
        case True
        let ?o = "open_one C S A D now c (ib\<lparr> ib_node := n\<lparr> n_unopened := bt_remove u (n_unopened n) \<rparr> \<rparr>)"
        have o: "fine ?o (\<lambda>(x, ib'). took C S A P ib ib' \<and> n_unopened (ib_node ib') = bt_remove u (n_unopened ?n) \<and> opened_ok S A (to_list x))"
          by (rule open_removed [OF assms(1) Suc.prems(1) uc same])
        show ?thesis
        proof (cases ?o)
          case (Inl e)
          then show ?thesis unfolding run using True o by simp
        next
          case (Inr y)
          obtain x ib' where y: "y = (x, ib')" by fastforce
          have t': "took C S A P ib ib'" "n_unopened (ib_node ib') = bt_remove u (n_unopened ?n)" "opened_ok S A (to_list x)"
            using o Inr y by simp_all
          have "length (n_unopened (ib_node ib')) < fuel"
            using bt_remove_less [OF \<open>u \<in> _\<close>] t'(2) Suc.prems(3) by simp
          moreover have "inbox_ok C S A P ib'" using t'(1) by (simp add: took_def)
          ultimately obtain r where r: "open_unopened_loop fuel C S A D now (opened @ to_list x) ib' = Some r"
            "fine r (\<lambda>(xs, ib''). took C S A P ib' ib'' \<and> opened_ok S A xs)"
            using Suc.IH [of ib' "opened @ to_list x"] Suc.prems(2) t'(3) by auto
          have "fine r (\<lambda>(xs, ib''). took C S A P ib ib'' \<and> opened_ok S A xs)" by (rule fine_mono [OF r(2)]) (use took_trans [OF t'(1)] in auto)
          then show ?thesis unfolding run using True Inr y r(1) by simp
        qed
      qed
    qed
  qed
qed simp

section \<open>What delivering leaves\<close>

lemma map_author_mut: "(\<And>a. f (g a) = f a) \<Longrightarrow> map f (author_mut k j g as) = map f as"
  by (induction as) auto

lemma report_missing_map:
  assumes "\<And>a rs. f (a\<lparr> a_reported := rs \<rparr>) = f a"
  shows "map f (snd (report_missing as qs)) = map f as"
  using report_missing_only [of as qs]
proof (induction rule: list_all2_induct)
  case (Cons a as b bs)
  then show ?case using assms by (elim only_reportedE) simp
qed simp

lemma deliver_fields:
  assumes "deliver now n r = Inr n'"
  shows "n_unopened n' = n_unopened n" "n_joined n' = n_joined n" "n_epoch n' = n_epoch n" "n_me n' = n_me n" "n_gid n' = n_gid n"
    "n_early n' = n_early n" "n_seen n' = n_seen n" "map a_sealed (n_authors n') = map a_sealed (n_authors n)"
proof -
  let ?p = "if shown_to_client n r then report_missing (n_authors n) (requirements (hr_header r)) else ([], n_authors n)"
  have m: "map a_sealed (snd ?p) = map a_sealed (n_authors n)" by (simp add: report_missing_map)
  obtain missing as where p: "?p = (missing, as)" by fastforce
  have d: "map a_sealed (author_mut k j (\<lambda>a. a\<lparr> a_delivered := insert_at s (a_delivered a) \<rparr>) as) = map a_sealed as" for k j s
    by (rule map_author_mut) simp
  show "n_unopened n' = n_unopened n" "n_joined n' = n_joined n" "n_epoch n' = n_epoch n" "n_me n' = n_me n" "n_gid n' = n_gid n"
    "n_early n' = n_early n" "n_seen n' = n_seen n" "map a_sealed (n_authors n') = map a_sealed (n_authors n)"
    using assms m p d by (auto simp: deliver_def shown_to_client_def Let_def store_record_def split: prod.splits if_splits option.splits)
qed

lemma delivering_keeps_inbox:
  assumes "delivering now n rs n'" "node_ok C S P n" "unopened_ok S A n"
  shows "node_ok C S P n' \<and> unopened_ok S A n' \<and> n_joined n' = n_joined n \<and> n_epoch n' = n_epoch n \<and> n_me n' = n_me n \<and> n_gid n' = n_gid n \<and>
    n_early n' = n_early n \<and> n_seen n' = n_seen n \<and> n_unopened n' = n_unopened n"
  using assms
proof (induction rule: delivering.induct)
  case (stop n)
  then show ?case by simp
next
  case (turn n a r s n1 rs n')
  have wf: "wf_node n" "causal n" "stored_ok C S P n" "sealed_stored n" using turn.prems(1) by (simp_all add: node_ok_def)
  obtain d where n1: "list_all2 (delivers (keyof a) s) (n_authors n) (n_authors n1)"
      "n_ids n1 = n_ids n" "n_records n1 = (n_records n)(hr_id r := Some (r\<lparr> hr_delivered := Some d \<rparr>))"
    using deliver_ready_one [OF wf(1) turn.hyps(1)] turn.hyps(2) by (metis sum.inject(2))
  note f = deliver_fields [OF turn.hyps(2)]
  have r: "n_records n (hr_id r) = Some r" "a \<in> set (n_authors n)" "n_ids n (seq_at a s) = Some (hr_id r)" using turn.hyps(1) by (auto simp: ready_def seq_at_def)
  have keys: "map keyof (n_authors n1) = map keyof (n_authors n)" by (rule all2_keys [OF _ n1(1)]) (simp add: delivers_def)
  have st: "stored_ok C S P n1" by (rule stored_rewrite [OF wf(3) r(1) _ _ n1(2,3)]) simp_all
  have "sealed_stored n1"
    unfolding sealed_stored_def
  proof (intro ballI allI impI)
    fix b t
    assume b: "b \<in> set (n_authors n1)" "bt_get (a_sealed b) t \<noteq> None"
    then obtain i where i: "i < length (n_authors n1)" "b = n_authors n1 ! i" by (auto simp: in_set_conv_nth)
    let ?c = "n_authors n ! i"
    have len: "length (n_authors n1) = length (n_authors n)" using keys by (metis length_map)
    have "a_sealed b = a_sealed ?c" "keyof b = keyof ?c" using f(8) keys i len by (metis nth_map)+
    moreover have "?c \<in> set (n_authors n)" using i len by simp
    ultimately show "seq_at b t \<in> dom (n_ids n1)" using wf(4) b(2) seq_at_eq [of b ?c t] n1(2) by (auto simp: sealed_stored_def)
  qed
  then have ok: "node_ok C S P n1" using deliver_keeps [OF wf(1,2) turn.hyps(1) n1] st by (simp add: node_ok_def)
  have open1: "openable n1 k" if k: "openable n k" for k
  proof -
    obtain b where b: "author_at (n_authors n) (fst k) (fst (snd k)) = Some b" "snd (snd k) \<in> range_set (a_delivered b) \<longrightarrow> k \<in> dom (n_ids n)"
      using k by (auto simp: openable_def)
    have "list_all2 (\<lambda>v w. keyof w = keyof v \<and> delivers (keyof a) s v w) (n_authors n) (n_authors n1)"
      using n1(1) by (rule list_all2_mono) (simp add: delivers_def)
    from authors.get_rel [OF this, of "(fst k, fst (snd k))"] b(1)
    obtain c where c: "author_at (n_authors n1) (fst k) (fst (snd k)) = Some c" "keyof b = (fst k, fst (snd k))" "delivers (keyof a) s b c"
      by (auto simp: option_rel_Some1)
    have "k \<in> dom (n_ids n)" if "snd (snd k) \<in> range_set (a_delivered c)"
    proof (cases "keyof b = keyof a \<and> snd (snd k) = s")
      case True
      then have "k = seq_at a s" using c(2) by (auto simp: seq_at_def keyof_def prod_eq_iff)
      then show ?thesis using r(3) by blast
    next
      case False
      then show ?thesis using b(2) c(3) that by (auto simp: delivers_def split: if_splits)
    qed
    then show ?thesis using c(1) n1(2) by (auto simp: openable_def)
  qed
  have "unopened_ok S A n1" using turn.prems(2) f open1 by (auto simp: unopened_ok_def within_bounds_def kept_bytes_def)
  from turn.IH [OF ok this] show ?case using f by simp
qed

section \<open>The whole of it\<close>

lemma claims_of_ok: "opened_ok S A xs \<Longrightarrow> \<exists>cs. claims_of S A xs = Inr cs"
  by (induction xs) (auto simp: opened_ok_def split: sum.split)

lemma forwards_ok:
  assumes "opened_ok S A opened" "full_mesh (ib_peers ib) (n_gid (ib_node ib)) \<noteq> None"
  shows "\<exists>frames. forwards S A joined_of from_peer forward opened ib = Inr frames"
proof -
  have "opened_ok S A (filter p opened)" for p using assms(1) by (simp add: opened_ok_def)
  then obtain cs where "claims_of S A (filter (\<lambda>x. length (fst x) > PUSH) opened) = Inr cs" using claims_of_ok by blast
  then show ?thesis using assms(2) by (auto simp: forwards_def Let_def)
qed


section \<open>One message taken\<close>

definition told_header :: header where
  "told_header = \<lparr> hd_group = replicate 16 7, hd_author = [1], hd_joined = 0, hd_seq = 1, hd_epoch = 3, hd_prev = None,
     hd_deps = [], hd_reply_to = None, hd_payload = JObj [(map of_char ''type'', JStr [])] \<rparr>"

definition told_codec :: codec where
  "told_codec = toy_codec\<lparr> claim_from := (\<lambda>_. Some \<lparr> cl_key = [1], cl_joined = 0, cl_seq = 1 \<rparr>), header_from := (\<lambda>_. Some told_header) \<rparr>"

definition told_api :: mls_api where
  "told_api = one_api\<lparr> api_parse := (\<lambda>_. Some (PrivateMessage ApplicationContent 3 [] [])),
     api_process := (\<lambda>m b. (Inr \<lparr> pr_epoch = 3, pr_aad = [], pr_sender = MemberSender 0, pr_credential = [1],
       pr_content = ApplicationMessage [1] \<rparr>, [])) \<rparr>"

definition told_group :: core_group where
  "told_group = \<lparr> gr_mls = toy_mls, gr_state = default_state\<lparr> gs_cut := [cut_start [1] 0, cut_start [2] 0] \<rparr> \<rparr>"

definition told_node :: node where
  "told_node = (one_node 0)\<lparr> n_gid := replicate 16 7, n_epoch := 3, n_waiting := True, n_authors := [author_new [1] 0 0], n_records := (\<lambda>_. None), n_ids := (\<lambda>_. None) \<rparr>"

definition told_own :: own where
  "told_own = \<lparr> o_me = ([2], 0), o_epoch = 3, o_log = [], o_head = None, o_earlier = [], o_members = [(([1], 0), [8])],
     o_wanted = [], o_stale = [], o_intros = [], o_expired = [] \<rparr>"

definition told_inbox :: inbox where
  "told_inbox = \<lparr> ib_core = told_group, ib_node = told_node, ib_peers = (peers_new 0 [2])\<lparr> p_groups := [(replicate 16 7, new_group told_own)] \<rparr> \<rparr>"

lemma told_laws: "framing_law told_api" "opens_in told_api {[1]}" "\<not> two_of_one_digest toy_crypto {[1]}"
  by (auto simp: framing_law_def opens_in_def told_api_def two_of_one_digest_def)

lemma told_inbox_ok: "inbox_ok toy_crypto told_codec told_api {[1]} told_inbox"
proof -
  have "node_ok toy_crypto told_codec {[1]} told_node"
    by (simp add: node_ok_def wf_node_def causal_def stored_ok_def sealed_stored_def told_node_def one_node_def author_new_def wf_author_def pending_def bt_get_def)
  moreover have "unopened_ok told_codec told_api told_node"
    by (simp add: unopened_ok_def within_bounds_def kept_bytes_def told_node_def one_node_def)
  moreover have "in_sync told_group told_node"
    by (simp add: in_sync_def told_group_def told_node_def one_node_def joined_at_def group_joined_def find_cut_def cut_start_def toy_mls_def default_state_def)
  moreover have "group_joined told_group (n_me told_node) = Some 0"
    by (simp add: told_group_def told_node_def one_node_def group_joined_def find_cut_def cut_start_def)
  moreover have "full_mesh (ib_peers told_inbox) (n_gid told_node) \<noteq> None"
    by (simp add: told_inbox_def told_node_def full_mesh_def bt_get_def new_group_def told_own_def)
  ultimately show ?thesis by (simp add: inbox_ok_def told_inbox_def)
qed

lemma told_lowest: "lowest_of (author_new [1] 0 0) = Some 1" by code_simp

lemma told_held: "open_held toy_crypto told_codec told_api [3] told_group = (Inr \<lparr> op_id = held_id toy_crypto [1], op_epoch = 3, op_header = told_header, op_plaintext = [1] \<rparr>,
   told_group\<lparr> gr_mls := (gr_mls told_group)\<lparr> ml_secrets := [] \<rparr> \<rparr>)"
  by (simp add: open_held_def told_api_def check_opened_def told_codec_def header_open_def claim_of_def told_header_def told_group_def toy_mls_def Let_def find_cut_def cut_start_def default_state_def ensure_def group_joined_def)

lemma told_claim: "core_claim told_codec told_api c = Inr (\<lparr> cl_key = [1], cl_joined = 0, cl_seq = 1 \<rparr>, 3)"
  by (simp add: core_claim_def told_codec_def told_api_def ensure_def)

lemma told_fields: "n_authors told_node = [author_new [1] 0 0]" "n_seen told_node = []" "n_waiting told_node" "n_unopened told_node = []"
  "ib_core told_inbox = told_group" "ib_node told_inbox = told_node" "ml_epoch (gr_mls told_group) = 3" "n_me told_node = [2]"
  by (simp_all add: told_node_def one_node_def told_inbox_def told_group_def toy_mls_def)

definition told_seen :: node where
  "told_seen = told_node\<lparr> n_seen := [sha256 toy_crypto [3]] \<rparr>"

lemma told_author: "lowest_of (author_new [1] 0 0) = Some 1" "a_baseline (author_new [1] 0 0) = 0" "a_ended (author_new [1] 0 0) = False"
  "a_sealed (author_new [1] 0 0) = []"  "a_held (author_new [1] 0 0) = []"  "a_lost (author_new [1] 0 0) = []" "contains [] x = False"
  using told_lowest by (simp_all add: author_new_def contains_def)

lemma told_known: "take_known toy_crypto told_codec told_api (\<lambda>_. None) 5 \<lparr> cl_key = [1], cl_joined = 0, cl_seq = 1 \<rparr> 3 [3] (author_new [1] 0 0) told_inbox =
   open_one toy_crypto told_codec told_api (\<lambda>_. None) 5 [3] (told_inbox\<lparr> ib_node := told_seen \<rparr>)"
  by (simp add: take_known_def told_author told_fields told_seen_def remember_def SEEN_def WINDOW_def bt_get_def)

lemma told_each: "take_one toy_crypto told_codec told_api (\<lambda>_. None) 5 (Some [8]) [3] told_inbox = 
  open_one toy_crypto told_codec told_api (\<lambda>_. None) 5 [3] (told_inbox\<lparr> ib_node := told_seen \<rparr>)"
  by (simp add: take_one_def told_claim told_fields told_known MAX_MESSAGE_def author_at_def) (simp add: author_new_def)

lemma told_plain: "\<not> is_control (hd_payload told_header)"
  by code_simp

definition told_op :: opened where
  "told_op = \<lparr> op_id = held_id toy_crypto [1], op_epoch = 3, op_header = told_header, op_plaintext = [1] \<rparr>"

lemma told_header_simps: "hd_author told_header = [1]" "hd_joined told_header = 0" "hd_seq told_header = 1" "hd_prev told_header = None" "hd_deps told_header = []"
  "hd_epoch told_header = 3"
  by (simp_all add: told_header_def)

lemma told_seen_simps: "n_me told_seen = [2]" "n_ids told_seen = (\<lambda>_. None)" "n_authors told_seen = [author_new [1] 0 0]" "n_unopened told_seen = []"
  by (simp_all add: told_seen_def told_node_def one_node_def)

lemma told_keeps: "\<exists>n. keep_or_reseal (\<lambda>_. None) 5 (told_group\<lparr> gr_mls := m \<rparr>) told_op [3] told_seen = Inr (Some ([3], 3), n)"
proof -
  have g: "group_joined (told_group\<lparr> gr_mls := m \<rparr>) [1] = Some 0" "group_joined (told_group\<lparr> gr_mls := m \<rparr>) [2] = Some 0"
    by (simp_all add: told_group_def group_joined_def find_cut_def cut_start_def)
  show ?thesis
    using g told_plain
    by (simp add: keep_or_reseal_def told_op_def told_header_simps told_seen_simps id_at_def contradicts_prev_def keep_opened_def take_evidence_def learn_def sat_sub_def
      author_at_def member_at_epoch_def) (simp add: author_new_def)
qed

lemma told_open: "\<exists>ib. take_each toy_crypto told_codec told_api (\<lambda>_. None) 5 (Some [8]) [[3]] told_inbox = Inr ([([3], 3)], ib) \<and> n_unopened (ib_node ib) = [] \<and>
    inbox_ok toy_crypto told_codec told_api {[1]} ib"
proof -
  let ?ib = "told_inbox\<lparr> ib_node := told_seen \<rparr>"
  have k: "claimed told_codec told_api [3] ([1], 0, 1) 3" "openable told_node ([1], 0, 1)"
    by (simp_all add: claimed_def told_claim openable_def author_at_def told_fields) (simp add: author_new_def)
  have same: "same_store told_node told_seen" "same_kept told_node told_seen"
    by (auto simp: same_store_def same_kept_def told_seen_def remember_def SEEN_def told_fields)
  have ok: "inbox_ok toy_crypto told_codec told_api {[1]} ?ib"
    using same_store_inbox [OF _ told_inbox_ok] unopened_same [OF inbox_unopened [OF told_inbox_ok]] same by (simp add: told_fields)
  have op: "openable (ib_node ?ib) ([1], 0, 1)" using same_store_openable [OF same(1)] k(2) by simp
  obtain x ib where o: "open_one toy_crypto told_codec told_api (\<lambda>_. None) 5 [3] ?ib = Inr (x, ib)" "inbox_step ?ib ib" "inbox_ok toy_crypto told_codec told_api {[1]} ib"
    using open_one_spec [OF ok k(1) op told_laws] by blast
  have "x = Some ([3], 3)" using o(1) told_keeps [of "(gr_mls told_group)\<lparr> ml_secrets := [] \<rparr>"] told_held by (auto simp: open_one_def told_op_def told_fields)
  moreover have "n_unopened (ib_node ib) = []" using o(2) told_seen_simps opens_view [of told_seen "ib_node ib"] by (simp add: inbox_step_def same_view_def)
  ultimately show ?thesis using o told_each by simp
qed


end
