(* ===== verification/Passing_Spec.thy ===== *)
theory Passing_Spec
  imports Taking_Spec
begin

text \<open>
  Two more facts of taking held ciphertexts (\<open>crates/node/src/held.rs\<close>): what is passed on of what opened, to whom
  (\<open>passed_on_exact\<close>), and what a message's deps hide of a membership (\<open>earlier_seqs_are_dropped\<close>).
\<close>

section \<open>What is passed on\<close>

lemma claims_of_in:
  "claims_of S A xs = Inr cs \<Longrightarrow> (cl, sent) \<in> set cs \<longleftrightarrow> (\<exists>c epoch. (c, sent) \<in> set xs \<and> core_claim S A c = Inr (cl, epoch))"
proof (induction xs arbitrary: cs)
  case (Cons x xs)
  obtain c t where x: "x = (c, t)" by fastforce
  obtain d epoch ds where d: "core_claim S A c = Inr (d, epoch)" "claims_of S A xs = Inr ds" "cs = (d, t) # ds"
    using Cons.prems x by (auto simp: result_simps split: sum.splits)
  then show ?case using Cons.IH [OF d(2)] x by (auto intro: exI [of _ c])
qed simp

definition single_of :: "claim \<Rightarrow> seqs" where
  "single_of cl = \<lparr> sq_key = cl_key cl, sq_joined = cl_joined cl, sq_seqs = range_of (cl_seq cl) (cl_seq cl) \<rparr>"

lemma forward_to_in:
  "HeldFrame g items answers \<in> set (forward_to gid forward small large joined) \<longleftrightarrow>
     g = gid \<and> answers = None \<and> items \<noteq> [] \<and> items = map fst (filter (\<lambda>x. forward \<and> snd x \<ge> joined) small)"
  "Have g held \<in> set (forward_to gid forward small large joined) \<longleftrightarrow>
     g = gid \<and> held \<noteq> [] \<and> held = map (single_of \<circ> fst) (filter (\<lambda>x. snd x \<ge> joined) large)"
  by (auto simp: forward_to_def Let_def single_of_def comp_def)

lemma forward_to_sent:
  "(\<exists>g items answers. HeldFrame g items answers \<in> set (forward_to gid forward small large joined) \<and> c \<in> set items) \<longleftrightarrow>
     forward \<and> (\<exists>sent. (c, sent) \<in> set small \<and> joined \<le> sent)"
  "(\<exists>g held. Have g held \<in> set (forward_to gid forward small large joined) \<and> s \<in> set held) \<longleftrightarrow>
     (\<exists>cl sent. (cl, sent) \<in> set large \<and> joined \<le> sent \<and> s = single_of cl)"
proof -
  let ?items = "map fst (filter (\<lambda>x. forward \<and> snd x \<ge> joined) small)" and ?held = "map (single_of \<circ> fst) (filter (\<lambda>x. snd x \<ge> joined) large)"
  have "(\<exists>g items answers. HeldFrame g items answers \<in> set (forward_to gid forward small large joined) \<and> c \<in> set items) \<longleftrightarrow> c \<in> set ?items"
    unfolding forward_to_in by (metis empty_iff empty_set)
  then show "(\<exists>g items answers. HeldFrame g items answers \<in> set (forward_to gid forward small large joined) \<and> c \<in> set items) \<longleftrightarrow>
     forward \<and> (\<exists>sent. (c, sent) \<in> set small \<and> joined \<le> sent)" by force
  have "(\<exists>g held. Have g held \<in> set (forward_to gid forward small large joined) \<and> s \<in> set held) \<longleftrightarrow> s \<in> set ?held"
    unfolding forward_to_in by (metis empty_iff empty_set)
  then show "(\<exists>g held. Have g held \<in> set (forward_to gid forward small large joined) \<and> s \<in> set held) \<longleftrightarrow>
     (\<exists>cl sent. (cl, sent) \<in> set large \<and> joined \<le> sent \<and> s = single_of cl)" by force
qed

text \<open>The neighbours served: all but the sender, beyond a full mesh.\<close>

definition passes_to :: "(bytes \<Rightarrow> nat option) \<Rightarrow> bytes option \<Rightarrow> inbox \<Rightarrow> bytes \<Rightarrow> nat \<Rightarrow> bool" where
  "passes_to joined_of from_peer ib peer joined \<longleftrightarrow> full_mesh (ib_peers ib) (n_gid (ib_node ib)) = Some False \<and>
     peer \<in> set (neighbours (ib_peers ib) (n_gid (ib_node ib))) \<and> from_peer \<noteq> Some peer \<and> joined_of peer = Some joined"

lemma forwards_in:
  assumes "forwards S A joined_of from_peer forward opened ib = Inr frames"
  obtains large where "claims_of S A (filter (\<lambda>x. length (fst x) > PUSH) opened) = Inr large \<or> \<not> (\<exists>peer joined. passes_to joined_of from_peer ib peer joined) \<and> large = []"
    "\<And>peer f. (peer, f) \<in> set frames \<longleftrightarrow> (\<exists>joined. passes_to joined_of from_peer ib peer joined \<and>
       f \<in> set (forward_to (n_gid (ib_node ib)) forward (filter (\<lambda>x. \<not> length (fst x) > PUSH) opened) large joined))"
proof (cases "opened = []")
  case True
  then show ?thesis using assms that [of "[]"] by (simp add: forwards_def forward_to_def)
next
  case False
  then obtain meshed where m: "full_mesh (ib_peers ib) (n_gid (ib_node ib)) = Some meshed" using assms by (auto simp: forwards_def Let_def result_simps)
  show ?thesis
  proof (cases meshed)
    case True
    then show ?thesis using assms m False that [of "[]"] by (simp add: forwards_def passes_to_def)
  next
    case nm: False
    then obtain large where large: "claims_of S A (filter (\<lambda>x. length (fst x) > PUSH) opened) = Inr large"
      using assms False m by (auto simp: forwards_def Let_def result_simps)
    show ?thesis
    proof (rule that)
      show "claims_of S A (filter (\<lambda>x. length (fst x) > PUSH) opened) = Inr large \<or> \<not> (\<exists>peer joined. passes_to joined_of from_peer ib peer joined) \<and> large = []" using large by simp
      show "(peer, f) \<in> set frames \<longleftrightarrow> (\<exists>joined. passes_to joined_of from_peer ib peer joined \<and>
       f \<in> set (forward_to (n_gid (ib_node ib)) forward (filter (\<lambda>x. \<not> length (fst x) > PUSH) opened) large joined))" for peer f
        using assms m nm False large by (cases "joined_of peer") (force simp: forwards_def passes_to_def Let_def)+
    qed
  qed
qed

text \<open>
  C3. What \<open>take\<close> passes on: a message it opened is pushed to exactly the neighbours but its sender that are
  members and joined before it was sent, if it is small and was no answer, and announced to them if it is large.
\<close>

theorem passed_on_exact:
  assumes "forwards S A joined_of from_peer forward opened ib = Inr frames"
  shows "((\<exists>g items answers. (peer, HeldFrame g items answers) \<in> set frames \<and> c \<in> set items) \<longleftrightarrow>
      (\<exists>joined sent. passes_to joined_of from_peer ib peer joined \<and> (c, sent) \<in> set opened \<and> joined \<le> sent \<and> forward \<and> length c \<le> PUSH)) \<and>
    ((\<exists>g held. (peer, Have g held) \<in> set frames \<and> s \<in> set held) \<longleftrightarrow>
      (\<exists>joined c sent cl epoch. passes_to joined_of from_peer ib peer joined \<and> (c, sent) \<in> set opened \<and> joined \<le> sent \<and> length c > PUSH \<and>
        core_claim S A c = Inr (cl, epoch) \<and> s = single_of cl))" (is "(?pushed \<longleftrightarrow> ?push) \<and> (?announced \<longleftrightarrow> ?announce)")
proof -
  let ?small = "filter (\<lambda>x. \<not> length (fst x) > PUSH) opened" and ?gid = "n_gid (ib_node ib)"
  obtain large where large: "claims_of S A (filter (\<lambda>x. length (fst x) > PUSH) opened) = Inr large \<or> \<not> (\<exists>peer joined. passes_to joined_of from_peer ib peer joined) \<and> large = []"
    "\<And>peer f. (peer, f) \<in> set frames \<longleftrightarrow> (\<exists>joined. passes_to joined_of from_peer ib peer joined \<and> f \<in> set (forward_to ?gid forward ?small large joined))"
    using forwards_in [OF assms] by metis
  have "?pushed \<longleftrightarrow> (\<exists>joined. passes_to joined_of from_peer ib peer joined \<and> (\<exists>g items answers. HeldFrame g items answers \<in> set (forward_to ?gid forward ?small large joined) \<and> c \<in> set items))"
    unfolding large(2) by blast
  moreover have "(c, sent) \<in> set ?small \<longleftrightarrow> (c, sent) \<in> set opened \<and> length c \<le> PUSH" for sent by auto
  ultimately have 1: "?pushed \<longleftrightarrow> ?push" unfolding forward_to_sent by blast
  have "?announced \<longleftrightarrow> (\<exists>joined. passes_to joined_of from_peer ib peer joined \<and> (\<exists>g held. Have g held \<in> set (forward_to ?gid forward ?small large joined) \<and> s \<in> set held))"
    unfolding large(2) by blast
  then have 2: "?announced \<longleftrightarrow> (\<exists>joined cl sent. passes_to joined_of from_peer ib peer joined \<and> (cl, sent) \<in> set large \<and> joined \<le> sent \<and> s = single_of cl)"
    unfolding forward_to_sent by blast
  have "?announced \<longleftrightarrow> ?announce"
  proof (cases "\<exists>peer joined. passes_to joined_of from_peer ib peer joined")
    case True
    then have "claims_of S A (filter (\<lambda>x. length (fst x) > PUSH) opened) = Inr large" using large(1) by blast
    note claims_of_in [OF this]
    then have "(cl, sent) \<in> set large \<longleftrightarrow> (\<exists>c epoch. (c, sent) \<in> set opened \<and> length c > PUSH \<and> core_claim S A c = Inr (cl, epoch))" for cl sent
      by auto
    then show ?thesis unfolding 2 by blast
  qed (use 2 in blast)
  then show ?thesis using 1 by blast
qed

definition meshed_inbox :: inbox where
  "meshed_inbox = told_inbox\<lparr> ib_peers := (peers_new 0 [2])\<lparr> p_groups := [(replicate 16 7, new_group (told_own\<lparr> o_members := replicate 7 (([1], 0), [8]) \<rparr>))],
     p_conns := [([8], new_conn [replicate 16 7] True 2)] \<rparr> \<rparr>"

lemma meshed_passes: "passes_to (\<lambda>p. if p = [8] then Some 2 else None) None meshed_inbox [8] 2"
  by (simp add: passes_to_def meshed_inbox_def full_mesh_def told_inbox_def told_node_def bt_get_def new_group_def MESH_def neighbours_def new_conn_def)

theorem passed_on_exact_witness:
  "\<exists>frames g items answers. forwards told_codec told_api (\<lambda>p. if p = [8] then Some 2 else None) None True [([3], 3)] meshed_inbox = Inr frames \<and>
     ([8], HeldFrame g items answers) \<in> set frames \<and> [3] \<in> set items"
proof -
  have "opened_ok told_codec told_api [([3], 3)]" by (simp add: opened_ok_def told_claim)
  moreover have "full_mesh (ib_peers meshed_inbox) (n_gid (ib_node meshed_inbox)) \<noteq> None" using meshed_passes by (simp add: passes_to_def)
  ultimately obtain frames where f: "forwards told_codec told_api (\<lambda>p. if p = [8] then Some 2 else None) None True [([3], 3)] meshed_inbox = Inr frames"
    using forwards_ok by blast
  have "\<exists>joined sent. passes_to (\<lambda>p. if p = [8] then Some 2 else None) None meshed_inbox [8] joined \<and> ([3], sent) \<in> set [([3], 3)] \<and> joined \<le> sent \<and> True \<and> length [3] \<le> PUSH"
    using meshed_passes by (intro exI [of _ 2] exI [of _ 3]) (simp add: PUSH_def)
  with passed_on_exact [OF f, of "[8]" "[3]"] f show ?thesis by blast
qed

section \<open>What was sent before the session joined\<close>

text \<open>The membership's baseline is at least \<open>s\<close>.\<close>

definition based :: "node \<Rightarrow> bytes \<Rightarrow> nat \<Rightarrow> u64 \<Rightarrow> bool" where
  "based n k j s \<longleftrightarrow> (\<exists>a. author_at (n_authors n) k j = Some a \<and> s \<le> a_baseline a)"

lemma based_authors: "n_authors n' = n_authors n \<Longrightarrow> based n' k j s = based n k j s"
  by (simp add: based_def)

lemma author_at_mut:
  assumes "\<And>a. keyof (f a) = keyof a"
  shows "author_at (author_mut k' j' f as) k j = map_option (\<lambda>a. if k = k' \<and> j = j' then f a else a) (author_at as k j)"
  using authors.get_modify [OF assms, of "(k', j')" as "(k, j)"] by (auto simp: option.map_ident)

lemma based_mut:
  assumes "\<And>a. keyof (f a) = keyof a \<and> a_baseline a \<le> a_baseline (f a)" "based n k j s" "n_authors n' = author_mut k' j' f (n_authors n)"
  shows "based n' k j s"
  using assms(2) order_trans assms(1) unfolding based_def assms(3) author_at_mut [OF conjunct1 [OF assms(1)]] by fastforce

lemma based_before: "based n k j s \<Longrightarrow> based (before_joining n k' j' t) k j s"
  by (rule based_mut) (simp_all add: before_joining_def raise_baseline_def keyof_def)

lemma based_learn: "based n k j s \<Longrightarrow> based (learn n k' j' t now) k j s"
  by (auto simp: learn_def keyof_def split: option.split elim: based_mut [rotated])

lemma based_raised: "author_at (n_authors n) k j \<noteq> None \<Longrightarrow> based (before_joining n k j s) k j s"
  by (auto simp: based_def before_joining_def author_at_mut raise_baseline_def keyof_def)

lemma foldl_keeps: "(\<And>n x. P n \<Longrightarrow> P (f n x)) \<Longrightarrow> P n \<Longrightarrow> P (foldl f n xs)"
  by (induction xs arbitrary: n) auto

lemma foldl_reaches:
  assumes "x \<in> set xs" "\<And>n y. Q n \<Longrightarrow> Q (f n y)" "\<And>n. Q n \<Longrightarrow> P (f n x)" "\<And>n y. P n \<Longrightarrow> P (f n y)" "Q n"
  shows "P (foldl f n xs)"
  using assms(1,5)
proof (induction xs arbitrary: n)
  case (Cons y xs)
  show ?case
  proof (cases "x = y")
    case True
    then show ?thesis using foldl_keeps [of P, OF assms(4) assms(3) [OF Cons.prems(2)]] by simp
  qed (use Cons assms(2) in auto)
qed simp

lemma present_before: "author_at (n_authors n) k j \<noteq> None \<Longrightarrow> author_at (n_authors (before_joining n k' j' t)) k j \<noteq> None"
  by (simp add: before_joining_def author_at_mut raise_baseline_def keyof_def)

lemma evidence_based:
  assumes "dep \<in> set (hd_deps h)" "r_epoch dep < own" "author_at (n_authors n) (r_key dep) (r_joined dep) \<noteq> None"
  shows "based (take_evidence now own h n) (r_key dep) (r_joined dep) (r_seq dep)"
proof -
  let ?P = "\<lambda>n. based n (r_key dep) (r_joined dep) (r_seq dep)" and ?Q = "\<lambda>n. author_at (n_authors n) (r_key dep) (r_joined dep) \<noteq> None"
  let ?f = "\<lambda>n dep. before_joining n (r_key dep) (r_joined dep) (r_seq dep)"
  have 1: "?Q (case hd_prev h of Some (_, sent) \<Rightarrow> if sent < own then before_joining n (hd_author h) (hd_joined h) (hd_seq h - 1) else n | None \<Rightarrow> n)"
    using assms(3) present_before by (auto split: option.split)
  have 2: "?P (foldl ?f m (filter (\<lambda>dep. r_epoch dep < own) (hd_deps h)))" if "?Q m" for m
    by (rule foldl_reaches [where Q = ?Q and x = dep]) (use assms that present_before based_raised based_before in auto)
  show ?thesis
    unfolding take_evidence_def Let_def
    by (rule foldl_keeps [where P = ?P], erule based_learn, rule based_learn, rule 2, rule 1)
qed

lemma keep_opened_based:
  assumes "keep_opened D now g op c n = Inr (x, n')" "dep \<in> set (hd_deps (op_header op))" "group_joined g (n_me n) = Some own"
    "r_epoch dep < own" "author_at (n_authors n) (r_key dep) (r_joined dep) \<noteq> None"
  shows "based n' (r_key dep) (r_joined dep) (r_seq dep)"
proof -
  let ?h = "op_header op"
  have "based (take_evidence now own ?h n) (r_key dep) (r_joined dep) (r_seq dep)" by (rule evidence_based [OF assms(2,4,5)])
  then have "based (with_author (hd_author ?h) (hd_joined ?h) (hold_opened ?h (op_epoch op)) (take_evidence now own ?h n)) (r_key dep) (r_joined dep) (r_seq dep)"
    by (rule based_mut [rotated, where f = "hold_opened ?h (op_epoch op)" and k' = "hd_author ?h" and j' = "hd_joined ?h"])
      (simp_all add: with_author_def hold_opened_def keyof_def)
  moreover have "n_authors (control_on D m k) = n_authors m" "n_authors (store_record m r) = n_authors m" for m k r
    by (simp_all add: control_on_def store_record_def Let_def split: option.split control.split)
  ultimately show ?thesis using assms(1,3) by (auto simp: keep_opened_def result_simps Let_def based_def)
qed

lemma based_drops:
  assumes "based (ib_node ib) (cl_key cl) (cl_joined cl) s" "cl_seq cl \<le> s" "core_claim S A c = Inr (cl, epoch)" "epoch \<le> ml_epoch (gr_mls (ib_core ib))"
  shows "take_one C S A D now from_peer c ib = Inr (None, ib)"
  using assms by (auto simp: based_def take_one_def take_known_def Let_def split: option.splits)

text \<open>
  C4. What a message's deps say was sent before this session joined is not its to have: once such a message is
  kept, every ciphertext of the dep's membership, up to the dep's seq, is dropped. The epoch of the dep is what the
  author of the message says, and nothing compares it with the membership's.
\<close>

theorem earlier_seqs_are_dropped:
  assumes "keep_opened D now g op c n = Inr (x, n')" and "dep \<in> set (hd_deps (op_header op))"
    and "group_joined g (n_me n) = Some own" and "r_epoch dep < own" and "author_at (n_authors n) (r_key dep) (r_joined dep) \<noteq> None"
    and "ib_node ib = n'" and "core_claim S A c' = Inr (cl, epoch)" and "epoch \<le> ml_epoch (gr_mls (ib_core ib))"
    and "cl_key cl = r_key dep" and "cl_joined cl = r_joined dep" and "cl_seq cl \<le> r_seq dep"
  shows "take_one C S A D later from_peer c' ib = Inr (None, ib)"
proof -
  have "based (ib_node ib) (cl_key cl) (cl_joined cl) (r_seq dep)" using keep_opened_based [OF assms(1-5)] assms(6,9,10) by simp
  then show ?thesis using based_drops assms(7,8,11) by blast
qed

definition late_op :: opened where
  "late_op = \<lparr> op_id = [5], op_epoch = 3,
     op_header = told_header\<lparr> hd_deps := [\<lparr> r_key = [9], r_joined = 0, r_seq = 7, r_id = [], r_epoch = 0 \<rparr>] \<rparr>, op_plaintext = [] \<rparr>"

definition late_group :: core_group where
  "late_group = told_group\<lparr> gr_state := default_state\<lparr> gs_cut := [cut_start [2] 2] \<rparr> \<rparr>"

definition late_node :: node where
  "late_node = told_node\<lparr> n_authors := [author_new [1] 0 0, author_new [9] 0 0] \<rparr>"

lemma late_kept: "\<exists>x n. keep_opened (\<lambda>_. None) 5 late_group late_op [3] late_node = Inr (x, n)"
proof -
  have g: "group_joined late_group [2] = Some 2" by (simp add: late_group_def group_joined_def find_cut_def cut_start_def)
  have n: "n_me late_node = [2]" "n_authors late_node = [author_new [1] 0 0, author_new [9] 0 0]" by (simp_all add: late_node_def told_fields)
  have "opens late_node (take_evidence 5 2 (op_header late_op) late_node)" using quiet_take_evidence by (simp add: quiet_def)
  moreover have "author_at (n_authors late_node) [1] 0 \<noteq> None" by (simp add: n author_at_def author_new_def)
  ultimately have "author_at (n_authors (take_evidence 5 2 (op_header late_op) late_node)) [1] 0 \<noteq> None" by (metis opens_author option.exhaust option.distinct(1))
  then show ?thesis using g by (auto simp: keep_opened_def late_op_def told_header_simps n result_simps Let_def)
qed

theorem earlier_seqs_are_dropped_witness:
  "\<exists>x n. keep_opened (\<lambda>_. None) 5 late_group late_op [3] late_node = Inr (x, n) \<and>
    take_one toy_crypto (toy_codec\<lparr> claim_from := (\<lambda>_. Some \<lparr> cl_key = [9], cl_joined = 0, cl_seq = 6 \<rparr>) \<rparr>) told_api (\<lambda>_. None) 6 (Some [8]) [4]
      \<lparr> ib_core = late_group, ib_node = n, ib_peers = peers_new 0 [2] \<rparr> =
    Inr (None, \<lparr> ib_core = late_group, ib_node = n, ib_peers = peers_new 0 [2] \<rparr>)"
proof -
  let ?S = "toy_codec\<lparr> claim_from := (\<lambda>_. Some \<lparr> cl_key = [9], cl_joined = 0, cl_seq = 6 \<rparr>) \<rparr>" and ?dep = "\<lparr> r_key = [9], r_joined = 0, r_seq = 7, r_id = [], r_epoch = 0 \<rparr> :: msg_ref"
  obtain x n where k: "keep_opened (\<lambda>_. None) 5 late_group late_op [3] late_node = Inr (x, n)" using late_kept by blast
  have d: "?dep \<in> set (hd_deps (op_header late_op))" by (simp add: late_op_def)
  have c: "core_claim ?S told_api [4] = Inr (\<lparr> cl_key = [9], cl_joined = 0, cl_seq = 6 \<rparr>, 3)" by (simp add: core_claim_def told_api_def ensure_def)
  have g: "group_joined late_group (n_me late_node) = Some 2" by (simp add: late_group_def late_node_def told_fields group_joined_def find_cut_def cut_start_def)
  have a: "author_at (n_authors late_node) (r_key ?dep) (r_joined ?dep) \<noteq> None" by (simp add: late_node_def author_at_def author_new_def)
  have e: "3 \<le> ml_epoch (gr_mls (ib_core \<lparr> ib_core = late_group, ib_node = n, ib_peers = peers_new 0 [2] \<rparr>))" by (simp add: late_group_def told_fields)
  show ?thesis
    using k earlier_seqs_are_dropped [OF k d g _ a _ c e, where C = toy_crypto and later = 6 and from_peer = "Some [8]"] by auto
qed

end
