(* ===== verification/Logs.thy ===== *)
theory Logs
  imports Peers Envelope
begin

text \<open>
  The logs a session follows (\<open>crates/node/src/logs.rs\<close>, and \<open>vouched\<close> and \<open>at_head\<close> of \<open>peering.rs\<close>): the table of
  logs and the entries stored of each, taking entries from the service or a peer, what counts as let go, the logs of
  a group, the expiries of earlier epochs. A log's entry is stored after the chain's hash through it. The group a log
  is of is an argument where it is read: its MLS state and its record's fields of logs (\<open>follower\<close>).
\<close>

section \<open>State\<close>

record held_log =
  lg_group :: bytes
  lg_service :: log_service
  lg_head :: "head option"
  lg_at :: u64
  lg_since :: u64
  lg_lapsed :: "(nat \<times> u64) option"

record logs =
  ls_logs :: "(bytes, held_log) btree"
  ls_entries :: "bytes \<times> u64 \<Rightarrow> (bytes \<times> bytes) option"
  ls_reported :: "(bytes \<times> (u64 \<times> bytes) list) list"

record follower =
  fw_log :: bytes
  fw_base :: u64
  fw_position :: u64

record epoch =
  ep_epoch :: nat
  ep_capability :: bytes
  ep_service :: log_service
  ep_expired :: "expiry option"

datatype log_error = NotFollowed | BadAuthority | BadReference | MissingEntry | NoHead | NoRecordOfLog | HeadRefused proof_error | MovedOn | LetGo | GroupFailed group_error

datatype log_work = GoneWork bytes | LapsedWork bytes

section \<open>One log\<close>

definition authority :: "log_service \<Rightarrow> log_error + bytes" where
  "authority s = (case s of NewerService _ \<Rightarrow> Inl BadAuthority | Serve key _ _ \<Rightarrow> rbind (ensure (length key = 32) BadAuthority) (\<lambda>_. Inr key))"

definition log_id :: "bytes \<Rightarrow> log_error + bytes" where
  "log_id ident = rbind (ensure (length ident = 32) BadReference) (\<lambda>_. Inr ident)"

definition log_new :: "bytes \<Rightarrow> log_service \<Rightarrow> u64 \<Rightarrow> held_log" where
  "log_new gid service now = \<lparr> lg_group = gid, lg_service = service, lg_head = None, lg_at = 0, lg_since = now, lg_lapsed = None \<rparr>"

definition log_length :: "held_log \<Rightarrow> u64" where
  "log_length l = (case lg_head l of None \<Rightarrow> 0 | Some h \<Rightarrow> h_length h)"

definition log_frontier :: "crypto \<Rightarrow> held_log \<Rightarrow> bytes \<Rightarrow> log_error + frontier" where
  "log_frontier C l ident =
     rbind (authority (lg_service l)) (\<lambda>service.
     rbind (log_id ident) (\<lambda>ident.
       case lg_head l of
         None \<Rightarrow> Inr (frontier_empty C service ident)
       | Some h \<Rightarrow> map_error HeadRefused (from_head C service ident h)))"

definition epoch_reference :: "crypto \<Rightarrow> epoch \<Rightarrow> log_error + bytes" where
  "epoch_reference C e = rbind (authority (ep_service e)) (\<lambda>service. Inr (reference_of C service (ep_capability e)))"

section \<open>The logs followed\<close>

definition get_log :: "logs \<Rightarrow> bytes \<Rightarrow> log_error + held_log" where
  "get_log st ident = context_of (bt_get (ls_logs st) ident) NotFollowed"

definition read_as_of :: "bytes \<Rightarrow> u64 \<Rightarrow> logs \<Rightarrow> logs" where
  "read_as_of ident at st = (case bt_get (ls_logs st) ident of
     None \<Rightarrow> st | Some l \<Rightarrow> st\<lparr> ls_logs := bt_insert ident (l\<lparr> lg_at := at \<rparr>) (ls_logs st) \<rparr>)"

definition add_log :: "bytes \<Rightarrow> held_log \<Rightarrow> logs \<Rightarrow> logs" where
  "add_log ident l st = st\<lparr> ls_logs := bt_insert ident l (ls_logs st) \<rparr>"

text \<open>Deletes the entries at positions 1 to the log's length.\<close>

definition drop_log :: "bytes \<Rightarrow> logs \<Rightarrow> logs" where
  "drop_log ident st = (case bt_get (ls_logs st) ident of
     None \<Rightarrow> st
   | Some l \<Rightarrow> st\<lparr> ls_logs := bt_remove ident (ls_logs st),
       ls_entries := (\<lambda>k. if fst k = ident \<and> 1 \<le> snd k \<and> snd k \<le> log_length l then None else ls_entries st k) \<rparr>)"

definition entry_at :: "logs \<Rightarrow> bytes \<Rightarrow> u64 \<Rightarrow> bytes option" where
  "entry_at st ident position = map_option snd (ls_entries st (ident, position))"

definition hash_at :: "crypto \<Rightarrow> logs \<Rightarrow> bytes \<Rightarrow> u64 \<Rightarrow> log_error + bytes option" where
  "hash_at C st ident position =
     (if position = 0 then rbind (get_log st ident) (\<lambda>l. rbind (authority (lg_service l)) (\<lambda>service. rbind (log_id ident) (\<lambda>i.
        Inr (Some (start C service i)))))
      else Inr (map_option fst (ls_entries st (ident, position))))"

text \<open>The entries held from a position on: the scan ends at the first that is not there, or never.\<close>

partial_function (option) entries_from :: "logs \<Rightarrow> bytes \<Rightarrow> u64 \<Rightarrow> bytes list option" where
  "entries_from st ident position =
     (case entry_at st ident position of
        None \<Rightarrow> Some []
      | Some e \<Rightarrow> Option.bind (entries_from st ident (position + 1)) (\<lambda>es. Some (e # es)))"

definition entries_after :: "logs \<Rightarrow> bytes \<Rightarrow> u64 \<Rightarrow> bytes list option" where
  "entries_after st ident after = entries_from st ident (after + 1)"

section \<open>A group's logs\<close>

text \<open>\<open>now\<close> is the corrected time. Past \<open>STALE\<close> from when the log was last seen alive it counts as let go.\<close>

definition log_capability :: "crypto \<Rightarrow> codec \<Rightarrow> logs \<Rightarrow> follower \<Rightarrow> mls \<Rightarrow> u64 \<Rightarrow> bytes \<Rightarrow> log_error + bytes" where
  "log_capability C S st fw m now ident =
     rbind (get_log st ident) (\<lambda>l.
     rbind (ensure (fw_log fw = ident) MovedOn) (\<lambda>_.
     rbind (ensure (now \<le> max (lg_at l) (lg_since l) + word_of_nat STALE) LetGo) (\<lambda>_.
       map_error GroupFailed (capability_of C S m))))"

definition next_log :: "crypto \<Rightarrow> codec \<Rightarrow> u64 \<Rightarrow> mls \<Rightarrow> u64 \<Rightarrow> logs \<Rightarrow> follower \<Rightarrow> log_error + bytes \<times> logs \<times> follower" where
  "next_log C S now m base st fw =
     rbind (map_error GroupFailed (settings_of S (ml_extensions m))) (\<lambda>s.
     rbind (authority (s_membership s)) (\<lambda>key.
     rbind (map_error GroupFailed (capability_of C S m)) (\<lambda>capability.
       (let ident = reference_of C key capability
        in Inr (ident, add_log ident (log_new (ml_group_id m) (s_membership s) now) st, fw\<lparr> fw_log := ident, fw_base := base \<rparr>)))))"

definition held_to :: "logs \<Rightarrow> follower \<Rightarrow> log_error + u64" where
  "held_to st fw = rbind (get_log st (fw_log fw)) (\<lambda>l. Inr (fw_base fw + log_length l))"

definition group_entry :: "logs \<Rightarrow> follower \<Rightarrow> u64 \<Rightarrow> bytes option" where
  "group_entry st fw position = entry_at st (fw_log fw) (position - fw_base fw)"

definition at_head :: "logs \<Rightarrow> follower \<Rightarrow> bool" where
  "at_head st fw = (case held_to st fw of Inl _ \<Rightarrow> False | Inr held \<Rightarrow> fw_position fw \<ge> held)"

definition group_logs :: "logs \<Rightarrow> bytes \<Rightarrow> bytes option \<Rightarrow> bytes list" where
  "group_logs st gid current =
     map fst (filter (\<lambda>e. lg_group (snd e) = gid \<and> Some (fst e) \<noteq> current) (ls_logs st)) @ (case current of None \<Rightarrow> [] | Some c \<Rightarrow> [c])"

fun drop_older :: "u64 \<Rightarrow> bytes list \<Rightarrow> logs \<Rightarrow> log_error + logs" where
  "drop_older limit [] st = Inr st"
| "drop_older limit (i # is) st = rbind (get_log st i) (\<lambda>l. drop_older limit is (if lg_at l < limit then drop_log i st else st))"

definition drop_earlier :: "bytes \<Rightarrow> bytes option \<Rightarrow> u64 \<Rightarrow> logs \<Rightarrow> log_error + logs" where
  "drop_earlier gid current limit st = drop_older limit (butlast (group_logs st gid current)) st"

fun match_expiries :: "crypto \<Rightarrow> bytes \<Rightarrow> expiry list \<Rightarrow> epoch list \<Rightarrow> log_error + epoch list" where
  "match_expiries C key expiries [] = Inr []"
| "match_expiries C key expiries (e # es) =
     rbind (if ep_expired e \<noteq> None then Inr e
            else rbind (epoch_reference C e) (\<lambda>r.
              Inr (case List.find (\<lambda>x. e_log_ref x = r \<and> expiry_verify C key x) expiries of None \<Rightarrow> e | Some x \<Rightarrow> e\<lparr> ep_expired := Some x \<rparr>))) (\<lambda>e.
     rbind (match_expiries C key expiries es) (\<lambda>es. Inr (e # es)))"

definition log_expiries :: "crypto \<Rightarrow> settings \<Rightarrow> expiry list \<Rightarrow> epoch list \<Rightarrow> log_error + epoch list" where
  "log_expiries C s expiries epochs =
     rbind (authority (s_membership s)) (\<lambda>key.
     rbind (ensure (ed_key C key) BadAuthority) (\<lambda>_. match_expiries C key expiries epochs))"

section \<open>Taking entries\<close>

text \<open>A contradiction is reported once for each two heads of a log: whether it is now, and all reported.\<close>

definition contradicted :: "bytes \<Rightarrow> head \<Rightarrow> head \<Rightarrow> logs \<Rightarrow> bool \<times> logs" where
  "contradicted ident ours theirs st =
     (let key = (ident, sort [(h_length ours, h_hash ours), (h_length theirs, h_hash theirs)])
      in if key \<in> set (ls_reported st) then (False, st) else (True, st\<lparr> ls_reported := key # ls_reported st \<rparr>))"

datatype taken = Ignored | Contradicted head head bool | Held bool

text \<open>The hashes through each of the entries, after the one they follow.\<close>

fun hashes_of :: "crypto \<Rightarrow> bytes \<Rightarrow> bytes list \<Rightarrow> bytes list" where
  "hashes_of C h [] = [h]"
| "hashes_of C h (e # es) = h # hashes_of C (nxt C h e) es"

definition put_entries :: "bytes \<Rightarrow> u64 \<Rightarrow> bytes list \<Rightarrow> bytes list \<Rightarrow> u64 list \<Rightarrow> logs \<Rightarrow> logs" where
  "put_entries ident after hashes entries places st =
     foldl (\<lambda>st p. let i = unat (p - after) in st\<lparr> ls_entries := (ls_entries st)((ident, p) := Some (hashes ! i, entries ! (i - 1))) \<rparr>) st places"

definition positions_to :: "u64 \<Rightarrow> u64 \<Rightarrow> u64 list" where
  "positions_to after to = map word_of_nat [Suc (unat after)..<Suc (unat to)]"

text \<open>\<open>take_entries\<close> up to the advance of the group, which \<open>Held True\<close> asks for if the log is its current one.\<close>

definition hold_entries :: "crypto \<Rightarrow> bytes \<Rightarrow> u64 \<Rightarrow> bytes list \<Rightarrow> head \<Rightarrow> logs \<Rightarrow> log_error + taken \<times> logs" where
  "hold_entries C ident after entries h st =
     rbind (get_log st ident) (\<lambda>l.
     (let len = log_length l
      in if after > len then Inr (Ignored, st)
         else rbind (hash_at C st ident after) (\<lambda>x. rbind (context_of x MissingEntry) (\<lambda>from_hash.
           (let hashes = hashes_of C from_hash entries
            in if after + word_of_nat (length entries) \<noteq> h_length h \<or> List.last hashes \<noteq> h_hash h then Inr (Ignored, st)
               else
                 let overlap = min (h_length h) len
                 in rbind (hash_at C st ident overlap) (\<lambda>ours.
                      if ours \<noteq> Some (hashes ! unat (overlap - after)) then
                        rbind (context_of (lg_head l) NoHead) (\<lambda>mine.
                          (let (told, st) = contradicted ident mine h st in Inr (Contradicted mine h told, st)))
                      else
                        let fresh = h_length h > len;
                            st = put_entries ident after hashes entries (positions_to len (h_length h)) st;
                            l = l\<lparr> lg_at := max (lg_at l) (h_time h), lg_head := (if fresh then Some h else lg_head l) \<rparr>
                        in Inr (Held fresh, st\<lparr> ls_logs := bt_insert ident l (ls_logs st) \<rparr>)))))))"

text \<open>Whether the service that let the log go means the group leaves it: the work of the group, if it is current.\<close>

definition lapse :: "nat \<Rightarrow> bytes \<Rightarrow> bool \<Rightarrow> logs \<Rightarrow> log_error + log_work option \<times> logs" where
  "lapse now ident current st =
     rbind (get_log st ident) (\<lambda>l.
     (let len = log_length l;
          (since, l) = (case lg_lapsed l of
             Some (since, held) \<Rightarrow> if held = len then (since, l) else (now, l\<lparr> lg_lapsed := Some (now, len) \<rparr>)
           | None \<Rightarrow> (now, l\<lparr> lg_lapsed := Some (now, len) \<rparr>));
          st = st\<lparr> ls_logs := bt_insert ident l (ls_logs st) \<rparr>
      in Inr (if \<not> current then None
              else if now \<ge> since + WAIT then Some (GoneWork (lg_group l))
              else if since = now then Some (LapsedWork ident) else None, st)))"

text \<open>Whether a head a peer showed of a log followed is signed and agrees with the copy held; with the report if not.\<close>

definition copy_check :: "crypto \<Rightarrow> head \<Rightarrow> logs \<Rightarrow> held_log \<Rightarrow> log_error + unit" where
  "copy_check C h st l =
     rbind (log_frontier C l (h_log_ref h)) (\<lambda>f. rbind (hash_at C st (h_log_ref h) (h_length h)) (\<lambda>x. map_error HeadRefused (check C f h x)))"

definition vouched :: "crypto \<Rightarrow> head \<Rightarrow> logs \<Rightarrow> bool \<times> bool \<times> logs" where
  "vouched C h st =
     (let ident = h_log_ref h
      in case bt_get (ls_logs st) ident of
           None \<Rightarrow> (False, False, st)
         | Some l \<Rightarrow>
             (case copy_check C h st l of
                Inr _ \<Rightarrow> (True, False, st)
              | Inl (HeadRefused (Contradiction ours theirs)) \<Rightarrow> (let (told, st) = contradicted ident ours theirs st in (False, told, st))
              | Inl _ \<Rightarrow> (False, False, st)))"

text \<open>A frame of entries from a peer.\<close>

definition take_entries_frame :: "crypto \<Rightarrow> bytes \<Rightarrow> bytes list \<Rightarrow> head \<Rightarrow> logs \<Rightarrow> log_error + taken \<times> logs" where
  "take_entries_frame C ident entries h st =
     (if ident \<noteq> h_log_ref h then Inr (Ignored, st)
      else let (agrees, _, st) = vouched C h st
           in if agrees then hold_entries C ident (sat_sub (h_length h) (word_of_nat (length entries))) entries h st else Inr (Ignored, st))"

end
