(* ===== verification/Logs_Spec.thy ===== *)
theory Logs_Spec
  imports Logs
begin

text \<open>
  What taking entries keeps of a log followed (\<open>crates/node/src/logs.rs\<close>): the entries held are a log, under a head
  its service signed (\<open>held_as\<close>), whatever a peer sends; the log only grows, by entries that chain on to it; two heads
  reported as a contradiction are proof against the service.
\<close>

section \<open>A log held\<close>

definition held_as :: "crypto \<Rightarrow> logs \<Rightarrow> bytes \<Rightarrow> held_log \<Rightarrow> bytes \<Rightarrow> bytes list \<Rightarrow> bool" where
  "held_as C st ident l key es \<longleftrightarrow> bt_get (ls_logs st) ident = Some l \<and> authority (lg_service l) = Inr key \<and> length ident = 32 \<and> ed_key C key \<and>
     unat (log_length l) = length es \<and>
     (\<forall>p. ls_entries st (ident, p) =
       (if 1 \<le> unat p \<and> unat p \<le> length es then Some (chain C (start C key ident) (take (unat p) es), es ! (unat p - 1)) else None)) \<and>
     (\<forall>h. lg_head l = Some h \<longrightarrow> h_log_ref h = ident \<and> head_verify C key h \<and> h_hash h = chain C (start C key ident) es)"

lemma held_hash:
  assumes "held_as C st ident l key es" "unat p \<le> length es"
  shows "hash_at C st ident p = Inr (Some (chain C (start C key ident) (take (unat p) es)))"
proof (cases "p = 0")
  case False
  then have "1 \<le> unat p" by (simp add: Suc_le_eq unat_gt_0)
  then show ?thesis using assms False by (simp add: hash_at_def held_as_def)
qed (use assms in \<open>simp add: hash_at_def held_as_def get_log_def log_id_def ensure_def\<close>)

lemma hashes_of_nth: "i \<le> length es \<Longrightarrow> hashes_of C h es ! i = chain C h (take i es)"
proof (induction es arbitrary: h i)
  case (Cons e es)
  then show ?case by (cases i) auto
qed simp

lemma length_hashes_of [simp]: "length (hashes_of C h es) = Suc (length es)"
  by (induction es arbitrary: h) auto

lemma last_hashes_of: "List.last (hashes_of C h es) = chain C h es"
proof -
  have "hashes_of C h es \<noteq> []" by (cases es) auto
  then show ?thesis by (simp add: last_conv_nth hashes_of_nth)
qed

lemma put_entries_get:
  "ls_entries (put_entries ident after hs es ps st) k =
     (if fst k = ident \<and> snd k \<in> set ps then Some (hs ! unat (snd k - after), es ! (unat (snd k - after) - 1)) else ls_entries st k)"
  unfolding put_entries_def by (induction ps arbitrary: st) (auto simp: Let_def)

lemma put_entries_same: "ls_logs (put_entries ident after hs es ps st) = ls_logs st" "ls_reported (put_entries ident after hs es ps st) = ls_reported st"
  unfolding put_entries_def by (induction ps arbitrary: st) (auto simp: Let_def)

lemma set_positions_to: "p \<in> set (positions_to a b) \<longleftrightarrow> unat a < unat p \<and> unat p \<le> unat b"
proof
  assume "p \<in> set (positions_to a b)"
  then obtain n where n: "p = word_of_nat n" "Suc (unat a) \<le> n" "n < Suc (unat b)" by (auto simp: positions_to_def)
  have "unat b < 2 ^ LENGTH(64)" by (rule unsigned_less)
  then have "n < 2 ^ 64" using n(3) by simp
  then show "unat a < unat p \<and> unat p \<le> unat b" using n by (simp add: unat_of_nat)
next
  assume p: "unat a < unat p \<and> unat p \<le> unat b"
  have "p = word_of_nat (unat p)" by simp
  then show "p \<in> set (positions_to a b)" using p unfolding positions_to_def set_map by (intro image_eqI [of _ _ "unat p"]) auto
qed

section \<open>Taking entries\<close>

text \<open>The entries of other logs and the other logs themselves are untouched.\<close>

definition other_logs_same :: "bytes \<Rightarrow> logs \<Rightarrow> logs \<Rightarrow> bool" where
  "other_logs_same ident st st' \<longleftrightarrow> (\<forall>i p. i \<noteq> ident \<longrightarrow> bt_get (ls_logs st') i = bt_get (ls_logs st) i \<and> ls_entries st' (i, p) = ls_entries st (i, p))"

text \<open>The log two heads cannot both be of: what the sender claims, from where its entries start.\<close>

definition claimed_log :: "bytes list \<Rightarrow> nat \<Rightarrow> bytes list \<Rightarrow> bytes list" where
  "claimed_log es a entries = take a es @ entries"

definition of_log :: "crypto \<Rightarrow> bytes \<Rightarrow> head \<Rightarrow> bytes list \<Rightarrow> bool" where
  "of_log C first_hash h es \<longleftrightarrow> unat (h_length h) \<le> length es \<and> h_hash h = chain C first_hash (take (unat (h_length h)) es)"

definition convicts :: "crypto \<Rightarrow> bytes \<Rightarrow> bytes \<Rightarrow> head \<Rightarrow> head \<Rightarrow> bool" where
  "convicts C key ident ours theirs \<longleftrightarrow> h_log_ref ours = ident \<and> h_log_ref theirs = ident \<and> head_verify C key ours \<and> head_verify C key theirs \<and>
     (\<forall>es. of_log C (start C key ident) ours es \<and> of_log C (start C key ident) theirs es \<longrightarrow> (\<exists>x y. x \<noteq> y \<and> sha256 C x = sha256 C y))"

lemma chain_collision:
  assumes "digest_law C" "length es = length fs" "chain C s es = chain C s fs" "es \<noteq> fs"
  shows "\<exists>x y. x \<noteq> y \<and> sha256 C x = sha256 C y"
  using chain_binds [OF assms(1,2) refl assms(3)] assms(4) unfolding collides_def by (auto split: option.splits)

lemma conflicting_heads:
  assumes "digest_law C" "of_log C s ours es" "of_log C s theirs fs" "unat (h_length ours) = length es" "unat (h_length theirs) = length fs"
    "n \<le> length es" "n \<le> length fs" "chain C s (take n es) \<noteq> chain C s (take n fs)" "of_log C s ours gs" "of_log C s theirs gs"
  shows "\<exists>x y. x \<noteq> y \<and> sha256 C x = sha256 C y"
proof (rule ccontr)
  assume none: "\<not> ?thesis"
  have "chain C s (take (length es) gs) = chain C s es" "length (take (length es) gs) = length es"
    using assms(2,4,9) by (auto simp: of_log_def)
  then have "take (length es) gs = es" using chain_collision [OF assms(1)] none by blast
  moreover have "chain C s (take (length fs) gs) = chain C s fs" "length (take (length fs) gs) = length fs"
    using assms(3,5,10) by (auto simp: of_log_def)
  then have "take (length fs) gs = fs" using chain_collision [OF assms(1)] none by blast
  ultimately have "take n gs = take n es" "take n gs = take n fs" using take_take [of n "length es" gs] take_take [of n "length fs" gs] assms(6,7) by (simp_all add: min_def)
  then have "take n es = take n fs" by simp
  then show False using assms(8) by simp
qed

lemma contradicted_same:
  assumes "contradicted ident mine h st = (told, st')"
  shows "ls_logs st' = ls_logs st" "ls_entries st' = ls_entries st"
  using assms by (auto simp: contradicted_def Let_def split: if_splits)

lemma held_as_cong: "ls_logs st' = ls_logs st \<Longrightarrow> ls_entries st' = ls_entries st \<Longrightarrow> held_as C st' = held_as C st"
  by (simp add: held_as_def fun_eq_iff)

text \<open>What taking entries may do: hold the log as it was, or grown by new entries under the head; or report the head.\<close>

definition follows_on :: "crypto \<Rightarrow> bytes \<Rightarrow> bytes \<Rightarrow> bytes list \<Rightarrow> head \<Rightarrow> logs \<Rightarrow> taken \<times> logs \<Rightarrow> bool" where
  "follows_on C ident key es h st r \<longleftrightarrow> other_logs_same ident st (snd r) \<and> (\<exists>l es'. held_as C (snd r) ident l key es' \<and>
     (case fst r of
        Held True \<Rightarrow> es = take (length es) es' \<and> length es < length es' \<and> lg_head l = Some h
      | Contradicted ours theirs _ \<Rightarrow> es' = es \<and> theirs = h \<and> convicts C key ident ours theirs
      | _ \<Rightarrow> es' = es))"

lemma other_refl [simp]: "other_logs_same ident st st"
  by (simp add: other_logs_same_def)

lemma ignored_follows: "held_as C st ident l key es \<Longrightarrow> follows_on C ident key es h st (Ignored, st)"
  by (auto simp: follows_on_def)

lemma hold_kept:
  assumes "held_as C st ident l key es" "h_log_ref h = ident" "head_verify C key h" "unat after \<le> length es" "length es + length entries < 2 ^ 64"
    "unat (h_length h) = unat after + length entries" "h_hash h = chain C (start C key ident) (take (unat after) es @ entries)"
    "n = min (unat (h_length h)) (length es)" "chain C (start C key ident) (take n es) = chain C (start C key ident) (take n (take (unat after) es @ entries))"
    "st' = put_entries ident after (hashes_of C (chain C (start C key ident) (take (unat after) es)) entries) entries (positions_to (log_length l) (h_length h)) st"
    "l' = l\<lparr> lg_at := t, lg_head := (if h_length h > log_length l then Some h else lg_head l) \<rparr>"
  shows "follows_on C ident key es h st (Held (h_length h > log_length l), st'\<lparr> ls_logs := bt_insert ident l' (ls_logs st') \<rparr>)"
proof -
  let ?s = "start C key ident" and ?a = "unat after" and ?st = "st'\<lparr> ls_logs := bt_insert ident l' (ls_logs st') \<rparr>"
  have l: "authority (lg_service l) = Inr key" "length ident = 32" "ed_key C key" "unat (log_length l) = length es"
    and stored: "\<And>p. ls_entries st (ident, p) = (if 1 \<le> unat p \<and> unat p \<le> length es then Some (chain C ?s (take (unat p) es), es ! (unat p - 1)) else None)"
    and mine: "\<And>g. lg_head l = Some g \<Longrightarrow> h_log_ref g = ident \<and> head_verify C key g \<and> h_hash g = chain C ?s es"
    using assms(1) by (auto simp: held_as_def)
  have other: "other_logs_same ident st ?st" using assms(10) by (auto simp: other_logs_same_def put_entries_get put_entries_same)
  have get: "ls_entries ?st (ident, p) = (if length es < unat p \<and> unat p \<le> unat (h_length h)
      then Some (hashes_of C (chain C ?s (take ?a es)) entries ! unat (p - after), entries ! (unat (p - after) - 1)) else ls_entries st (ident, p))" for p
    using l(4) by (simp add: assms(10) put_entries_get set_positions_to)
  show ?thesis
  proof (cases "h_length h > log_length l")
    case False
    then have "\<not> unat (h_length h) > length es" using l(4) by (simp add: word_less_nat_alt)
    then have "ls_entries ?st (ident, p) = ls_entries st (ident, p)" for p unfolding get by auto
    then have "held_as C ?st ident l' key es" using False l stored mine by (simp add: held_as_def assms(11) log_length_def)
    then show ?thesis using False other by (auto simp: follows_on_def)
  next
    case True
    then have longer: "length es < ?a + length entries" using l(4) assms(6) by (simp add: word_less_nat_alt)
    define j where "j = length es - ?a"
    define new where "new = drop j entries"
    have j: "j \<le> length entries" "?a + j = length es" using longer assms(4) by (simp_all add: j_def)
    have same: "chain C ?s (take ?a es @ take j entries) = chain C ?s es"
      using assms(8,9) assms(4,6) longer j by (simp add: j_def)
    have es': "length (es @ new) = ?a + length entries" using j by (simp add: new_def)
    have "ls_entries ?st (ident, p) = (if 1 \<le> unat p \<and> unat p \<le> length (es @ new)
        then Some (chain C ?s (take (unat p) (es @ new)), (es @ new) ! (unat p - 1)) else None)" for p
    proof (cases "length es < unat p \<and> unat p \<le> unat (h_length h)")
      case True
      have "after \<le> p" using True assms(4) by (simp add: word_le_nat_alt)
      then have i: "unat (p - after) = unat p - ?a" by (simp add: unat_sub)
      let ?i = "unat p - ?a"
      have b: "?i \<le> length entries" "j < ?i" "unat p - length es = ?i - j" using True assms(6) j by auto
      have "take ?i entries = take j entries @ take (?i - j) new" using b by (simp add: new_def take_add [symmetric])
      then have "chain C (chain C ?s (take ?a es)) (take ?i entries) = chain C ?s (es @ take (?i - j) new)"
        using same by (simp add: foldl_append)
      moreover have "j + (unat p - 1 - length es) = ?i - 1" using b j by arith
      then have "entries ! (?i - 1) = new ! (unat p - 1 - length es)" using j by (simp add: new_def)
      moreover have "\<not> unat p - 1 < length es" using True by arith
      ultimately show ?thesis using True b es' assms(6) get [of p] i by (simp add: hashes_of_nth nth_append)
    next
      case False
      then show ?thesis using get [of p] stored [of p] es' assms(6) by (auto simp: nth_append)
    qed
    moreover have "h_hash h = chain C ?s (es @ new)"
      using assms(7) same append_take_drop_id [of j entries] unfolding new_def by (metis append.assoc foldl_append)
    ultimately have "held_as C ?st ident l' key (es @ new)"
      using True l assms(2,3,6) es' by (simp add: held_as_def assms(11) log_length_def)
    moreover have "length es < length (es @ new)" using longer es' by simp
    moreover have "es = take (length es) (es @ new)" "lg_head l' = Some h" using True by (simp_all add: assms(11))
    ultimately show ?thesis using True other unfolding follows_on_def by (simp only: fst_conv snd_conv taken.case bool.case if_True) blast
  qed
qed

lemma hold_entries_follows:
  assumes "digest_law C" "held_as C st ident l key es" "h_log_ref h = ident" "head_verify C key h" "length es + length entries < 2 ^ 64"
  obtains r where "hold_entries C ident after entries h st = Inr r" "follows_on C ident key es h st r"
proof -
  let ?s = "start C key ident" and ?a = "unat after" and ?n = "length es"
  let ?hs = "hashes_of C (chain C ?s (take ?a es)) entries"
  have l: "get_log st ident = Inr l" "unat (log_length l) = ?n" using assms(2) by (simp_all add: held_as_def get_log_def)
  show thesis
  proof (cases "after > log_length l \<or> after + word_of_nat (length entries) \<noteq> h_length h \<or> List.last ?hs \<noteq> h_hash h")
    case True
    have "hash_at C st ident after = Inr (Some (chain C ?s (take ?a es)))" if "\<not> after > log_length l"
      using held_hash [OF assms(2)] that l(2) by (simp add: word_less_nat_alt)
    then have "hold_entries C ident after entries h st = Inr (Ignored, st)" using True l(1) by (auto simp: hold_entries_def Let_def)
    then show ?thesis using that ignored_follows [OF assms(2)] by blast
  next
    case False
    have a: "?a \<le> ?n" using False l(2) by (simp add: word_less_nat_alt)
    have "unat (word_of_nat (length entries) :: u64) = length entries" using assms(5) by (simp add: unat_of_nat)
    then have "unat (after + word_of_nat (length entries)) = ?a + length entries" using a assms(5) by (simp add: unat_word_ariths)
    then have m: "unat (h_length h) = ?a + length entries" using False by simp
    define n where "n = min (unat (h_length h)) ?n"
    have n: "unat (min (h_length h) (log_length l)) = n" "n \<le> ?n" "?a \<le> n" "n - ?a \<le> length entries"
      using l(2) a m by (auto simp: n_def min_def word_le_nat_alt)
    have ours: "hash_at C st ident (min (h_length h) (log_length l)) = Inr (Some (chain C ?s (take n es)))"
      using held_hash [OF assms(2)] n by simp
    have from_hash: "hash_at C st ident after = Inr (Some (chain C ?s (take ?a es)))" using held_hash [OF assms(2)] a by simp
    have "unat (min (h_length h) (log_length l) - after) = n - ?a" using n by (simp add: unat_sub word_le_nat_alt)
    then have theirs: "?hs ! unat (min (h_length h) (log_length l) - after) = chain C ?s (take n (take ?a es @ entries))"
      using n a by (simp add: hashes_of_nth min_absorb2)
    have hash: "h_hash h = chain C ?s (take ?a es @ entries)" using False by (simp add: last_hashes_of)
    show ?thesis
    proof (cases "chain C ?s (take n es) = chain C ?s (take n (take ?a es @ entries))")
      case True
      let ?st = "put_entries ident after ?hs entries (positions_to (log_length l) (h_length h)) st"
      let ?l = "l\<lparr> lg_at := max (lg_at l) (h_time h), lg_head := (if h_length h > log_length l then Some h else lg_head l) \<rparr>"
      have "hold_entries C ident after entries h st = Inr (Held (h_length h > log_length l), ?st\<lparr> ls_logs := bt_insert ident ?l (ls_logs ?st) \<rparr>)"
        using False l(1) from_hash ours theirs True by (simp add: hold_entries_def Let_def)
      then show ?thesis using that hold_kept [OF assms(2-4) a assms(5) m hash n_def True refl refl] by blast
    next
      case conflict: False
      have "es \<noteq> []" using conflict a n(2) by auto
      then have "log_length l \<noteq> 0" using l(2) by auto
      then obtain mine where mine: "lg_head l = Some mine" by (auto simp: log_length_def split: option.splits)
      obtain told st' where told: "contradicted ident mine h st = (told, st')" by fastforce
      have run: "hold_entries C ident after entries h st = Inr (Contradicted mine h told, st')"
        using False l(1) from_hash ours theirs conflict mine told by (simp add: hold_entries_def Let_def)
      have head: "h_log_ref mine = ident" "head_verify C key mine" "h_hash mine = chain C ?s es" "unat (h_length mine) = ?n"
        using assms(2) mine l(2) by (simp_all add: held_as_def log_length_def)
      have "convicts C key ident mine h"
        unfolding convicts_def
      proof (intro conjI allI impI)
        fix gs
        assume gs: "of_log C ?s mine gs \<and> of_log C ?s h gs"
        show "\<exists>x y. x \<noteq> y \<and> sha256 C x = sha256 C y"
          by (rule conflicting_heads [OF assms(1), of ?s mine es h "take ?a es @ entries" n gs])
            (use head hash m a n conflict gs in \<open>auto simp: of_log_def\<close>)
      qed (use head assms(3,4) in simp_all)
      moreover have "held_as C st' ident l key es" using assms(2) held_as_cong [OF contradicted_same [OF told]] by simp
      moreover have "other_logs_same ident st st'" using contradicted_same [OF told] by (simp add: other_logs_same_def)
      ultimately have "follows_on C ident key es h st (Contradicted mine h told, st')" by (auto simp: follows_on_def)
      then show ?thesis using that run by blast
    qed
  qed
qed

section \<open>A frame of entries\<close>

lemma vouched_agrees:
  assumes "vouched C h st = (True, told, st')" "held_as C st (h_log_ref h) l key es"
  shows "head_verify C key h" "st' = st"
proof -
  have l: "bt_get (ls_logs st) (h_log_ref h) = Some l" using assms(2) by (simp add: held_as_def)
  show st: "st' = st"
    using assms(1) l by (auto simp: vouched_def Let_def split: sum.splits log_error.splits proof_error.splits prod.splits)
  have "\<exists>u. copy_check C h st l = Inr u"
    using assms(1) l by (auto simp: vouched_def Let_def split: sum.splits log_error.splits proof_error.splits prod.splits)
  then obtain f x where f: "log_frontier C l (h_log_ref h) = Inr f" "map_error HeadRefused (check C f h x) = Inr ()"
    unfolding copy_check_def rbind_Inr_iff by auto
  have ok: "check C f h x = Inr ()" using f(2) by (cases "check C f h x") (auto simp: map_error_def)
  have k: "authority (lg_service l) = Inr key" "length (h_log_ref h) = 32" using assms(2) by (simp_all add: held_as_def)
  have service: "from_head C key i g = Inr f \<Longrightarrow> f_service f = key" for i g
    by (auto simp: from_head_def Let_def rbind_Inr_iff frontier_empty_def)
  have "f_service f = key"
  proof (cases "lg_head l")
    case None
    then show ?thesis using f(1) k by (auto simp: log_frontier_def log_id_def ensure_def frontier_empty_def)
  next
    case (Some g)
    then have "map_error HeadRefused (from_head C key (h_log_ref h) g) = Inr f" using f(1) k by (simp add: log_frontier_def log_id_def ensure_def)
    then show ?thesis using service by (cases "from_head C key (h_log_ref h) g") (auto simp: map_error_def)
  qed
  then show "head_verify C key h" using ok by (simp add: check_Inr_iff)
qed

lemma vouched_stores:
  assumes "vouched C h st = (agrees, told, st')"
  shows "ls_logs st' = ls_logs st \<and> ls_entries st' = ls_entries st"
  using assms contradicted_same
  by (auto simp: vouched_def Let_def split: option.splits sum.splits log_error.splits proof_error.splits prod.splits)


definition toy_id :: bytes where
  "toy_id = replicate 32 4"

definition toy_log :: held_log where
  "toy_log = log_new [7] (Serve (ed_public toy_crypto []) [] []) 5"

definition toy_logs :: logs where
  "toy_logs = \<lparr> ls_logs = [(toy_id, toy_log)], ls_entries = (\<lambda>_. None), ls_reported = [] \<rparr>"

definition toy_end :: head where
  "toy_end = head_sign toy_crypto [] toy_id 1 (chain toy_crypto (start toy_crypto (ed_public toy_crypto []) toy_id) [[1]]) 5"

lemma toy_held_as: "held_as toy_crypto toy_logs toy_id toy_log (ed_public toy_crypto []) []"
  by (simp add: held_as_def toy_logs_def bt_get_def toy_log_def log_new_def authority_def ensure_def toy_id_def log_length_def toy_crypto_def)


end
