(* ===== verification/Cuts.thy ===== *)
theory Cuts
  imports Opening Logs
begin

text \<open>
  What an applied commit does to a group's memberships (\<open>lose\<close>, \<open>cuts\<close>, \<open>moved\<close> and \<open>at\<close> in
  \<open>crates/node/src/reading.rs\<close>): each cut moves, and with it the baselines of what was sent before this session
  joined; the kept sealings freeze; memberships end, with what they hold past their final cuts dropped, and begin;
  what the next commit waits for is written down; what was not fetched in time is lost.
\<close>

section \<open>What is lost\<close>

definition lose_one :: "seqs \<Rightarrow> node \<Rightarrow> node_error + node" where
  "lose_one l n = rbind (context_of (author_at (n_authors n) (sq_key l) (sq_joined l)) NoAuthor) (\<lambda>_.
     Inr (with_author (sq_key l) (sq_joined l) (\<lambda>a. a\<lparr> a_lost := union_of (a_lost a) (sq_seqs l) \<rparr>) n))"

fun lose_each :: "seqs list \<Rightarrow> node \<Rightarrow> node_error + node" where
  "lose_each [] n = Inr n"
| "lose_each (l # ls) n = rbind (lose_one l n) (lose_each ls)"

definition lose :: "node \<Rightarrow> node_error + node" where
  "lose n =
     (let lack = lacking n
      in if lack = [] then Inr n
         else rbind (lose_each lack n) (\<lambda>n.
           Inr (n\<lparr> n_changed := True, n_lost := n_lost n @ lack,
             n_events := n_events n @ [LostEvent (n_gid n) (member_by_key n (n_me n))
               (map (\<lambda>l. \<lparr> lo_from = member_by_key n (sq_key l), lo_joined = sq_joined l, lo_seqs = iter (sq_seqs l), lo_ids = [] \<rparr>) lack)] \<rparr>)))"

section \<open>Moving the cuts\<close>

definition own_joined :: "core_group \<Rightarrow> applied \<Rightarrow> bytes \<Rightarrow> nat option" where
  "own_joined g ap me = (case group_joined g me of Some j \<Rightarrow> Some j | None \<Rightarrow> map_option r_joined (find_cut (ap_cut ap) me))"

definition with_new_author :: "bytes \<Rightarrow> nat \<Rightarrow> node \<Rightarrow> node" where
  "with_new_author key joined n =
     (if author_at (n_authors n) key joined = None then n\<lparr> n_authors := n_authors n @ [author_new key joined 0] \<rparr> else n)"

text \<open>A kept message's sealing of an epoch other than the one that ends is served no more; a kept message is sealed no more.\<close>

definition cut_author :: "nat \<Rightarrow> u64 \<Rightarrow> author \<Rightarrow> author" where
  "cut_author ending seq a = a\<lparr> a_cut := seq, a_known := max (a_known a) seq,
     a_servable := foldl (\<lambda>rs e. remove_at (fst e) rs) (a_servable a) (filter (\<lambda>e. fst e \<le> seq \<and> snd e \<noteq> ending) (a_sealed a)),
     a_sealed := bt_retain (\<lambda>s _. s > seq) (a_sealed a) \<rparr>"

definition move_cut :: "nat option \<Rightarrow> nat \<Rightarrow> msg_ref \<Rightarrow> node \<times> seqs list \<times> ranges \<Rightarrow> node \<times> seqs list \<times> ranges" where
  "move_cut own ending r acc =
     (let (n, keep, kept_own) = acc;
          n = with_new_author (r_key r) (r_joined r) n;
          n = (case own of Some joined \<Rightarrow> if r_epoch r < joined then before_joining n (r_key r) (r_joined r) (r_seq r) else n | None \<Rightarrow> n)
      in case author_at (n_authors n) (r_key r) (r_joined r) of
           None \<Rightarrow> (n, keep, kept_own)
         | Some a \<Rightarrow>
             let kept = range_of (max (a_cut a) (a_baseline a) + 1) (r_seq r)
             in (with_author (r_key r) (r_joined r) (cut_author ending (r_seq r)) n,
                 keep @ (case seqs_of a kept of None \<Rightarrow> [] | Some s \<Rightarrow> [s]),
                 if r_key r = n_me n \<and> Some (r_joined r) = own then kept else kept_own))"

definition move_cuts :: "nat option \<Rightarrow> nat \<Rightarrow> msg_ref list \<Rightarrow> node \<Rightarrow> node \<times> seqs list \<times> ranges" where
  "move_cuts own ending cuts n = foldl (\<lambda>acc r. move_cut own ending r acc) (n, [], []) cuts"

section \<open>Memberships that end\<close>

definition in_state :: "msg_ref list \<Rightarrow> bytes \<Rightarrow> nat \<Rightarrow> bool" where
  "in_state cuts key joined \<longleftrightarrow> list_ex (\<lambda>r. r_key r = key \<and> r_joined r = joined) cuts"

definition ending_author :: "msg_ref list \<Rightarrow> author \<Rightarrow> bool" where
  "ending_author cuts a \<longleftrightarrow> \<not> a_ended a \<and> \<not> in_state cuts (a_key a) (a_joined a)"

definition past_final :: "author \<Rightarrow> ranges" where
  "past_final a = difference (difference (a_held a) (a_delivered a)) (range_of 1 (a_cut a))"

definition end_author :: "author \<Rightarrow> author" where
  "end_author a = a\<lparr> a_ended := True, a_held := difference (a_held a) (past_final a), a_servable := difference (a_servable a) (past_final a), a_sealed := [] \<rparr>"

definition end_authors :: "msg_ref list \<Rightarrow> author list \<Rightarrow> author list" where
  "end_authors cuts as = map (\<lambda>a. if ending_author cuts a then end_author a else a) as"

definition dropped :: "msg_ref list \<Rightarrow> author list \<Rightarrow> (bytes \<times> nat \<times> u64) list" where
  "dropped cuts as = concat (map (\<lambda>a. if ending_author cuts a then map (\<lambda>s. (a_key a, a_joined a, s)) (iter (past_final a)) else []) as)"

definition unstore_at :: "bytes \<times> nat \<times> u64 \<Rightarrow> node \<Rightarrow> node" where
  "unstore_at k n = (case record_at n (fst k) (fst (snd k)) (snd (snd k)) of None \<Rightarrow> n | Some r \<Rightarrow> unstore_record n r)"

definition forget_plaintext :: "bytes \<Rightarrow> nat \<Rightarrow> u64 \<Rightarrow> node \<Rightarrow> node" where
  "forget_plaintext key joined seq n = (case record_at n key joined seq of None \<Rightarrow> n | Some r \<Rightarrow> store_record n (r\<lparr> hr_plaintext := None \<rparr>))"

text \<open>\<open>cuts\<close>: the group \<open>g\<close> is as the commit left it, and \<open>n\<close> as it was.\<close>

definition cuts :: "core_group \<Rightarrow> applied \<Rightarrow> nat \<Rightarrow> node \<Rightarrow> node" where
  "cuts g ap ending n =
     (let me = n_me n;
          own = own_joined g ap me;
          (n, keep, kept_own) = move_cuts own ending (ap_cut ap) n;
          n = n\<lparr> n_keep := keep \<rparr>;
          state = gs_cut (gr_state g);
          n = foldl (\<lambda>n r. with_new_author (r_key r) (r_joined r) n) n state;
          gone = dropped state (n_authors n);
          n = n\<lparr> n_authors := end_authors state (n_authors n), n_leaves := filter (\<lambda>l. in_state state (fst l) (fst (snd l))) (n_leaves n) \<rparr>;
          n = foldl (\<lambda>n k. unstore_at k n) n gone
      in case own of None \<Rightarrow> n | Some joined \<Rightarrow> foldl (\<lambda>n s. forget_plaintext me joined s n) n (iter kept_own))"

section \<open>The members' epochs\<close>

definition at_epoch :: "nat \<Rightarrow> node \<Rightarrow> bytes \<Rightarrow> nat" where
  "at_epoch since n key = (case List.find (\<lambda>m. fst m = key) (n_members n) of None \<Rightarrow> since | Some m \<Rightarrow> snd m)"

definition left_behind :: "nat \<Rightarrow> epoch list \<Rightarrow> node \<Rightarrow> bytes \<Rightarrow> bool" where
  "left_behind since epochs n key \<longleftrightarrow> list_ex (\<lambda>e. ep_epoch e = at_epoch since n key \<and> ep_expired e \<noteq> None) epochs"

definition leave_of :: "node \<Rightarrow> bytes \<Rightarrow> (u64 \<times> bytes) option" where
  "leave_of n key = (case joined_at n key of
     None \<Rightarrow> None
   | Some joined \<Rightarrow> map_option (\<lambda>l. (fst (snd (snd l)), snd (snd (snd l)))) (List.find (\<lambda>l. fst l = key \<and> fst (snd l) = joined) (n_leaves n)))"

definition members_moved :: "codec \<Rightarrow> core_group \<Rightarrow> applied \<Rightarrow> epoch \<Rightarrow> nat \<Rightarrow> epoch list \<Rightarrow> node \<Rightarrow> epoch list \<times> node" where
  "members_moved S g ap ended since epochs n =
     (let current = ml_epoch (gr_mls g);
          members = members_of S (gr_mls g);
          committer = (case List.find (\<lambda>m. cm_index m = ap_by ap) members of None \<Rightarrow> [] | Some m \<Rightarrow> [cm_key m]);
          shown = filter (\<lambda>key. key \<noteq> n_me n) (committer @ map cm_key (ap_added ap));
          n = foldl (\<lambda>n key. member_at_epoch n key current) n shown;
          n = n\<lparr> n_members := filter (\<lambda>m. list_ex (\<lambda>c. cm_key c = fst m) members) (n_members n) \<rparr>;
          epochs_at = map (\<lambda>c. at_epoch since n (cm_key c)) (filter (\<lambda>c. cm_key c \<noteq> n_me n) members)
      in (filter (\<lambda>e. ep_epoch e \<in> set epochs_at) (epochs @ [ended]), n))"

section \<open>What a session shows of its group\<close>

definition shown_member :: "crypto \<Rightarrow> core_member \<Rightarrow> member" where
  "shown_member C m = \<lparr> m_key = cm_key m, m_iroh = (case cm_leaf m of None \<Rightarrow> [] | Some l \<Rightarrow> lf_key l), m_home = (case cm_leaf m of None \<Rightarrow> [] | Some l \<Rightarrow> lf_home l),
     m_device = leaf_device C (cm_key m) (cm_leaf m) \<rparr>"

text \<open>The fields of \<open>node\<close> that the code reads from the MLS group are the group's.\<close>

definition show_group :: "crypto \<Rightarrow> codec \<Rightarrow> core_group \<Rightarrow> node \<Rightarrow> node" where
  "show_group C S g n = n\<lparr> n_gid := ml_group_id (gr_mls g), n_roster := map (shown_member C) (members_of S (gr_mls g)),
     n_joined := map (\<lambda>r. (r_key r, r_joined r)) (gs_cut (gr_state g)), n_epoch := ml_epoch (gr_mls g) \<rparr>"

end
