(* ===== verification/Reading.thy ===== *)
theory Reading
  imports Cuts
begin

text \<open>
  Reading a group's logs strictly in order (\<open>advance\<close>, \<open>judge\<close>, \<open>cleared\<close> and \<open>apply\<close> in
  \<open>crates/node/src/reading.rs\<close>, with what they use of \<open>peering.rs\<close>): each entry is judged at its position; a commit that
  deletes the keys of kept messages still lacking waits as the peers decide; one that applies loses what is lacking,
  moves the cuts and the epochs, tells those it removes, and begins the log of the next epoch. One reading of the clock
  (\<open>now\<close>, and \<open>true_now\<close> corrected) stands for those of a step.
\<close>

section \<open>State\<close>

record intro =
  it_group :: bytes
  it_member :: bytes
  it_joined :: nat
  it_version :: nat
  it_epoch :: nat
  it_capability :: bytes
  it_text :: "bytes option"

record admitted =
  am_commit :: bytes
  am_welcome :: bytes
  am_cut :: "msg_ref list"
  am_sig :: bytes

datatype reading_work = AppliedWork "core_member option" "core_member list" "core_member list" bool | CopiedWork

text \<open>A group of the node, with the logs and peers of its state that reading changes.\<close>

record reader =
  rd_inbox :: inbox
  rd_logs :: logs
  rd_follow :: follower
  rd_reading :: "nat option"
  rd_fetch :: "(seqs list \<times> nat) option"
  rd_since :: nat
  rd_epochs :: "epoch list"
  rd_committed :: nat
  rd_updated :: nat
  rd_present :: nat
  rd_passed :: nat
  rd_commits :: "(nat \<times> nat) list"
  rd_admitted :: "nat \<Rightarrow> admitted option"
  rd_intros :: "signed_statement list"
  rd_heard :: "membership list"
  rd_saved :: "membership \<Rightarrow> (signed_statement \<times> nat) option"
  rd_out :: "(peer_key \<times> frame) list"
  rd_work :: "reading_work list"
  rd_gate :: bool
  rd_scrub :: bool

text \<open>What a session's code is run with: the parameters of the model, its secret key, and the JSON of intros.\<close>

record session_env =
  en_crypto :: crypto
  en_codec :: codec
  en_api :: mls_api
  en_control :: "json \<Rightarrow> control option"
  en_secret :: bytes
  en_intro_to :: "intro \<Rightarrow> bytes"
  en_intro_from :: "bytes \<Rightarrow> intro option"

datatype read_error = OfNode node_error | OfGroup group_error | OfLog log_error | EntryMissing | IntroPanic | NotMeshed

abbreviation rd_node :: "reader \<Rightarrow> node" where
  "rd_node rd \<equiv> ib_node (rd_inbox rd)"

abbreviation rd_core :: "reader \<Rightarrow> core_group" where
  "rd_core rd \<equiv> ib_core (rd_inbox rd)"

definition on_node :: "(node \<Rightarrow> node) \<Rightarrow> reader \<Rightarrow> reader" where
  "on_node f rd = rd\<lparr> rd_inbox := (rd_inbox rd)\<lparr> ib_node := f (rd_node rd) \<rparr> \<rparr>"

section \<open>Intros and summaries\<close>

text \<open>A kept intro that does not parse panics.\<close>

fun intros_of :: "session_env \<Rightarrow> signed_statement list \<Rightarrow> read_error + (intro \<times> signed_statement) list" where
  "intros_of E [] = Inr []"
| "intros_of E (s # ss) = rbind (context_of (en_intro_from E (sg_body s)) IntroPanic) (\<lambda>i. rbind (intros_of E ss) (\<lambda>rest. Inr ((i, s) # rest)))"

definition keep_intro :: "session_env \<Rightarrow> intro \<Rightarrow> signed_statement \<Rightarrow> reader \<Rightarrow> read_error + reader" where
  "keep_intro E i s rd = rbind (intros_of E (rd_intros rd)) (\<lambda>is.
     Inr (rd\<lparr> rd_intros := map snd (filter (\<lambda>x. it_member (fst x) \<noteq> it_member i) is) @ [s] \<rparr>))"

definition INTRO :: bytes where "INTRO = lit ''letmeknow intro v1'' @ [0]"

definition introduce :: "session_env \<Rightarrow> nat \<Rightarrow> bytes option \<Rightarrow> reader \<Rightarrow> read_error + reader" where
  "introduce E now says rd =
     (let me = n_me (rd_node rd); g = rd_core rd
      in rbind (intros_of E (rd_intros rd)) (\<lambda>is.
         rbind (context_of (group_joined g me) (OfNode node_error.NotAMember)) (\<lambda>joined.
         rbind (map_error OfGroup (capability_of (en_crypto E) (en_codec E) (gr_mls g))) (\<lambda>capability.
           (let latest = (case List.find (\<lambda>x. it_member (fst x) = me) is of None \<Rightarrow> 0 | Some x \<Rightarrow> it_version (fst x));
                i = \<lparr> it_group = n_gid (rd_node rd), it_member = me, it_joined = joined, it_version = max (latest + 1) now,
                      it_epoch = ml_epoch (gr_mls g), it_capability = capability, it_text = says \<rparr>;
                body = en_intro_to E i
            in keep_intro E i \<lparr> sg_body = body, sg_sig = ed_sign (en_crypto E) (en_secret E) (INTRO @ body) \<rparr> rd)))))"

definition present :: "session_env \<Rightarrow> nat \<Rightarrow> reader \<Rightarrow> read_error + reader" where
  "present E now rd =
     (let me = n_me (rd_node rd); epoch = ml_epoch (gr_mls (rd_core rd)); rd = rd\<lparr> rd_present := epoch \<rparr>
      in rbind (intros_of E (rd_intros rd)) (\<lambda>is.
           (case map_option fst (List.find (\<lambda>x. it_member (fst x) = me) is) of
              None \<Rightarrow> introduce E now None rd
            | Some i \<Rightarrow> if it_epoch i = epoch then Inr rd else introduce E now (it_text i) rd)))"

text \<open>Deletes a removed member's intro and saved summaries.\<close>

definition unhear :: "session_env \<Rightarrow> bytes \<Rightarrow> reader \<Rightarrow> read_error + reader" where
  "unhear E key rd = rbind (intros_of E (rd_intros rd)) (\<lambda>is.
     Inr (rd\<lparr> rd_intros := map snd (filter (\<lambda>x. it_member (fst x) \<noteq> key) is), rd_heard := filter (\<lambda>m. fst m \<noteq> key) (rd_heard rd),
       rd_saved := (\<lambda>m. if m \<in> set (rd_heard rd) \<and> fst m = key then None else rd_saved rd m) \<rparr>))"

fun unhear_all :: "session_env \<Rightarrow> bytes list \<Rightarrow> reader \<Rightarrow> read_error + reader" where
  "unhear_all E [] rd = Inr rd"
| "unhear_all E (k # ks) rd = rbind (unhear E k rd) (unhear_all E ks)"

section \<open>What the peers are told\<close>

definition held_heads :: "logs \<Rightarrow> bytes list \<Rightarrow> head list" where
  "held_heads st ids = List.map_filter (\<lambda>i. Option.bind (bt_get (ls_logs st) i) lg_head) ids"

definition member_peer :: "core_group \<Rightarrow> core_member \<Rightarrow> (membership \<times> peer_key) option" where
  "member_peer g m = Option.bind (cm_leaf m) (\<lambda>l. if length (lf_key l) = 32 then
     map_option (\<lambda>joined. ((cm_key m, joined), lf_key l)) (group_joined g (cm_key m)) else None)"

text \<open>\<open>own\<close>: the group's state as \<open>Peers\<close> takes it. The map of the intros is by membership.\<close>

definition own_of :: "session_env \<Rightarrow> nat \<Rightarrow> reader \<Rightarrow> read_error + own \<times> reader" where
  "own_of E now rd =
     (let n = rd_node rd; g = rd_core rd; me = n_me n; logs = group_logs (rd_logs rd) (n_gid n) (Some (fw_log (rd_follow rd)));
          (wants, stale, n) = wanted_now n now
      in rbind (map_error OfLog (get_log (rd_logs rd) (List.last logs))) (\<lambda>current.
         rbind (intros_of E (rd_intros rd)) (\<lambda>is.
           Inr (\<lparr> o_me = (me, case group_joined g me of None \<Rightarrow> 0 | Some j \<Rightarrow> j), o_epoch = ml_epoch (gr_mls g), o_log = List.last logs,
               o_head = lg_head current, o_earlier = held_heads (rd_logs rd) (butlast logs),
               o_members = List.map_filter (member_peer g) (filter (\<lambda>m. cm_key m \<noteq> me) (members_of (en_codec E) (gr_mls g))),
               o_wanted = wants, o_stale = stale,
               o_intros = bt_extend (map (\<lambda>x. ((it_member (fst x), it_joined (fst x)), (it_version (fst x), snd x))) is) [],
               o_expired = List.map_filter ep_expired (rd_epochs rd) \<rparr>, on_node (\<lambda>_. n) rd))))"

definition refresh_peers :: "session_env \<Rightarrow> nat \<Rightarrow> reader \<Rightarrow> read_error + reader" where
  "refresh_peers E now rd = rbind (own_of E now rd) (\<lambda>(own, rd).
     Inr (rd\<lparr> rd_inbox := (rd_inbox rd)\<lparr> ib_peers := set_group (ib_peers (rd_inbox rd)) (n_gid (rd_node rd)) own now \<rparr> \<rparr>))"

definition peer_joined :: "session_env \<Rightarrow> core_group \<Rightarrow> peer_key \<Rightarrow> nat option" where
  "peer_joined E g peer =
     (case List.find (\<lambda>m. case cm_leaf m of None \<Rightarrow> False | Some l \<Rightarrow> lf_key l = peer) (members_of (en_codec E) (gr_mls g)) of
        None \<Rightarrow> None
      | Some m \<Rightarrow> group_joined g (cm_key m))"

section \<open>Waiting before a commit\<close>

definition days_ms :: "nat \<Rightarrow> nat" where
  "days_ms days = days * 24 * 3600 * 1000"

definition opened_all :: "session_env \<Rightarrow> nat \<Rightarrow> nat \<Rightarrow> reader \<Rightarrow> read_error + reader" where
  "opened_all E now epoch rd = rbind (map_error OfNode (open_all (en_crypto E) (en_codec E) (en_api E) (en_control E) now epoch (rd_inbox rd))) (\<lambda>ib.
     Inr (rd\<lparr> rd_inbox := ib \<rparr>))"

text \<open>
  Whether a commit made at \<open>time\<close> may apply now. The first wait of a run of commits made before it is shared by them. A
  commit made longer ago than messages are carried does not wait (the sum is \<open>u64\<close>'s).
\<close>

definition cleared :: "session_env \<Rightarrow> nat \<Rightarrow> nat \<Rightarrow> nat \<Rightarrow> reader \<Rightarrow> read_error + bool \<times> reader" where
  "cleared E now true_now time rd =
     (let read = (case rd_reading rd of Some read \<Rightarrow> if time < read then read else now | None \<Rightarrow> now);
          rd = on_node (\<lambda>n. n\<lparr> n_waiting := True \<rparr>) (rd\<lparr> rd_reading := Some read \<rparr>)
      in rbind (opened_all E now (ml_epoch (gr_mls (rd_core rd)) - 1) rd) (\<lambda>rd.
         rbind (refresh_peers E now rd) (\<lambda>rd.
         rbind (map_error OfGroup (group_settings (en_codec E) (rd_core rd))) (\<lambda>s.
           (let carried = ((time + days_ms (s_carry s)) mod 2 ^ 64 \<ge> true_now);
                lack = (if carried then lacking (rd_node rd) else [])
            in rbind (context_of (wait (ib_peers (rd_inbox rd)) (n_gid (rd_node rd)) lack read now) NotMeshed) (\<lambda>(waiting, peers).
                 Inr (\<not> waiting, on_node (\<lambda>n. n\<lparr> n_waiting := waiting \<rparr>) (rd\<lparr> rd_inbox := (rd_inbox rd)\<lparr> ib_peers := peers \<rparr> \<rparr>))))))))"

section \<open>Applying a commit\<close>

definition TOLD :: nat where "TOLD = 8"

text \<open>The frames of the group's last logs, for the members the commit removed; \<open>None\<close> if a scan of entries never ends.\<close>

fun told_frames :: "logs \<Rightarrow> bytes list \<Rightarrow> frame list option" where
  "told_frames st [] = Some []"
| "told_frames st (i # is) = Option.bind (told_frames st is) (\<lambda>rest.
     case Option.bind (bt_get (ls_logs st) i) lg_head of
       None \<Rightarrow> Some rest
     | Some h \<Rightarrow> Option.bind (entries_after st i 0) (\<lambda>es. Some (Entries i es h # rest)))"

definition told_logs :: "logs \<Rightarrow> bytes list \<Rightarrow> bytes list" where
  "told_logs st ids =
     (let aged = sort (List.map_filter (\<lambda>i. map_option (\<lambda>l. (lg_since l, i)) (bt_get (ls_logs st) i)) ids)
      in map snd (drop (length aged - TOLD) aged))"

definition tell_removed :: "session_env \<Rightarrow> core_member list \<Rightarrow> reader \<Rightarrow> reader option" where
  "tell_removed E removed rd =
     (let st = rd_logs rd; ids = told_logs st (group_logs st (n_gid (rd_node rd)) (Some (fw_log (rd_follow rd))));
          peers = filter (\<lambda>k. length k = 32 \<and> ed_key (en_crypto E) k \<and> is_connected (ib_peers (rd_inbox rd)) k)
            (List.map_filter (\<lambda>m. map_option lf_key (cm_leaf m)) removed)
      in Option.bind (told_frames st ids) (\<lambda>frames.
           Some (rd\<lparr> rd_out := rd_out rd @ concat (map (\<lambda>k. map (\<lambda>f. (k, f)) frames) peers) \<rparr>)))"

text \<open>What the commit says of the group and of this session, once openmls and the core applied it.\<close>

definition note_applied :: "session_env \<Rightarrow> nat \<Rightarrow> nat \<Rightarrow> nat \<Rightarrow> bytes \<Rightarrow> applied \<Rightarrow> core_group \<Rightarrow> reader \<Rightarrow> reader" where
  "note_applied E now ending time inner ap g rd =
     (let current = ml_epoch (gr_mls g);
          n = show_group (en_crypto E) (en_codec E) g ((rd_node rd)\<lparr> n_changed := True \<rparr>);
          n = (if ap_added ap \<noteq> [] \<or> ap_removed ap \<noteq> [] then n\<lparr> n_stirred := True \<rparr> else n);
          n = (if ap_own ap \<and> ap_updated ap then n\<lparr> n_stirred := False \<rparr> else n);
          rd = rd\<lparr> rd_inbox := (rd_inbox rd)\<lparr> ib_core := g, ib_node := n \<rparr>, rd_fetch := None \<rparr>;
          rd = (if ap_own ap then rd\<lparr> rd_committed := current, rd_updated := (if ap_updated ap then now else rd_updated rd) \<rparr>
                else if rd_present rd = ending then rd\<lparr> rd_passed := time \<rparr> else rd)
      in case ap_admission ap of
           None \<Rightarrow> rd
         | Some adm \<Rightarrow> rd\<lparr> rd_admitted := (rd_admitted rd)(ending := Some \<lparr> am_commit = inner, am_welcome = wa_welcome adm, am_cut = wa_cut adm, am_sig = wa_sig adm \<rparr>),
             rd_commits := rd_commits rd @ [(ending, now)] \<rparr>)"

definition move_on :: "session_env \<Rightarrow> applied \<Rightarrow> epoch \<Rightarrow> reader \<Rightarrow> reader" where
  "move_on E ap ended rd =
     (let n = cuts (rd_core rd) ap (ep_epoch ended) (rd_node rd);
          (epochs, n) = members_moved (en_codec E) (rd_core rd) ap ended (rd_since rd) (rd_epochs rd) n
      in on_node (\<lambda>_. n) (rd\<lparr> rd_epochs := epochs \<rparr>))"

text \<open>The ciphertexts of the new epoch that came early are taken, each as it came.\<close>

fun take_early :: "session_env \<Rightarrow> nat \<Rightarrow> (peer_key \<times> bytes) list \<Rightarrow> reader \<Rightarrow> (read_error + reader) option" where
  "take_early E now [] rd = Some (Inr rd)"
| "take_early E now (e # es) rd =
     (case take_held (en_crypto E) (en_codec E) (en_api E) (en_control E) now (peer_joined E (rd_core rd)) (Some (fst e)) [snd e] True (rd_fetch rd \<noteq> None) (rd_inbox rd) of
        None \<Rightarrow> None
      | Some (Inl x) \<Rightarrow> Some (Inl (OfNode x))
      | Some (Inr (frames, ib)) \<Rightarrow> take_early E now es (rd\<lparr> rd_inbox := ib, rd_out := rd_out rd @ frames \<rparr>))"

definition begin_epoch :: "session_env \<Rightarrow> nat \<Rightarrow> nat \<Rightarrow> u64 \<Rightarrow> reader \<Rightarrow> (read_error + reader) option" where
  "begin_epoch E now true_now position rd =
     (case rbind (map_error OfLog (next_log (en_crypto E) (en_codec E) (word_of_nat true_now) (gr_mls (rd_core rd)) position (rd_logs rd) (rd_follow rd))) (\<lambda>(_, st, fw).
         refresh_peers E now (rd\<lparr> rd_logs := st, rd_follow := fw \<rparr>)) of
        Inl e \<Rightarrow> Some (Inl e)
      | Inr rd \<Rightarrow>
          let is_now = (\<lambda>e. case core_claim (en_codec E) (en_api E) (snd e) of Inl _ \<Rightarrow> False | Inr (_, epoch) \<Rightarrow> epoch = ml_epoch (gr_mls (rd_core rd)));
              early = n_early (rd_node rd)
          in take_early E now (filter is_now early) (on_node (\<lambda>n. n\<lparr> n_early := filter (\<lambda>e. \<not> is_now e) early \<rparr>) rd))"

text \<open>\<open>apply\<close> before the membership changes: what is lost, the entry, and openmls' merge.\<close>

definition merge_commit :: "session_env \<Rightarrow> nat \<Rightarrow> bytes \<Rightarrow> bool \<Rightarrow> nat \<Rightarrow> reader \<Rightarrow> read_error + applied \<times> epoch \<times> reader" where
  "merge_commit E now wire removes time rd =
     (let ending = ml_epoch (gr_mls (rd_core rd))
      in rbind (if removes then opened_all E now ending rd else Inr rd) (\<lambda>rd.
         rbind (map_error OfNode (lose (rd_node rd))) (\<lambda>n.
         (let rd = on_node (\<lambda>_. n) rd; g = rd_core rd
          in rbind (map_error OfGroup (open_entry (en_crypto E) (en_codec E) (gr_mls g) wire)) (\<lambda>inner.
             rbind (map_error OfGroup (capability_of (en_crypto E) (en_codec E) (gr_mls g))) (\<lambda>capability.
             rbind (map_error OfGroup (group_settings (en_codec E) g)) (\<lambda>s.
             rbind (map_error OfGroup (fst (apply_entry (en_crypto E) (en_codec E) (en_api E) now wire g))) (\<lambda>ap.
               Inr (ap, \<lparr> ep_epoch = ending, ep_capability = capability, ep_service = s_membership s, ep_expired = None \<rparr>,
                 note_applied E now ending time inner ap (snd (apply_entry (en_crypto E) (en_codec E) (en_api E) now wire g)) rd)))))))))"

definition apply_at :: "session_env \<Rightarrow> nat \<Rightarrow> nat \<Rightarrow> u64 \<Rightarrow> bytes \<Rightarrow> bool \<Rightarrow> nat \<Rightarrow> reader \<Rightarrow> (read_error + bool \<times> reader) option" where
  "apply_at E now true_now position wire removes time rd =
     (case cleared E now true_now time rd of
        Inl e \<Rightarrow> Some (Inl e)
      | Inr (False, rd) \<Rightarrow> Some (Inr (False, rd))
      | Inr (True, rd) \<Rightarrow>
          (case rbind (merge_commit E now wire removes time rd) (\<lambda>(ap, ended, rd).
              (let rd = move_on E ap ended rd
               in rbind (if ap_own ap then present E now rd else Inr rd) (\<lambda>rd.
                  rbind (unhear_all E (map cm_key (ap_removed ap)) (rd\<lparr> rd_scrub := True, rd_gate := True \<rparr>)) (\<lambda>rd. Inr (ap, rd))))) of
             Inl e \<Rightarrow> Some (Inl e)
           | Inr (ap, rd) \<Rightarrow>
               Option.bind (tell_removed E (ap_removed ap) rd) (\<lambda>rd.
                 (let by_member = List.find (\<lambda>m. cm_index m = ap_by ap) (members_of (en_codec E) (gr_mls (rd_core rd)));
                      rd = rd\<lparr> rd_work := rd_work rd @ [AppliedWork by_member (ap_added ap) (ap_removed ap) (ap_gone ap)],
                        rd_follow := (rd_follow rd)\<lparr> fw_position := position \<rparr> \<rparr>
                  in if ap_gone ap then Some (Inr (False, rd))
                     else (case begin_epoch E now true_now position rd of
                             None \<Rightarrow> None | Some (Inl e) \<Rightarrow> Some (Inl e) | Some (Inr rd) \<Rightarrow> Some (Inr (True, rd)))))))"

section \<open>Judging in order\<close>

definition judge_at :: "session_env \<Rightarrow> nat \<Rightarrow> nat \<Rightarrow> u64 \<Rightarrow> bytes \<Rightarrow> reader \<Rightarrow> (read_error + bool \<times> reader) option" where
  "judge_at E now true_now position wire rd =
     (let (v, g) = judge (en_crypto E) (en_codec E) (en_api E) wire (rd_core rd); rd = rd\<lparr> rd_inbox := (rd_inbox rd)\<lparr> ib_core := g \<rparr> \<rparr>
      in case v of
           Inl e \<Rightarrow> Some (Inl (OfGroup e))
         | Inr (SkippedVerdict _) \<Rightarrow> Some (Inr (True, rd\<lparr> rd_follow := (rd_follow rd)\<lparr> fw_position := position \<rparr> \<rparr>))
         | Inr CopiedVerdict \<Rightarrow> Some (Inr (False, rd\<lparr> rd_work := rd_work rd @ [CopiedWork] \<rparr>))
         | Inr (CommitVerdict removes time) \<Rightarrow> apply_at E now true_now position wire removes time rd)"

text \<open>Each turn judges one stored entry; the turns are bounded by the entries held past the position read to.\<close>

fun advance_loop :: "nat \<Rightarrow> session_env \<Rightarrow> nat \<Rightarrow> nat \<Rightarrow> reader \<Rightarrow> (read_error + reader) option" where
  "advance_loop 0 E now true_now rd = None"
| "advance_loop (Suc fuel) E now true_now rd =
     (if \<not> ml_active (gr_mls (rd_core rd)) then Some (Inr rd)
      else case held_to (rd_logs rd) (rd_follow rd) of
        Inl e \<Rightarrow> Some (Inl (OfLog e))
      | Inr held \<Rightarrow>
          if \<not> fw_position (rd_follow rd) < held then Some (Inr rd)
          else
            let position = fw_position (rd_follow rd) + 1
            in case group_entry (rd_logs rd) (rd_follow rd) position of
                 None \<Rightarrow> Some (Inl EntryMissing)
               | Some wire \<Rightarrow>
                   (case judge_at E now true_now position wire rd of
                      None \<Rightarrow> None
                    | Some (Inl e) \<Rightarrow> Some (Inl e)
                    | Some (Inr (False, rd)) \<Rightarrow> Some (Inr rd)
                    | Some (Inr (True, rd)) \<Rightarrow> advance_loop fuel E now true_now rd))"

definition entries_ahead :: "reader \<Rightarrow> nat" where
  "entries_ahead rd = (case held_to (rd_logs rd) (rd_follow rd) of Inl _ \<Rightarrow> 0 | Inr held \<Rightarrow> unat (held - fw_position (rd_follow rd)))"

definition advance :: "session_env \<Rightarrow> nat \<Rightarrow> nat \<Rightarrow> reader \<Rightarrow> (read_error + reader) option" where
  "advance E now true_now rd =
     (case advance_loop (Suc (entries_ahead rd)) E now true_now rd of
        None \<Rightarrow> None
      | Some (Inl e) \<Rightarrow> Some (Inl e)
      | Some (Inr rd) \<Rightarrow> Some (Inr (if at_head (rd_logs rd) (rd_follow rd) then on_node (\<lambda>n. n\<lparr> n_duties := n_duties n + 1 \<rparr>) rd else rd)))"

text \<open>A frame of entries of the group's current log, with the advance it brings.\<close>

definition entries_then_advance :: "session_env \<Rightarrow> nat \<Rightarrow> nat \<Rightarrow> bytes \<Rightarrow> bytes list \<Rightarrow> head \<Rightarrow> reader \<Rightarrow> (read_error + reader) option" where
  "entries_then_advance E now true_now ident entries h rd =
     (case take_entries_frame (en_crypto E) ident entries h (rd_logs rd) of
        Inl e \<Rightarrow> Some (Inl (OfLog e))
      | Inr (t, st) \<Rightarrow>
          (let rd = rd\<lparr> rd_logs := st \<rparr>
           in if t = Held True \<and> fw_log (rd_follow rd) = ident then advance E now true_now rd else Some (Inr rd)))"

end
