(* ===== verification/Cuts_Spec.thy ===== *)
theory Cuts_Spec
  imports Cuts Taking_Spec
begin

text \<open>
  What moving the cuts keeps (\<open>cuts\<close> in \<open>crates/node/src/reading.rs\<close>): the storage and the causal order of delivery
  (\<open>node_ok\<close>), every message delivered, and every one not past the final cut of a membership that ended.
\<close>

section \<open>Memberships as their cuts move\<close>

definition recut :: "author \<Rightarrow> author \<Rightarrow> bool" where
  "recut a a' \<longleftrightarrow> keyof a' = keyof a \<and> a_held a' = a_held a \<and> a_delivered a' = a_delivered a \<and> a_ended a' = a_ended a \<and>
     resolves_more a a' \<and> (wf_author a \<longrightarrow> wf_author a') \<and> (\<forall>s. bt_get (a_sealed a') s \<noteq> None \<longrightarrow> bt_get (a_sealed a) s \<noteq> None)"

definition bare :: "author \<Rightarrow> bool" where
  "bare a \<longleftrightarrow> a_held a = [] \<and> a_delivered a = [] \<and> (\<forall>s. bt_get (a_sealed a) s = None) \<and> \<not> a_ended a \<and> wf_author a"

lemma recut_refl [simp]: "recut a a"
  by (simp add: recut_def)

lemma recut_trans: "recut a b \<Longrightarrow> recut b c \<Longrightarrow> recut a c"
  using resolves_more_trans unfolding recut_def by metis

lemma recut_bare: "bare a \<Longrightarrow> recut a a' \<Longrightarrow> bare a'"
  unfolding bare_def recut_def by auto

lemma bt_get_retain: "bt_wf m \<Longrightarrow> bt_get (bt_retain P m) k \<noteq> None \<Longrightarrow> bt_get m k \<noteq> None"
  unfolding bt_get_None_iff by (auto simp: bt_retain_def)

lemma recut_cut:
  assumes "\<not> a_ended a"
  shows "recut a (cut_author ending seq a)"
proof -
  have "bt_get (bt_retain P m) k \<noteq> None \<Longrightarrow> bt_get m k \<noteq> None" for P and m :: "(u64, nat) btree" and k
    unfolding bt_get_None_iff by (auto simp: bt_retain_def)
  then show ?thesis using assms
    by (auto simp: recut_def cut_author_def keyof_def resolves_more_def resolved_set_def wf_author_def)
qed

lemma recut_raise: "recut a (raise_baseline seq a)"
  by (auto simp: recut_def raise_baseline_def keyof_def resolves_more_def resolved_set_def wf_author_def le_max_iff_disj)

lemma bare_new [simp]: "bare (author_new key joined baseline)"
  by (simp add: bare_def wf_author_new) (simp add: author_new_def)

text \<open>Storage as it was; the memberships recut, and some new.\<close>

definition recuts :: "node \<Rightarrow> node \<Rightarrow> bool" where
  "recuts n n' \<longleftrightarrow> n_ids n' = n_ids n \<and> n_records n' = n_records n \<and> n_delivered n' = n_delivered n \<and>
     (distinct (map keyof (n_authors n)) \<longrightarrow> distinct (map keyof (n_authors n'))) \<and>
     (\<exists>as news. n_authors n' = as @ news \<and> list_all2 recut (n_authors n) as \<and> (\<forall>b\<in>set news. bare b))"

lemma recuts_refl [simp]: "recuts n n"
  unfolding recuts_def by (simp add: list_all2_refl exI [of _ "n_authors n"] exI [of _ "[]"])

lemma recuts_trans:
  assumes "recuts n n1" "recuts n1 n2"
  shows "recuts n n2"
proof -
  obtain as news where 1: "n_authors n1 = as @ news" "list_all2 recut (n_authors n) as" "\<forall>b\<in>set news. bare b" using assms(1) by (auto simp: recuts_def)
  obtain bs more_new where 2: "n_authors n2 = bs @ more_new" "list_all2 recut (n_authors n1) bs" "\<forall>b\<in>set more_new. bare b" using assms(2) by (auto simp: recuts_def)
  obtain cs ds where 3: "bs = cs @ ds" "list_all2 recut as cs" "list_all2 recut news ds" using 1(1) 2(2) by (auto simp: list_all2_append1)
  have "list_all2 recut (n_authors n) cs" by (rule list_all2_trans [OF _ 1(2) 3(2)]) (rule recut_trans)
  moreover have "\<forall>b\<in>set (ds @ more_new). bare b"
    using 2(3) all2_in [OF 3(3)] 1(3) recut_bare by (metis Un_iff set_append)
  moreover have "n_authors n2 = cs @ (ds @ more_new)" using 2(1) 3(1) by simp
  ultimately show ?thesis using assms unfolding recuts_def by (metis (no_types, lifting))
qed

lemma recuts_foldl: "(\<And>n x. x \<in> set xs \<Longrightarrow> Q n \<Longrightarrow> recuts n (f n x) \<and> Q (f n x)) \<Longrightarrow> Q n \<Longrightarrow> recuts n (foldl f n xs) \<and> Q (foldl f n xs)"
proof (induction xs arbitrary: n)
  case (Cons x xs)
  have x: "recuts n (f n x)" "Q (f n x)" using Cons.prems by simp_all
  have "recuts (f n x) (foldl f (f n x) xs) \<and> Q (foldl f (f n x) xs)" using Cons.IH [OF _ x(2)] Cons.prems(1) by simp
  then show ?case using recuts_trans [OF x(1)] by simp
qed simp

lemma recuts_fields:
  "n_authors n' = n_authors n \<Longrightarrow> n_ids n' = n_ids n \<Longrightarrow> n_records n' = n_records n \<Longrightarrow> n_delivered n' = n_delivered n \<Longrightarrow> recuts n n'"
  unfolding recuts_def by (intro conjI exI [of _ "n_authors n"] exI [of _ "[]"]) (simp_all add: list_all2_refl)

lemma recuts_new: "recuts n (with_new_author k j n)"
proof (cases "author_at (n_authors n) k j")
  case None
  then have "keyof (author_new k j 0) \<notin> keyof ` set (n_authors n)"
    by (auto simp: author_at_def find_None_iff keyof_def author_new_def)
  then show ?thesis using None
    unfolding recuts_def
    by (intro conjI exI [of _ "n_authors n"] exI [of _ "[author_new k j 0]"]) (simp_all add: with_new_author_def list_all2_refl image_iff)
qed (simp add: with_new_author_def)

lemma mut_recut: "(\<And>a. a \<in> set as \<Longrightarrow> keyof a = (k, j) \<Longrightarrow> recut a (f a)) \<Longrightarrow> list_all2 recut as (author_mut k j f as)"
  by (induction as) (auto simp: keyof_def list_all2_refl)

lemma recuts_mut:
  assumes "\<And>a. a \<in> set (n_authors n) \<Longrightarrow> keyof a = (k, j) \<Longrightarrow> recut a (f a)"
  shows "recuts n (with_author k j f n)"
proof -
  have all: "list_all2 recut (n_authors n) (author_mut k j f (n_authors n))" using assms mut_recut by blast
  then have "map keyof (author_mut k j f (n_authors n)) = map keyof (n_authors n)" by (intro all2_keys) (auto simp: recut_def)
  then show ?thesis using all unfolding recuts_def
    by (intro conjI exI [of _ "author_mut k j f (n_authors n)"] exI [of _ "[]"]) (simp_all add: with_author_def)
qed

definition none_ended :: "msg_ref list \<Rightarrow> node \<Rightarrow> bool" where
  "none_ended rs n \<longleftrightarrow> (\<forall>r\<in>set rs. \<forall>a\<in>set (n_authors n). keyof a = (r_key r, r_joined r) \<longrightarrow> \<not> a_ended a)"

lemma recuts_none_ended:
  assumes "recuts n n'" "none_ended rs n"
  shows "none_ended rs n'"
  unfolding none_ended_def
proof (intro ballI impI)
  fix r a'
  assume r: "r \<in> set rs" and a': "a' \<in> set (n_authors n')" "keyof a' = (r_key r, r_joined r)"
  obtain as news where 1: "n_authors n' = as @ news" "list_all2 recut (n_authors n) as" "\<forall>b\<in>set news. bare b" using assms(1) by (auto simp: recuts_def)
  show "\<not> a_ended a'"
  proof (cases "a' \<in> set news")
    case False
    then have "a' \<in> set as" using a'(1) 1(1) by simp
    then obtain a where "a \<in> set (n_authors n)" "recut a a'" using all2_in [OF 1(2)] by blast
    then show ?thesis using assms(2) r a'(2) by (auto simp: none_ended_def recut_def)
  qed (use 1(3) in \<open>auto simp: bare_def\<close>)
qed

lemma recuts_before: "recuts n (before_joining n k j seq)"
  using recuts_mut [of n k j "raise_baseline seq"] recut_raise by (simp add: before_joining_def with_author_def)

lemma move_cut_recuts:
  assumes "r \<in> set rs" "none_ended rs (fst acc)"
  shows "recuts (fst acc) (fst (move_cut own ending r acc)) \<and> none_ended rs (fst (move_cut own ending r acc))"
proof -
  obtain n keep kept where acc: "acc = (n, keep, kept)" using prod_cases3 by blast
  define n1 where "n1 = with_new_author (r_key r) (r_joined r) n"
  define n2 where "n2 = (case own of Some joined \<Rightarrow> if r_epoch r < joined then before_joining n1 (r_key r) (r_joined r) (r_seq r) else n1 | None \<Rightarrow> n1)"
  have 1: "recuts n n1" by (simp add: n1_def recuts_new)
  have "recuts n1 n2" by (simp add: n2_def recuts_before split: option.split)
  then have 2: "recuts n n2" using recuts_trans 1 by blast
  have ne: "none_ended rs n2" using recuts_none_ended [OF 2] assms(2) acc by simp
  have "recuts n2 (with_author (r_key r) (r_joined r) (cut_author ending (r_seq r)) n2)"
    by (rule recuts_mut) (use ne assms(1) in \<open>auto simp: none_ended_def intro: recut_cut\<close>)
  then have 3: "recuts n (with_author (r_key r) (r_joined r) (cut_author ending (r_seq r)) n2)" using recuts_trans 2 by blast
  have "fst (move_cut own ending r acc) = n2 \<or> fst (move_cut own ending r acc) = with_author (r_key r) (r_joined r) (cut_author ending (r_seq r)) n2"
    unfolding move_cut_def acc n2_def n1_def Let_def by (simp split: option.split)
  then have "recuts n (fst (move_cut own ending r acc))" using 2 3 by auto
  then show ?thesis using recuts_none_ended assms(2) acc by auto
qed

lemma move_cuts_recuts:
  assumes "none_ended rs n"
  shows "recuts n (fst (move_cuts own ending rs n))"
proof -
  have "recuts (fst acc) (fst (foldl (\<lambda>acc r. move_cut own ending r acc) acc qs))" if "set qs \<subseteq> set rs" "none_ended rs (fst acc)" for qs acc
    using that
  proof (induction qs arbitrary: acc)
    case (Cons q qs)
    have "recuts (fst acc) (fst (move_cut own ending q acc)) \<and> none_ended rs (fst (move_cut own ending q acc))"
      by (rule move_cut_recuts) (use Cons.prems in simp_all)
    then show ?case using Cons.IH [of "move_cut own ending q acc"] Cons.prems(1) recuts_trans by auto
  qed simp
  from this [of rs "(n, [], [])"] show ?thesis using assms by (simp add: move_cuts_def)
qed

lemma begin_recuts: "recuts n (foldl (\<lambda>n r. with_new_author (r_key r) (r_joined r) n) n rs)"
  using recuts_foldl [where Q = "\<lambda>_. True" and f = "\<lambda>n r. with_new_author (r_key r) (r_joined r) n"] recuts_new by simp

text \<open>No message names a membership that only begins with this commit.\<close>

definition no_dep_ahead :: "node \<Rightarrow> node \<Rightarrow> bool" where
  "no_dep_ahead n n' \<longleftrightarrow> (\<forall>ident r. n_records n ident = Some r \<longrightarrow> (\<forall>dep\<in>set (hd_deps (hr_header r)).
     author_at (n_authors n) (r_key dep) (r_joined dep) = None \<longrightarrow> author_at (n_authors n') (r_key dep) (r_joined dep) = None))"

lemma recuts_author:
  assumes "recuts n n'" "a' \<in> set (n_authors n')"
  shows "(\<exists>a\<in>set (n_authors n). recut a a') \<or> bare a'"
proof -
  obtain as news where 1: "n_authors n' = as @ news" "list_all2 recut (n_authors n) as" "\<forall>b\<in>set news. bare b" using assms(1) by (auto simp: recuts_def)
  show ?thesis
  proof (cases "a' \<in> set news")
    case False
    then have "a' \<in> set as" using assms(2) 1(1) by simp
    then show ?thesis using all2_in [OF 1(2)] by metis
  qed (use 1(3) in simp)
qed

lemma all2_of:
  assumes "list_all2 R as bs" "a \<in> set as"
  obtains b where "b \<in> set bs" "R a b"
  using assms by (metis in_set_conv_nth list_all2_conv_all_nth)

lemma recuts_keeps:
  assumes "recuts n n'" "node_ok C S P n" "no_dep_ahead n n'"
  shows "node_ok C S P n'"
proof -
  have same: "n_ids n' = n_ids n" "n_records n' = n_records n" using assms(1) by (simp_all add: recuts_def)
  have wf: "wf_node n" "causal n" "stored_ok C S P n" "sealed_stored n" using assms(2) by (simp_all add: node_ok_def)
  have rec: "has_record n' a' s = has_record n a s" if "keyof a' = keyof a" for a a' s using that same by (simp add: has_record_def keyof_def)
  have "wf_author a' \<and> (\<forall>s\<in>pending a'. has_record n' a' s)" if a': "a' \<in> set (n_authors n')" for a'
    using recuts_author [OF assms(1) a'] wf(1) rec by (fastforce simp: wf_node_def recut_def bare_def pending_def)
  moreover have dist: "distinct (map keyof (n_authors n'))" using assms(1) wf(1) by (simp add: recuts_def wf_node_def)
  ultimately have "wf_node n'" by (simp add: wf_node_def)
  moreover have "causal n'"
    unfolding causal_def
  proof (intro ballI allI impI)
    fix a' s r
    assume a': "a' \<in> set (n_authors n')" "s \<in> range_set (a_delivered a')" "record_at n' (a_key a') (a_joined a') s = Some r"
    then obtain a where a: "a \<in> set (n_authors n)" "recut a a'" using recuts_author [OF assms(1)] by (fastforce simp: bare_def)
    have r: "record_at n (a_key a) (a_joined a) s = Some r" "s \<in> range_set (a_delivered a)"
      using a' a(2) same by (auto simp: record_at_def id_at_def recut_def keyof_def split: option.splits)
    have req: "requires_resolved (n_authors n) a r s" using wf(2) a(1) r by (auto simp: causal_def)
    obtain ident where ident: "n_records n ident = Some r" using r(1) by (auto simp: record_at_def split: option.splits)
    have "resolved_through b' (r_seq dep)" if d: "dep \<in> set (hd_deps (hr_header r))" "\<not> hr_released r"
      and b': "author_at (n_authors n') (r_key dep) (r_joined dep) = Some b'" for dep b'
    proof -
      have b'k: "b' \<in> set (n_authors n')" "keyof b' = (r_key dep, r_joined dep)" using author_at_Some [OF b'] by simp_all
      obtain c where c: "author_at (n_authors n) (r_key dep) (r_joined dep) = Some c" using assms(3) ident d(1) b' by (fastforce simp: no_dep_ahead_def)
      obtain as news where 1: "n_authors n' = as @ news" "list_all2 recut (n_authors n) as" "\<forall>b\<in>set news. bare b" using assms(1) by (auto simp: recuts_def)
      have ck: "c \<in> set (n_authors n)" "keyof c = (r_key dep, r_joined dep)" using author_at_Some [OF c] by simp_all
      obtain b where b: "b \<in> set as" "recut c b" using all2_of [OF 1(2) ck(1)] .
      have "keyof b = keyof b'" using b(2) ck(2) b'k(2) by (simp add: recut_def)
      moreover have "inj_on keyof (set (n_authors n'))" "b \<in> set (n_authors n')" using dist b(1) 1(1) unfolding distinct_map by simp_all
      ultimately have "b = b'" using b'k(1) by (metis inj_onD)
      moreover have "resolved_through c (r_seq dep)" using req d c by (auto simp: requires_resolved_def)
      ultimately show ?thesis using resolves_more_through b(2) by (auto simp: recut_def)
    qed
    moreover have "resolved_through a' (s - 1)" using req a(2) resolves_more_through by (auto simp: requires_resolved_def recut_def)
    ultimately show "requires_resolved (n_authors n') a' r s" by (auto simp: requires_resolved_def)
  qed
  moreover have "stored_ok C S P n'" using wf(3) same by (simp add: stored_ok_def)
  moreover have "sealed_stored n'"
    unfolding sealed_stored_def
  proof (intro ballI allI impI)
    fix a' s
    assume a': "a' \<in> set (n_authors n')" "bt_get (a_sealed a') s \<noteq> None"
    then obtain a where a: "a \<in> set (n_authors n)" "recut a a'" using recuts_author [OF assms(1)] by (fastforce simp: bare_def)
    then show "seq_at a' s \<in> dom (n_ids n')" using wf(4) a' same seq_at_eq [of a' a s] by (auto simp: sealed_stored_def recut_def)
  qed
  ultimately show ?thesis by (simp add: node_ok_def)
qed

section \<open>Storage that lets records go\<close>

definition same_but_plain :: "held_record \<Rightarrow> held_record \<Rightarrow> bool" where
  "same_but_plain r r' \<longleftrightarrow> r' = r\<lparr> hr_plaintext := hr_plaintext r' \<rparr>"

lemma same_but_plain_fields: "same_but_plain r r' \<Longrightarrow> hr_header r' = hr_header r \<and> hr_id r' = hr_id r \<and> hr_released r' = hr_released r"
  unfolding same_but_plain_def by (metis held_record.select_convs(1,2,6) held_record.surjective held_record.update_convs(3))

text \<open>The seqs in \<open>A\<close> lost their records, the others keep them but for plaintexts.\<close>

definition lets_go :: "(bytes \<times> nat \<times> u64) set \<Rightarrow> node \<Rightarrow> node \<Rightarrow> bool" where
  "lets_go A n n' \<longleftrightarrow> n_authors n' = n_authors n \<and> (\<forall>k. n_ids n' k = (if k \<in> A then None else n_ids n k)) \<and>
     (\<forall>i r. n_records n i = Some r \<longrightarrow> seq_of_header (hr_header r) \<notin> A \<longrightarrow> (\<exists>r'. n_records n' i = Some r' \<and> same_but_plain r r')) \<and>
     (\<forall>i r'. n_records n' i = Some r' \<longrightarrow> (\<exists>r. n_records n i = Some r \<and> same_but_plain r r' \<and> seq_of_header (hr_header r) \<notin> A))"

lemma same_but_plain_refl [simp]: "same_but_plain r r"
  by (simp add: same_but_plain_def)

lemma same_but_plain_trans: "same_but_plain p q \<Longrightarrow> same_but_plain q r \<Longrightarrow> same_but_plain p r"
  unfolding same_but_plain_def by (metis held_record.update_convs(3) held_record.surjective)

lemma lets_go_refl: "lets_go {} n n"
  by (simp add: lets_go_def)

lemma lets_go_ids: "lets_go A n n' \<Longrightarrow> n_ids n' k = (if k \<in> A then None else n_ids n k)"
  unfolding lets_go_def by blast

lemma lets_go_keep: "lets_go A n n' \<Longrightarrow> n_records n i = Some r \<Longrightarrow> seq_of_header (hr_header r) \<notin> A \<Longrightarrow> \<exists>r'. n_records n' i = Some r' \<and> same_but_plain r r'"
  unfolding lets_go_def by blast

lemma lets_go_from:
  "lets_go A n n' \<Longrightarrow> n_records n' i = Some r' \<Longrightarrow> \<exists>r. n_records n i = Some r \<and> same_but_plain r r' \<and> seq_of_header (hr_header r) \<notin> A"
  unfolding lets_go_def by blast

lemma lets_go_trans:
  assumes "lets_go A n n1" "lets_go B n1 n2"
  shows "lets_go (A \<union> B) n n2"
  unfolding lets_go_def
proof (intro conjI allI impI)
  show "n_authors n2 = n_authors n" using assms unfolding lets_go_def by metis
  show "n_ids n2 k = (if k \<in> A \<union> B then None else n_ids n k)" for k using lets_go_ids [OF assms(1), of k] lets_go_ids [OF assms(2), of k] by auto
next
  fix i r
  assume r: "n_records n i = Some r" "seq_of_header (hr_header r) \<notin> A \<union> B"
  obtain r1 where r1: "n_records n1 i = Some r1" "same_but_plain r r1" using lets_go_keep [OF assms(1) r(1)] r(2) by blast
  have "seq_of_header (hr_header r1) \<notin> B" using r(2) same_but_plain_fields [OF r1(2)] by simp
  then show "\<exists>r'. n_records n2 i = Some r' \<and> same_but_plain r r'" using lets_go_keep [OF assms(2) r1(1)] same_but_plain_trans [OF r1(2)] by blast
next
  fix i r'
  assume r': "n_records n2 i = Some r'"
  obtain r1 where r1: "n_records n1 i = Some r1" "same_but_plain r1 r'" "seq_of_header (hr_header r1) \<notin> B" using lets_go_from [OF assms(2) r'] by blast
  obtain r where r: "n_records n i = Some r" "same_but_plain r r1" "seq_of_header (hr_header r) \<notin> A" using lets_go_from [OF assms(1) r1(1)] by blast
  show "\<exists>r. n_records n i = Some r \<and> same_but_plain r r' \<and> seq_of_header (hr_header r) \<notin> A \<union> B"
    using r r1(3) same_but_plain_trans [OF r(2) r1(2)] same_but_plain_fields [OF r(2)] by auto
qed

lemma lets_go_stored:
  assumes "lets_go A n n'" "stored_ok C S P n"
  shows "stored_ok C S P n'"
  unfolding stored_ok_def
proof (intro conjI allI impI)
  fix k ident
  assume "n_ids n' k = Some ident"
  then have k: "k \<notin> A" "n_ids n k = Some ident" using lets_go_ids [OF assms(1), of k] by (simp_all split: if_splits)
  then obtain r where r: "n_records n ident = Some r" "seq_of_header (hr_header r) = k" using record_at_stored [OF assms(2)] by metis
  then obtain r' where "n_records n' ident = Some r'" "same_but_plain r r'" using lets_go_keep [OF assms(1) r(1)] k(1) by blast
  then show "\<exists>r. n_records n' ident = Some r \<and> seq_of_header (hr_header r) = k" using same_but_plain_fields r(2) by metis
next
  fix ident r'
  assume "n_records n' ident = Some r'"
  then obtain r where r: "n_records n ident = Some r" "same_but_plain r r'" "seq_of_header (hr_header r) \<notin> A" using lets_go_from [OF assms(1)] by blast
  note f = same_but_plain_fields [OF r(2)]
  have s: "hr_id r = ident \<and> n_ids n (seq_of_header (hr_header r)) = Some ident \<and> (\<exists>p\<in>P. held_id C p = ident \<and> header_from S p = Some (hr_header r))"
    using assms(2) r(1) unfolding stored_ok_def by blast
  show "hr_id r' = ident" using s f by simp
  show "n_ids n' (seq_of_header (hr_header r')) = Some ident" using s f lets_go_ids [OF assms(1)] r(3) by simp
  show "\<exists>p\<in>P. held_id C p = ident \<and> header_from S p = Some (hr_header r')" using s f by simp
qed

lemma unstore_lets_go:
  assumes "stored_ok C S P n"
  shows "lets_go {k} n (unstore_at k n)"
proof (cases "n_ids n k")
  case None
  then have "unstore_at k n = n" by (simp add: unstore_at_def record_at_def id_at_def)
  moreover have "seq_of_header (hr_header r) \<noteq> k" if "n_records n i = Some r" for i r
    using assms that None unfolding stored_ok_def by (metis option.distinct(1))
  ultimately show ?thesis using None unfolding lets_go_def by (simp del: split_paired_All)
next
  case (Some ident)
  then obtain r where r: "n_records n ident = Some r" "seq_of_header (hr_header r) = k" "hr_id r = ident" using record_at_stored [OF assms] by metis
  then have n': "unstore_at k n = unstore_record n r" using Some by (simp add: unstore_at_def record_at_def id_at_def)
  have other: "seq_of_header (hr_header q) \<noteq> k" if "n_records n i = Some q" "i \<noteq> ident" for i q
    using assms that Some unfolding stored_ok_def by (metis option.inject)
  have "n_ids (unstore_record n r) = (n_ids n)(k := None)" "n_records (unstore_record n r) = (n_records n)(ident := None)"
    "n_authors (unstore_record n r) = n_authors n"
    using r by (simp_all add: unstore_record_def Let_def seq_of_header_def)
  then show ?thesis using other r(1,2) unfolding n' lets_go_def by (simp del: split_paired_All)
qed

lemma forget_lets_go:
  assumes "stored_ok C S P n"
  shows "lets_go {} n (forget_plaintext key joined s n)"
proof (cases "record_at n key joined s")
  case (Some r)
  then obtain ident where ident: "n_ids n (key, joined, s) = Some ident" "n_records n ident = Some r" by (auto simp: record_at_def id_at_def split: option.splits)
  then have "seq_of_header (hr_header r) = (key, joined, s)" "hr_id r = ident" using record_at_stored [OF assms ident(1)] by (metis option.inject)+
  then have "n_ids (forget_plaintext key joined s n) = n_ids n" "n_records (forget_plaintext key joined s n) = (n_records n)(ident := Some (r\<lparr> hr_plaintext := None \<rparr>))"
     "n_authors (forget_plaintext key joined s n) = n_authors n"
    using Some ident(1) by (auto simp: forget_plaintext_def store_record_def Let_def seq_of_header_def fun_eq_iff)
  moreover have "same_but_plain r (r\<lparr> hr_plaintext := None \<rparr>)" by (simp add: same_but_plain_def)
  ultimately show ?thesis using ident(2) unfolding lets_go_def by (simp del: split_paired_All)
qed (simp add: forget_plaintext_def lets_go_refl)

lemma unstore_all_lets_go: "stored_ok C S P n \<Longrightarrow> lets_go (set ks) n (foldl (\<lambda>n k. unstore_at k n) n ks)"
proof (induction ks arbitrary: n)
  case (Cons k ks)
  have k: "lets_go {k} n (unstore_at k n)" by (rule unstore_lets_go [OF Cons.prems])
  show ?case using lets_go_trans [OF k Cons.IH [OF lets_go_stored [OF k Cons.prems]]] by simp
qed (simp add: lets_go_refl)

lemma forget_all_lets_go: "stored_ok C S P n \<Longrightarrow> lets_go {} n (foldl (\<lambda>n s. forget_plaintext key joined s n) n ss)"
proof (induction ss arbitrary: n)
  case (Cons s ss)
  have s: "lets_go {} n (forget_plaintext key joined s n)" by (rule forget_lets_go [OF Cons.prems])
  show ?case using lets_go_trans [OF s Cons.IH [OF lets_go_stored [OF s Cons.prems]]] by simp
qed (simp add: lets_go_refl)

section \<open>Memberships that end\<close>

lemma past_final_set:
  assumes "wf_author a"
  shows "wf_ranges (past_final a)" "range_set (past_final a) = pending a - {1..a_cut a}"
  using assms by (auto simp: past_final_def wf_author_def wf_difference wf_range_of range_set_difference range_set_range_of pending_def)

lemma end_author_fields:
  assumes "wf_author a"
  shows "keyof (end_author a) = keyof a" "a_delivered (end_author a) = a_delivered a" "resolves_more a (end_author a)" "wf_author (end_author a)"
    "pending (end_author a) = pending a \<inter> {1..a_cut a}" "a_cut (end_author a) = a_cut a"
proof -
  note p = past_final_set [OF assms]
  have held: "range_set (a_held (end_author a)) = range_set (a_held a) - range_set (past_final a)" "wf_ranges (a_held (end_author a))"
    using assms p(1) by (simp_all add: end_author_def wf_author_def range_set_difference wf_difference)
  show "keyof (end_author a) = keyof a" "a_delivered (end_author a) = a_delivered a" "a_cut (end_author a) = a_cut a" by (simp_all add: end_author_def keyof_def)
  show "resolves_more a (end_author a)" by (auto simp: resolves_more_def resolved_set_def end_author_def)
  show "pending (end_author a) = pending a \<inter> {1..a_cut a}" using held(1) p(2) by (auto simp: pending_def end_author_def)
  have "range_set (a_delivered a) \<subseteq> range_set (a_held (end_author a))" using held(1) p(2) assms by (auto simp: pending_def wf_author_def)
  then show "wf_author (end_author a)" using assms held(2) by (simp add: wf_author_def) (simp add: end_author_def)
qed

lemma in_dropped:
  assumes "\<forall>a\<in>set as. wf_author a"
  shows "k \<in> set (dropped state as) \<longleftrightarrow> (\<exists>a\<in>set as. ending_author state a \<and> (\<exists>s\<in>pending a - {1..a_cut a}. k = seq_at a s))"
  using assms past_final_set set_iter by (fastforce simp: dropped_def seq_at_def)

definition settled :: "msg_ref list \<Rightarrow> author \<Rightarrow> author" where
  "settled state a = (if ending_author state a then end_author a else a)"

lemma ended_keeps:
  assumes ok: "node_ok C S P n" and authors: "n_authors n1 = end_authors state (n_authors n)" and same: "n_ids n1 = n_ids n" "n_records n1 = n_records n"
    and go: "lets_go (set (dropped state (n_authors n))) n1 n2"
  shows "node_ok C S P n2"
proof -
  let ?f = "settled state" and ?A = "set (dropped state (n_authors n))"
  have wf: "wf_node n" "causal n" "stored_ok C S P n" "sealed_stored n" using ok by (simp_all add: node_ok_def)
  have wfa: "\<forall>a\<in>set (n_authors n). wf_author a" and dist: "distinct (map keyof (n_authors n))" using wf(1) by (simp_all add: wf_node_def)
  have as2: "n_authors n2 = map ?f (n_authors n)" using go authors by (simp add: lets_go_def end_authors_def settled_def)
  have f: "keyof (?f a) = keyof a" "a_delivered (?f a) = a_delivered a" "resolves_more a (?f a)" "wf_author (?f a)" "pending (?f a) \<subseteq> pending a"
    if "a \<in> set (n_authors n)" for a
    using end_author_fields [of a] wfa that by (auto simp: settled_def)
  have sealed: "bt_get (a_sealed (?f a)) s \<noteq> None \<Longrightarrow> bt_get (a_sealed a) s \<noteq> None \<and> \<not> ending_author state a" for a s
    by (simp add: settled_def end_author_def split: if_splits)
  have one: "b = a" if "a \<in> set (n_authors n)" "b \<in> set (n_authors n)" "keyof a = keyof b" for a b
    using dist that unfolding distinct_map by (metis inj_onD)
  have kept: "seq_at a s \<notin> ?A" if "a \<in> set (n_authors n)" "ending_author state a \<longrightarrow> s \<notin> pending a - {1..a_cut a}" for a s
  proof
    assume "seq_at a s \<in> ?A"
    then obtain b t where b: "b \<in> set (n_authors n)" "ending_author state b" "t \<in> pending b - {1..a_cut b}" "seq_at a s = seq_at b t"
      unfolding in_dropped [OF wfa] by blast
    then have "keyof a = keyof b" "s = t" by (simp_all add: seq_at_def keyof_def)
    then show False using one [OF that(1) b(1)] b that(2) by blast
  qed
  have st: "stored_ok C S P n1" using wf(3) same by (simp add: stored_ok_def)
  have st2: "stored_ok C S P n2" by (rule lets_go_stored [OF go st])
  have "has_record n2 (?f a) s" if a: "a \<in> set (n_authors n)" "s \<in> pending (?f a)" for a s
  proof -
    have s: "s \<in> pending a" using f(5) a by blast
    have "ending_author state a \<longrightarrow> s \<notin> pending a - {1..a_cut a}" using a(2) end_author_fields(5) [of a] wfa a(1) by (auto simp: settled_def)
    then have "seq_at a s \<notin> ?A" by (rule kept [OF a(1)])
    have h: "has_record n a s" using wf(1) a(1) s by (simp add: wf_node_def)
    then have "seq_at a s \<in> dom (n_ids n)" "1 \<le> s" by (auto simp: has_record_def seq_at_def)
    then have "seq_at a s \<in> dom (n_ids n2)" using lets_go_ids [OF go, of "seq_at a s"] \<open>seq_at a s \<notin> ?A\<close> same by (simp add: domIff)
    then have "seq_at (?f a) s \<in> dom (n_ids n2)" using seq_at_eq [OF f(1) [OF a(1)]] by simp
    then show ?thesis using stored_has_record [OF st2] \<open>1 \<le> s\<close> by blast
  qed
  moreover have "map keyof (n_authors n2) = map keyof (n_authors n)" using as2 f(1) by simp
  then have "distinct (map keyof (n_authors n2))" using dist by metis
  ultimately have "wf_node n2" using f(4) as2 by (auto simp: wf_node_def)
  moreover have "causal n2"
  proof (rule causal_step [OF wf(2)])
    show "list_all2 grows (n_authors n) (n_authors n2)"
      using f(1,3) by (auto simp: as2 list_all2_conv_all_nth grows_def)
    fix a' s r'
    assume a': "a' \<in> set (n_authors n2)" "s \<in> range_set (a_delivered a')" "record_at n2 (a_key a') (a_joined a') s = Some r'"
    obtain a where a: "a \<in> set (n_authors n)" "a' = ?f a" using a'(1) as2 by auto
    have k: "(a_key a', a_joined a') = (a_key a, a_joined a)" using f(1) [OF a(1)] a(2) by (simp add: keyof_def)
    obtain ident where ident: "n_ids n2 (seq_at a s) = Some ident" "n_records n2 ident = Some r'"
      using a'(3) k by (auto simp: record_at_def id_at_def seq_at_def split: option.splits)
    obtain r where r: "n_records n1 ident = Some r" "same_but_plain r r'" using lets_go_from [OF go ident(2)] by blast
    have "n_ids n (seq_at a s) = Some ident" using lets_go_ids [OF go, of "seq_at a s"] ident(1) same by (simp split: if_splits)
    then have "record_at n (a_key a) (a_joined a) s = Some r" using r(1) same by (simp add: record_at_def id_at_def seq_at_def)
    then show "\<exists>a r. a \<in> set (n_authors n) \<and> grows a a' \<and> hr_header r' = hr_header r \<and> (hr_released r \<longrightarrow> hr_released r') \<and>
        (s \<in> range_set (a_delivered a) \<and> record_at n (a_key a) (a_joined a) s = Some r \<or> requires_resolved (n_authors n) a r s)"
      using a f(1-3) [OF a(1)] a'(2) same_but_plain_fields [OF r(2)] by (auto simp: grows_def)
  qed
  moreover have "sealed_stored n2"
    unfolding sealed_stored_def
  proof (intro ballI allI impI)
    fix a' s
    assume a': "a' \<in> set (n_authors n2)" "bt_get (a_sealed a') s \<noteq> None"
    obtain a where a: "a \<in> set (n_authors n)" "a' = ?f a" using a'(1) as2 by auto
    have s: "bt_get (a_sealed a) s \<noteq> None" "\<not> ending_author state a" using sealed a' a(2) by blast+
    then have "seq_at a s \<in> dom (n_ids n)" "seq_at a s \<notin> ?A" using wf(4) a(1) kept by (auto simp: sealed_stored_def)
    then have "seq_at a s \<in> dom (n_ids n2)" using lets_go_ids [OF go, of "seq_at a s"] same by (simp add: domIff)
    then show "seq_at a' s \<in> dom (n_ids n2)" using seq_at_eq [OF f(1) [OF a(1)]] a(2) by simp
  qed
  ultimately show ?thesis using st2 by (simp add: node_ok_def)
qed

section \<open>The whole of it\<close>

text \<open>The stages of \<open>cuts\<close>: the memberships as the cuts moved and the new ones began, then the storage.\<close>

definition begun :: "core_group \<Rightarrow> applied \<Rightarrow> nat \<Rightarrow> node \<Rightarrow> node" where
  "begun g ap ending n = foldl (\<lambda>n r. with_new_author (r_key r) (r_joined r) n)
     ((fst (move_cuts (own_joined g ap (n_me n)) ending (ap_cut ap) n))\<lparr> n_keep := fst (snd (move_cuts (own_joined g ap (n_me n)) ending (ap_cut ap) n)) \<rparr>)
     (gs_cut (gr_state g))"

lemma begun_recuts:
  assumes "none_ended (ap_cut ap) n"
  shows "recuts n (begun g ap ending n)"
proof -
  let ?m = "move_cuts (own_joined g ap (n_me n)) ending (ap_cut ap) n"
  have "recuts n (fst ?m)" by (rule move_cuts_recuts [OF assms])
  moreover have "recuts (fst ?m) ((fst ?m)\<lparr> n_keep := fst (snd ?m) \<rparr>)" by (rule recuts_fields) simp_all
  ultimately show ?thesis unfolding begun_def using recuts_trans begin_recuts by blast
qed

lemma cuts_stages:
  obtains n1 n2 where "n_authors n1 = end_authors (gs_cut (gr_state g)) (n_authors (begun g ap ending n))"
    "n_ids n1 = n_ids (begun g ap ending n)" "n_records n1 = n_records (begun g ap ending n)"
    "n2 = foldl (\<lambda>n k. unstore_at k n) n1 (dropped (gs_cut (gr_state g)) (n_authors (begun g ap ending n)))"
    "cuts g ap ending n = n2 \<or> (\<exists>key joined ss. cuts g ap ending n = foldl (\<lambda>n s. forget_plaintext key joined s n) n2 ss)"
proof -
  let ?b = "begun g ap ending n" and ?state = "gs_cut (gr_state g)"
  let ?n1 = "?b\<lparr> n_authors := end_authors ?state (n_authors ?b), n_leaves := filter (\<lambda>l. in_state ?state (fst l) (fst (snd l))) (n_leaves ?b) \<rparr>"
  let ?n2 = "foldl (\<lambda>n k. unstore_at k n) ?n1 (dropped ?state (n_authors ?b))"
  obtain m keep own where m: "move_cuts (own_joined g ap (n_me n)) ending (ap_cut ap) n = (m, keep, own)" using prod_cases3 by blast
  show ?thesis
  proof (rule that)
    show "cuts g ap ending n = ?n2 \<or> (\<exists>key joined ss. cuts g ap ending n = foldl (\<lambda>n s. forget_plaintext key joined s n) ?n2 ss)"
      using m by (auto simp: cuts_def begun_def Let_def split: option.split)
  qed simp_all
qed


definition gone_group :: core_group where
  "gone_group = \<lparr> gr_mls = toy_mls, gr_state = default_state\<lparr> gs_cut := [cut_start [2] 0] \<rparr> \<rparr>"

definition gone_applied :: applied where
  "gone_applied = \<lparr> ap_by = 0, ap_own = False, ap_added = [], ap_removed = [], ap_gone = False, ap_updated = False, ap_cut = [cut_start [1] 0], ap_admission = None \<rparr>"

definition gone_crypto :: crypto where
  "gone_crypto = toy_crypto\<lparr> sha256 := (\<lambda>_. [9]) \<rparr>"

definition gone_codec :: codec where
  "gone_codec = toy_codec\<lparr> header_from := (\<lambda>_. Some (hr_header (one_record 1))) \<rparr>"

lemma gone_node_ok: "node_ok gone_crypto gone_codec {[]} (one_node 1)"
proof -
  have "stored_ok gone_crypto gone_codec {[]} (one_node 1)"
    by (auto simp: stored_ok_def one_node_def one_record_def seq_of_header_def held_id_def gone_crypto_def gone_codec_def split: if_splits)
  moreover have "sealed_stored (one_node 1)" by (simp add: sealed_stored_def one_node_def one_author_def author_new_def bt_get_def)
  ultimately show ?thesis using one_node_ok [of 1] by (simp add: node_ok_def)
qed

lemma gone_begun:
  obtains a where "a \<in> set (n_authors (begun gone_group gone_applied 3 (one_node 1)))" "keyof a = ([1], 0)" "a_cut a = 0" "a_held a = [(1, 1)]" "a_delivered a = []" "\<not> a_ended a"
proof -
  have "\<exists>a b. n_authors (begun gone_group gone_applied 3 (one_node 1)) = [a, b] \<and> keyof a = ([1], 0) \<and> a_cut a = 0 \<and> a_held a = [(1, 1)] \<and> a_delivered a = [] \<and> \<not> a_ended a"
    by (simp add: begun_def gone_group_def gone_applied_def move_cuts_def move_cut_def own_joined_def group_joined_def find_cut_def cut_start_def with_new_author_def
      author_at_def one_node_def one_author_def author_new_def with_author_def cut_author_def keyof_def Let_def bt_retain_def before_joining_def raise_baseline_def)
  then obtain a b where "n_authors (begun gone_group gone_applied 3 (one_node 1)) = [a, b]" "keyof a = ([1], 0)" "a_cut a = 0" "a_held a = [(1, 1)]" "a_delivered a = []" "\<not> a_ended a"
    by blast
  then show ?thesis using that [of a] by simp
qed


section \<open>What is lost\<close>

definition lost_with :: "seqs list \<Rightarrow> author \<Rightarrow> author" where
  "lost_with ls a = a\<lparr> a_lost := foldl union_of (a_lost a) (map sq_seqs (filter (\<lambda>l. (sq_key l, sq_joined l) = keyof a) ls)) \<rparr>"

lemma lost_with_simps [simp]: "keyof (lost_with ls a) = keyof a" "a_held (lost_with ls a) = a_held a" "a_key (lost_with ls a) = a_key a" "a_joined (lost_with ls a) = a_joined a"
  by (simp_all add: lost_with_def keyof_def)

lemma lose_each_all:
  assumes "\<forall>l\<in>set ls. author_at (n_authors n) (sq_key l) (sq_joined l) \<noteq> None"
  shows "\<exists>n'. lose_each ls n = Inr n' \<and> n_keep n' = n_keep n \<and> n_lost n' = n_lost n \<and> n_events n' = n_events n \<and>
    (\<forall>k j. author_at (n_authors n') k j = map_option (lost_with ls) (author_at (n_authors n) k j))"
  using assms
proof (induction ls arbitrary: n)
  case Nil
  have "lost_with [] = id" by (simp add: lost_with_def fun_eq_iff)
  then show ?case by (simp add: id_def option.map_ident)
next
  case (Cons l ls)
  let ?f = "\<lambda>a. a\<lparr> a_lost := union_of (a_lost a) (sq_seqs l) \<rparr>"
  let ?n = "with_author (sq_key l) (sq_joined l) ?f n"
  have at: "author_at (n_authors ?n) k j = map_option (\<lambda>a. if k = sq_key l \<and> j = sq_joined l then ?f a else a) (author_at (n_authors n) k j)" for k j
    using authors.get_modify [of ?f "(sq_key l, sq_joined l)" "n_authors n" "(k, j)"] by (auto simp: with_author_def keyof_def option.map_ident)
  have one: "lose_one l n = Inr ?n" using Cons.prems by (auto simp: lose_one_def)
  have "\<forall>l\<in>set ls. author_at (n_authors ?n) (sq_key l) (sq_joined l) \<noteq> None" using Cons.prems at by auto
  then obtain n' where n': "lose_each ls ?n = Inr n'" "n_keep n' = n_keep n" "n_lost n' = n_lost n" "n_events n' = n_events n"
    "\<forall>k j. author_at (n_authors n') k j = map_option (lost_with ls) (author_at (n_authors ?n) k j)"
    using Cons.IH by (fastforce simp: with_author_def)
  have "author_at (n_authors n') k j = map_option (lost_with (l # ls)) (author_at (n_authors n) k j)" for k j
  proof (cases "author_at (n_authors n) k j")
    case (Some a)
    then have "keyof a = (k, j)" using author_at_Some by blast
    then show ?thesis using n'(5) at [of k j] Some by (auto simp: lost_with_def keyof_def)
  qed (use n'(5) at in simp)
  then show ?case using one n' by simp
qed

lemma foldl_union: "wf_ranges rs \<Longrightarrow> \<forall>x\<in>set xs. wf_ranges x \<Longrightarrow> wf_ranges (foldl union_of rs xs) \<and> range_set (foldl union_of rs xs) = range_set rs \<union> (\<Union>x\<in>set xs. range_set x)"
  by (induction xs arbitrary: rs) auto

lemma lacking_in:
  "l \<in> set (lacking n) \<longleftrightarrow> (\<exists>kept\<in>set (n_keep n). \<exists>a. author_at (n_authors n) (sq_key kept) (sq_joined kept) = Some a \<and>
     seqs_of a (difference (difference (sq_seqs kept) (a_held a)) (a_lost a)) = Some l)"
  by (force simp: lacking_def List.map_filter_def split: option.splits)

definition keep_ok :: "node \<Rightarrow> bool" where
  "keep_ok n \<longleftrightarrow> wf_node n \<and> (\<forall>kept\<in>set (n_keep n). wf_ranges (sq_seqs kept))"


lemma two_left: "\<not> is_empty (difference (difference [(1, 3 :: u64)] [(1, 1)]) [])"
proof -
  have wf: "wf_ranges [(1, 3 :: u64)]" "wf_ranges [(1, 1 :: u64)]" "wf_ranges []" by (simp_all add: wf_ranges_def)
  have "range_set (difference (difference [(1, 3 :: u64)] [(1, 1)]) []) = range_set [(1, 3)] - range_set [(1, 1)] - range_set []"
    using range_set_difference [OF wf_difference [OF wf(1,2)] wf(3)] range_set_difference [OF wf(1,2)] by metis
  moreover have "2 \<in> range_set [(1, 3 :: u64)] - range_set [(1, 1)] - range_set []" by simp
  ultimately have "2 \<in> range_set (difference (difference [(1, 3 :: u64)] [(1, 1)]) [])" by metis
  then show ?thesis by (auto simp: is_empty_def)
qed


end
