(* ===== verification/Reading_Spec.thy ===== *)
theory Reading_Spec
  imports Reading Cuts_Spec Peers_Poll
begin

text \<open>
  What reading a group's logs keeps: one entry at a time, strictly in order, each passed over or, once, a commit
  applied; that it ends; and when a commit waits and how long.
\<close>

section \<open>Fields that a step leaves\<close>

definition same_logs :: "reader \<Rightarrow> reader \<Rightarrow> bool" where
  "same_logs rd rd' \<longleftrightarrow> rd_logs rd' = rd_logs rd \<and> rd_follow rd' = rd_follow rd"

named_theorems keeps_logs

lemma same_logs_refl [simp, keeps_logs]: "same_logs rd rd"
  by (simp add: same_logs_def)

lemma same_logs_trans [trans]: "same_logs rd rd1 \<Longrightarrow> same_logs rd1 rd2 \<Longrightarrow> same_logs rd rd2"
  by (simp add: same_logs_def)

lemma same_logs_node [simp]: "same_logs rd (on_node f rd)"
  by (simp add: same_logs_def on_node_def)

lemma opened_all_logs: "opened_all E now epoch rd = Inr rd' \<Longrightarrow> same_logs rd rd'"
  by (auto simp: opened_all_def same_logs_def rbind_Inr_iff)

lemma own_of_logs: "own_of E now rd = Inr (own, rd') \<Longrightarrow> same_logs rd rd'"
  by (auto simp: own_of_def same_logs_def on_node_def rbind_Inr_iff Let_def split: prod.splits)

lemma refresh_logs:
  assumes "refresh_peers E now rd = Inr rd'"
  shows "same_logs rd rd'"
proof -
  obtain own rd1 where 1: "own_of E now rd = Inr (own, rd1)"
    "rd' = rd1\<lparr> rd_inbox := (rd_inbox rd1)\<lparr> ib_peers := set_group (ib_peers (rd_inbox rd1)) (n_gid (rd_node rd1)) own now \<rparr> \<rparr>"
    using assms by (auto simp: refresh_peers_def rbind_Inr_iff)
  show ?thesis using own_of_logs [OF 1(1)] 1(2) by (simp add: same_logs_def)
qed

lemma introduce_logs: "introduce E now says rd = Inr rd' \<Longrightarrow> same_logs rd rd'"
  by (auto simp: introduce_def keep_intro_def same_logs_def rbind_Inr_iff Let_def split: option.splits)

lemma present_logs:
  assumes "present E now rd = Inr rd'"
  shows "same_logs rd rd'"
proof -
  let ?rd = "rd\<lparr> rd_present := ml_epoch (gr_mls (rd_core rd)) \<rparr>"
  have "rd' = ?rd \<or> (\<exists>says. introduce E now says ?rd = Inr rd')"
    using assms by (auto simp: present_def rbind_Inr_iff Let_def split: option.splits if_splits)
  then have "same_logs ?rd rd'" using introduce_logs by auto
  then show ?thesis by (simp add: same_logs_def)
qed

lemma unhear_all_logs: "unhear_all E ks rd = Inr rd' \<Longrightarrow> same_logs rd rd'"
proof (induction ks arbitrary: rd)
  case (Cons k ks)
  then obtain rd1 where "unhear E k rd = Inr rd1" "same_logs rd1 rd'" by (auto simp: rbind_Inr_iff)
  then show ?case by (auto simp: unhear_def same_logs_def rbind_Inr_iff)
qed simp

lemma tell_removed_logs: "tell_removed E removed rd = Some rd' \<Longrightarrow> same_logs rd rd'"
  by (auto simp: tell_removed_def same_logs_def Let_def bind_eq_Some_conv)

lemma take_early_logs: "take_early E now es rd = Some (Inr rd') \<Longrightarrow> same_logs rd rd'"
proof (induction es arbitrary: rd)
  case (Cons e es)
  then show ?case
    by (auto split: option.splits sum.splits prod.splits dest!: Cons.IH simp: same_logs_def)
qed simp

lemma note_applied_logs: "same_logs rd (note_applied E now ending time inner ap g rd)"
  by (auto simp: note_applied_def same_logs_def Let_def split: option.split)

lemma move_on_logs: "same_logs rd (move_on E ap ended rd)"
  by (simp add: move_on_def same_logs_def on_node_def split: prod.split)

lemma merge_commit_logs:
  assumes "merge_commit E now wire removes time rd = Inr (ap, ended, rd')"
  shows "same_logs rd rd'"
proof -
  let ?e = "if removes then opened_all E now (ml_epoch (gr_mls (rd_core rd))) rd else Inr rd"
  obtain rd1 n inner g where 1: "?e = Inr rd1" "rd' = note_applied E now (ml_epoch (gr_mls (rd_core rd))) time inner ap g (on_node (\<lambda>_. n) rd1)"
    using assms unfolding merge_commit_def by (auto simp: rbind_Inr_iff Let_def)
  have "same_logs rd rd1" using 1(1) opened_all_logs by (auto split: if_splits)
  also have "same_logs rd1 (on_node (\<lambda>_. n) rd1)" by simp
  also have "same_logs (on_node (\<lambda>_. n) rd1) rd'" unfolding 1(2) by (rule note_applied_logs)
  finally show ?thesis .
qed

section \<open>When a commit waits\<close>

definition wait_read :: "nat \<Rightarrow> nat \<Rightarrow> reader \<Rightarrow> nat" where
  "wait_read now time rd = (case rd_reading rd of Some read \<Rightarrow> if time < read then read else now | None \<Rightarrow> now)"

definition wait_from :: "nat \<Rightarrow> nat \<Rightarrow> reader \<Rightarrow> reader" where
  "wait_from now time rd = on_node (\<lambda>n. n\<lparr> n_waiting := True \<rparr>) (rd\<lparr> rd_reading := Some (wait_read now time rd) \<rparr>)"

lemma cleared_eq:
  "cleared E now true_now time rd =
     rbind (opened_all E now (ml_epoch (gr_mls (rd_core rd)) - 1) (wait_from now time rd)) (\<lambda>rd1.
     rbind (refresh_peers E now rd1) (\<lambda>rd2.
     rbind (map_error OfGroup (group_settings (en_codec E) (rd_core rd2))) (\<lambda>s.
     rbind (context_of (wait (ib_peers (rd_inbox rd2)) (n_gid (rd_node rd2))
       (if true_now \<le> (time + days_ms (s_carry s)) mod 2 ^ 64 then lacking (rd_node rd2) else []) (wait_read now time rd) now) NotMeshed) (\<lambda>(waiting, peers).
       Inr (\<not> waiting, on_node (\<lambda>n. n\<lparr> n_waiting := waiting \<rparr>) (rd2\<lparr> rd_inbox := (rd_inbox rd2)\<lparr> ib_peers := peers \<rparr> \<rparr>))))))"
proof -
  have core: "rd_core (wait_from now time rd) = rd_core rd" by (simp add: wait_from_def on_node_def)
  show ?thesis unfolding cleared_def Let_def wait_read_def [symmetric] wait_from_def [symmetric] core ..
qed

lemma cleared_steps:
  assumes "cleared E now true_now time rd = Inr (b, rd')"
  obtains rd1 rd2 s peers where
    "opened_all E now (ml_epoch (gr_mls (rd_core rd)) - 1) (wait_from now time rd) = Inr rd1" "refresh_peers E now rd1 = Inr rd2"
    "group_settings (en_codec E) (rd_core rd2) = Inr s"
    "wait (ib_peers (rd_inbox rd2)) (n_gid (rd_node rd2))
       (if true_now \<le> (time + days_ms (s_carry s)) mod 2 ^ 64 then lacking (rd_node rd2) else []) (wait_read now time rd) now = Some (\<not> b, peers)"
    "rd' = on_node (\<lambda>n. n\<lparr> n_waiting := \<not> b \<rparr>) (rd2\<lparr> rd_inbox := (rd_inbox rd2)\<lparr> ib_peers := peers \<rparr> \<rparr>)"
proof -
  note assms [unfolded cleared_eq]
  then obtain rd1 rd2 s z where o:
    "opened_all E now (ml_epoch (gr_mls (rd_core rd)) - 1) (wait_from now time rd) = Inr rd1" "refresh_peers E now rd1 = Inr rd2"
    "group_settings (en_codec E) (rd_core rd2) = Inr s"
    "wait (ib_peers (rd_inbox rd2)) (n_gid (rd_node rd2))
       (if true_now \<le> (time + days_ms (s_carry s)) mod 2 ^ 64 then lacking (rd_node rd2) else []) (wait_read now time rd) now = Some z"
    "(case z of (w, peers) \<Rightarrow> Inr (\<not> w, on_node (\<lambda>n. n\<lparr> n_waiting := w \<rparr>) (rd2\<lparr> rd_inbox := (rd_inbox rd2)\<lparr> ib_peers := peers \<rparr> \<rparr>))) =
       (Inr (b, rd') :: read_error + bool \<times> reader)"
    unfolding rbind_Inr_iff map_error_Inr_iff context_of_Inr_iff by blast
  obtain w peers where z: "z = (w, peers)" by fastforce
  then have "w = (\<not> b)" "rd' = on_node (\<lambda>n. n\<lparr> n_waiting := \<not> b \<rparr>) (rd2\<lparr> rd_inbox := (rd_inbox rd2)\<lparr> ib_peers := peers \<rparr> \<rparr>)"
    using o(5) by auto
  then show ?thesis using that [OF o(1-3)] o(4) z by simp
qed

lemma cleared_logs:
  assumes "cleared E now true_now time rd = Inr (b, rd')"
  shows "same_logs rd rd'"
proof -
  from assms obtain rd1 rd2 s peers where 1: "opened_all E now (ml_epoch (gr_mls (rd_core rd)) - 1) (wait_from now time rd) = Inr rd1"
    "refresh_peers E now rd1 = Inr rd2" "rd' = on_node (\<lambda>n. n\<lparr> n_waiting := \<not> b \<rparr>) (rd2\<lparr> rd_inbox := (rd_inbox rd2)\<lparr> ib_peers := peers \<rparr> \<rparr>)"
    by (rule cleared_steps)
  have "same_logs rd (wait_from now time rd)" by (simp add: wait_from_def same_logs_def on_node_def)
  also have "same_logs (wait_from now time rd) rd1" using opened_all_logs [OF 1(1)] .
  also have "same_logs rd1 rd2" using refresh_logs [OF 1(2)] .
  also have "same_logs rd2 rd'" by (simp add: 1(3) same_logs_def on_node_def)
  finally show ?thesis .
qed

lemma set_group_online [simp]: "p_online (set_group p gid own now) = p_online p"
  by (simp add: set_group_def Let_def push_group_def get_or_insert_def split: option.split prod.split)

lemma open_one_peers: "open_one C S A D now c ib = Inr (x, ib') \<Longrightarrow> ib_peers ib' = ib_peers ib"
  by (auto simp: open_one_def rbind_Inr_iff Let_def split: prod.splits sum.splits group_error.splits)

lemma open_claims_peers: "open_claims C S A D now us ib = Inr ib' \<Longrightarrow> ib_peers ib' = ib_peers ib"
  by (induction us arbitrary: ib) (auto simp: rbind_Inr_iff Let_def split: option.splits dest!: open_one_peers)

lemma opened_all_peers: "opened_all E now epoch rd = Inr rd' \<Longrightarrow> ib_peers (rd_inbox rd') = ib_peers (rd_inbox rd) \<and> rd_reading rd' = rd_reading rd"
  by (auto simp: opened_all_def open_all_def rbind_Inr_iff dest!: open_claims_peers)

lemma refresh_online:
  assumes "refresh_peers E now rd = Inr rd'"
  shows "p_online (ib_peers (rd_inbox rd')) = p_online (ib_peers (rd_inbox rd)) \<and> rd_reading rd' = rd_reading rd"
proof -
  obtain own rd1 where 1: "own_of E now rd = Inr (own, rd1)"
    "rd' = rd1\<lparr> rd_inbox := (rd_inbox rd1)\<lparr> ib_peers := set_group (ib_peers (rd_inbox rd1)) (n_gid (rd_node rd1)) own now \<rparr> \<rparr>"
    using assms by (auto simp: refresh_peers_def rbind_Inr_iff)
  have "ib_peers (rd_inbox rd1) = ib_peers (rd_inbox rd) \<and> rd_reading rd1 = rd_reading rd"
    using 1(1) by (auto simp: own_of_def on_node_def rbind_Inr_iff Let_def split: prod.splits)
  then show ?thesis by (simp add: 1(2))
qed

text \<open>
  C7. A commit waits only while this session lacks messages the last commit kept, which its members still carry, and
  never longer than two minutes past the later of when reading began this wait and when it came online. The commits
  made before a wait began share it: the first of them sets when it began, and none of them moves that on. Waiting
  reads no entry and takes no log.
\<close>

theorem backlog_shares_one_wait:
  assumes "cleared E now true_now time rd = Inr (False, rd')"
  shows "lacking (rd_node rd') \<noteq> [] \<and> n_waiting (rd_node rd') \<and> rd_logs rd' = rd_logs rd \<and> rd_follow rd' = rd_follow rd \<and>
    (\<exists>s. group_settings (en_codec E) (rd_core rd') = Inr s \<and> true_now \<le> (time + 86400000 * s_carry s) mod 2 ^ 64) \<and>
    (\<exists>read. rd_reading rd' = Some read \<and> now < max read (p_online (ib_peers (rd_inbox rd))) + 120000 \<and>
      (if \<exists>since. rd_reading rd = Some since \<and> time < since then rd_reading rd = Some read else read = now))"
proof -
  from assms obtain rd1 rd2 s peers where 1: "opened_all E now (ml_epoch (gr_mls (rd_core rd)) - 1) (wait_from now time rd) = Inr rd1"
    "refresh_peers E now rd1 = Inr rd2" "group_settings (en_codec E) (rd_core rd2) = Inr s"
    "wait (ib_peers (rd_inbox rd2)) (n_gid (rd_node rd2))
       (if true_now \<le> (time + days_ms (s_carry s)) mod 2 ^ 64 then lacking (rd_node rd2) else []) (wait_read now time rd) now = Some (\<not> False, peers)"
    "rd' = on_node (\<lambda>n. n\<lparr> n_waiting := \<not> False \<rparr>) (rd2\<lparr> rd_inbox := (rd_inbox rd2)\<lparr> ib_peers := peers \<rparr> \<rparr>)"
    by (rule cleared_steps)
  let ?lack = "if true_now \<le> (time + days_ms (s_carry s)) mod 2 ^ 64 then lacking (rd_node rd2) else []"
  have w: "to_set ?lack \<noteq> [] \<and> now < max (wait_read now time rd) (p_online (ib_peers (rd_inbox rd2))) + WAIT"
    using 1(4) by (auto simp: wait_def Let_def split: option.splits)
  then have lack: "true_now \<le> (time + days_ms (s_carry s)) mod 2 ^ 64" "lacking (rd_node rd2) \<noteq> []"
    by (auto simp: to_set_def split: if_splits)
  have online: "p_online (ib_peers (rd_inbox rd2)) = p_online (ib_peers (rd_inbox rd))" "rd_reading rd2 = Some (wait_read now time rd)"
    using refresh_online [OF 1(2)] opened_all_peers [OF 1(1)] by (simp_all add: wait_from_def on_node_def)
  have "lacking (rd_node rd') = lacking (rd_node rd2)" by (simp add: 1(5) lacking_def on_node_def)
  moreover have "same_logs rd rd'" by (rule cleared_logs [OF assms])
  ultimately show ?thesis using w lack 1(3) online
    by (auto simp: 1(5) on_node_def same_logs_def days_ms_def WAIT_def wait_read_def split: option.splits if_splits)
qed

section \<open>A group that reads\<close>

definition toy_env :: session_env where
  "toy_env = \<lparr> en_crypto = toy_crypto, en_codec = told_codec, en_api = told_api, en_control = (\<lambda>_. None), en_secret = [2],
     en_intro_to = (\<lambda>_. []), en_intro_from = (\<lambda>_. None) \<rparr>"

definition toy_kept :: seqs where
  "toy_kept = \<lparr> sq_key = [1], sq_joined = 0, sq_seqs = [(1, 1)] \<rparr>"

definition toy_head :: head where
  "toy_head = \<lparr> h_log_ref = [9], h_length = 1, h_hash = [], h_time = 0, h_sig = [] \<rparr>"

text \<open>One entry is held past what the group read: it is no entry.\<close>

definition toy_logs :: logs where
  "toy_logs = \<lparr> ls_logs = [([9], (log_new (replicate 16 7) (Serve (replicate 32 5) [] []) 0)\<lparr> lg_head := Some toy_head \<rparr>)],
     ls_entries = (\<lambda>k. if k = ([9], 1) then Some ([], []) else None), ls_reported = [] \<rparr>"

definition toy_reader :: reader where
  "toy_reader = \<lparr> rd_inbox = told_inbox\<lparr> ib_node := told_node\<lparr> n_keep := [toy_kept] \<rparr> \<rparr>, rd_logs = toy_logs,
     rd_follow = \<lparr> fw_log = [9], fw_base = 0, fw_position = 0 \<rparr>, rd_reading = None, rd_fetch = None, rd_since = 0, rd_epochs = [],
     rd_committed = 0, rd_updated = 0, rd_present = 0, rd_passed = 0, rd_commits = [], rd_admitted = (\<lambda>_. None), rd_intros = [],
     rd_heard = [], rd_saved = (\<lambda>_. None), rd_out = [], rd_work = [], rd_gate = False, rd_scrub = False \<rparr>"

lemma toy_fields: "n_unopened (rd_node toy_reader) = []" "n_fresh (rd_node toy_reader) = []" "rd_intros toy_reader = []" "rd_reading toy_reader = None"
  "rd_core toy_reader = told_group" "n_gid (rd_node toy_reader) = replicate 16 7" "rd_logs toy_reader = toy_logs" "fw_log (rd_follow toy_reader) = [9]"
  "n_keep (rd_node toy_reader) = [toy_kept]" "n_authors (rd_node toy_reader) = [author_new [1] 0 0]" "ib_peers (rd_inbox toy_reader) = ib_peers told_inbox"
  by (simp_all add: toy_reader_def told_inbox_def told_node_def one_node_def)

lemma toy_lacking: "lacking (rd_node toy_reader) = [toy_kept]"
  by (simp add: lacking_def toy_fields) code_simp

lemma toy_own: "\<exists>own. own_of toy_env 5 (wait_from 5 6 toy_reader) = Inr (own, wait_from 5 6 toy_reader)"
  by (simp add: own_of_def wait_from_def on_node_def toy_fields wanted_now_def Let_def group_logs_def toy_logs_def get_log_def bt_get_def toy_env_def)

lemma toy_waits: "\<exists>rd. cleared toy_env 5 7 6 toy_reader = Inr (False, rd)"
proof -
  obtain own where own: "own_of toy_env 5 (wait_from 5 6 toy_reader) = Inr (own, wait_from 5 6 toy_reader)" using toy_own by blast
  have opened: "opened_all toy_env 5 e (wait_from 5 6 toy_reader) = Inr (wait_from 5 6 toy_reader)" for e
    by (simp add: opened_all_def open_all_def wait_from_def on_node_def toy_fields)
  let ?rd = "(wait_from 5 6 toy_reader)\<lparr> rd_inbox := (rd_inbox (wait_from 5 6 toy_reader))\<lparr> ib_peers :=
    set_group (ib_peers (rd_inbox (wait_from 5 6 toy_reader))) (n_gid (rd_node (wait_from 5 6 toy_reader))) own 5 \<rparr> \<rparr>"
  have refresh: "refresh_peers toy_env 5 (wait_from 5 6 toy_reader) = Inr ?rd" using own by (simp add: refresh_peers_def)
  have "\<exists>s. group_settings (en_codec toy_env) (rd_core ?rd) = Inr s \<and> s_carry s = 30"
    by (simp add: wait_from_def on_node_def toy_fields group_settings_def settings_of_def told_group_def toy_mls_def toy_env_def told_codec_def toy_codec_def)
  then obtain s where s: "group_settings (en_codec toy_env) (rd_core ?rd) = Inr s" "s_carry s = 30" by blast
  have "\<exists>g. bt_get (p_groups (set_group p gid own 5)) gid = Some g" for p gid
    by (simp add: set_group_def Let_def push_group_def get_or_insert_def bt_get_insert split: option.split)
  then obtain g where g: "bt_get (p_groups (ib_peers (rd_inbox ?rd))) (n_gid (rd_node ?rd)) = Some g" by (auto simp: wait_from_def on_node_def)
  have "to_set [toy_kept] \<noteq> []" by code_simp
  then have "\<exists>p. wait (ib_peers (rd_inbox ?rd)) (n_gid (rd_node ?rd)) [toy_kept] 5 5 = Some (True, p)"
    using g by (auto simp: wait_def Let_def WAIT_def HEAR_def)
  moreover have "lacking (rd_node ?rd) = [toy_kept]" using toy_lacking by (simp add: wait_from_def on_node_def lacking_def)
  moreover have "wait_read 5 6 toy_reader = 5" by (simp add: wait_read_def toy_fields)
  ultimately show ?thesis using opened refresh s unfolding cleared_eq by (auto simp: days_ms_def)
qed

theorem backlog_shares_one_wait_witness:
  "\<exists>rd. cleared toy_env 5 7 6 toy_reader = Inr (False, rd) \<and> lacking (rd_node rd) \<noteq> [] \<and> rd_reading rd = Some 5"
proof -
  obtain rd where rd: "cleared toy_env 5 7 6 toy_reader = Inr (False, rd)" using toy_waits by blast
  show ?thesis using rd backlog_shares_one_wait [OF rd] by (auto simp: toy_fields)
qed

section \<open>Reading in order\<close>

definition read_to :: "reader \<Rightarrow> u64 \<Rightarrow> bool" where
  "read_to rd position \<longleftrightarrow> held_to (rd_logs rd) (rd_follow rd) = Inr position \<and> fw_position (rd_follow rd) = position"

lemma next_log_empty:
  "next_log C S now m base st fw = Inr (ident, st', fw') \<Longrightarrow> held_to st' fw' = Inr base \<and> fw_position fw' = fw_position fw"
  by (auto simp: next_log_def held_to_def get_log_def add_log_def log_length_def log_new_def rbind_Inr_iff Let_def)

lemma begin_epoch_logs:
  assumes "begin_epoch E now true_now position rd = Some (Inr rd')"
  shows "held_to (rd_logs rd') (rd_follow rd') = Inr position \<and> fw_position (rd_follow rd') = fw_position (rd_follow rd)"
proof -
  let ?e = "rbind (map_error OfLog (next_log (en_crypto E) (en_codec E) (word_of_nat true_now) (gr_mls (rd_core rd)) position (rd_logs rd) (rd_follow rd)))
    (\<lambda>(_, st, fw). refresh_peers E now (rd\<lparr> rd_logs := st, rd_follow := fw \<rparr>))"
  obtain rd1 where 1: "?e = Inr rd1" using assms by (auto simp: begin_epoch_def split: sum.splits)
  then obtain ident st fw where 2: "next_log (en_crypto E) (en_codec E) (word_of_nat true_now) (gr_mls (rd_core rd)) position (rd_logs rd) (rd_follow rd) = Inr (ident, st, fw)"
    "refresh_peers E now (rd\<lparr> rd_logs := st, rd_follow := fw \<rparr>) = Inr rd1" by (auto simp: rbind_Inr_iff)
  obtain es f where "take_early E now es (on_node f rd1) = Some (Inr rd')" using assms 1 by (auto simp: begin_epoch_def Let_def)
  then have "same_logs (rd\<lparr> rd_logs := st, rd_follow := fw \<rparr>) rd'"
    using take_early_logs refresh_logs [OF 2(2)] by (fastforce simp: same_logs_def on_node_def)
  then show ?thesis using next_log_empty [OF 2(1)] by (simp add: same_logs_def)
qed

lemma apply_at_logs:
  assumes "apply_at E now true_now position wire removes time rd = Some (Inr (b, rd'))"
  shows "(b \<longrightarrow> read_to rd' position) \<and>
    (\<not> b \<longrightarrow> rd_logs rd' = rd_logs rd \<and> (rd_follow rd' = rd_follow rd \<or> rd_follow rd' = (rd_follow rd)\<lparr> fw_position := position \<rparr>))"
proof -
  obtain c rd1 where c: "cleared E now true_now time rd = Inr (c, rd1)" using assms by (auto simp: apply_at_def split: sum.splits)
  have s1: "same_logs rd rd1" by (rule cleared_logs [OF c])
  show ?thesis
  proof (cases c)
    case False
    then have "\<not> b \<and> rd' = rd1" using assms c by (simp add: apply_at_def)
    then show ?thesis using s1 by (simp add: same_logs_def)
  next
    case True
    let ?m = "rbind (merge_commit E now wire removes time rd1) (\<lambda>(ap, ended, rd). let rd = move_on E ap ended rd
      in rbind (if ap_own ap then present E now rd else Inr rd) (\<lambda>rd.
         rbind (unhear_all E (map cm_key (ap_removed ap)) (rd\<lparr> rd_scrub := True, rd_gate := True \<rparr>)) (\<lambda>rd. Inr (ap, rd))))"
    obtain ap rd2 where m: "?m = Inr (ap, rd2)" using assms c True by (auto simp: apply_at_def Let_def split: sum.splits)
    then obtain ended rd3 rd4 where 3: "merge_commit E now wire removes time rd1 = Inr (ap, ended, rd3)"
      "(if ap_own ap then present E now (move_on E ap ended rd3) else Inr (move_on E ap ended rd3)) = Inr rd4"
      "unhear_all E (map cm_key (ap_removed ap)) (rd4\<lparr> rd_scrub := True, rd_gate := True \<rparr>) = Inr rd2"
      by (auto simp: rbind_Inr_iff Let_def)
    have "same_logs rd1 rd3" by (rule merge_commit_logs [OF 3(1)])
    also have "same_logs rd3 (move_on E ap ended rd3)" by (rule move_on_logs)
    also have "same_logs (move_on E ap ended rd3) rd4" using 3(2) present_logs by (auto split: if_splits)
    also have "same_logs rd4 rd2" using unhear_all_logs [OF 3(3)] by (simp add: same_logs_def)
    finally have s2: "same_logs rd1 rd2" .
    obtain rd5 where t: "tell_removed E (ap_removed ap) rd2 = Some rd5" using assms c True m by (auto simp: apply_at_def Let_def bind_eq_Some_conv)
    have s5: "same_logs rd rd5" using s1 s2 tell_removed_logs [OF t] by (simp add: same_logs_def)
    let ?rd = "rd5\<lparr> rd_work := rd_work rd5 @ [AppliedWork (List.find (\<lambda>m. cm_index m = ap_by ap) (members_of (en_codec E) (gr_mls (rd_core rd5)))) (ap_added ap) (ap_removed ap) (ap_gone ap)],
      rd_follow := (rd_follow rd5)\<lparr> fw_position := position \<rparr> \<rparr>"
    show ?thesis
    proof (cases "ap_gone ap")
      case True
      then have "\<not> b \<and> rd' = ?rd" using assms c \<open>c\<close> m t by (simp add: apply_at_def Let_def)
      then show ?thesis using s5 by (simp add: same_logs_def)
    next
      case False
      then have "b \<and> begin_epoch E now true_now position ?rd = Some (Inr rd')"
        using assms c \<open>c\<close> m t by (auto simp: apply_at_def Let_def split: option.splits sum.splits)
      then show ?thesis using begin_epoch_logs [of E now true_now position ?rd rd'] by (simp add: read_to_def)
    qed
  qed
qed

definition next_entry :: "reader \<Rightarrow> (u64 \<times> bytes) option" where
  "next_entry rd = (if \<not> ml_active (gr_mls (rd_core rd)) \<or> at_head (rd_logs rd) (rd_follow rd) then None
     else map_option (\<lambda>wire. (fw_position (rd_follow rd) + 1, wire)) (group_entry (rd_logs rd) (rd_follow rd) (fw_position (rd_follow rd) + 1)))"

definition judged :: "session_env \<Rightarrow> bytes \<Rightarrow> reader \<Rightarrow> (group_error + verdict) \<times> core_group" where
  "judged E wire rd = judge (en_crypto E) (en_codec E) (en_api E) wire (rd_core rd)"

definition with_core :: "core_group \<Rightarrow> reader \<Rightarrow> reader" where
  "with_core g rd = rd\<lparr> rd_inbox := (rd_inbox rd)\<lparr> ib_core := g \<rparr> \<rparr>"

definition read_past :: "u64 \<Rightarrow> reader \<Rightarrow> reader" where
  "read_past position rd = rd\<lparr> rd_follow := (rd_follow rd)\<lparr> fw_position := position \<rparr> \<rparr>"

text \<open>Passing over entries, one at a time: the abstract steps of reading.\<close>

inductive skips :: "session_env \<Rightarrow> reader \<Rightarrow> nat \<Rightarrow> reader \<Rightarrow> bool" for E where
  Stay: "skips E rd 0 rd"
| Skip: "next_entry rd = Some (position, wire) \<Longrightarrow> judged E wire rd = (Inr (SkippedVerdict why), g) \<Longrightarrow>
    skips E (read_past position (with_core g rd)) k rd' \<Longrightarrow> skips E rd (Suc k) rd'"

lemma skips_follow:
  "skips E rd k rd' \<Longrightarrow> rd_logs rd' = rd_logs rd \<and> rd_follow rd' = (rd_follow rd)\<lparr> fw_position := fw_position (rd_follow rd) + of_nat k \<rparr>"
proof (induction rule: skips.induct)
  case (Skip rd position wire why g k rd')
  then show ?case by (auto simp: read_past_def with_core_def next_entry_def split: if_splits)
qed simp

definition stops_at :: "session_env \<Rightarrow> nat \<Rightarrow> nat \<Rightarrow> reader \<Rightarrow> reader \<Rightarrow> bool" where
  "stops_at E now true_now rd rd' \<longleftrightarrow>
     rd' = rd \<and> (\<not> ml_active (gr_mls (rd_core rd)) \<or> at_head (rd_logs rd) (rd_follow rd)) \<or>
     (\<exists>position wire g. next_entry rd = Some (position, wire) \<and>
       (judged E wire rd = (Inr CopiedVerdict, g) \<and> rd' = (with_core g rd)\<lparr> rd_work := rd_work rd @ [CopiedWork] \<rparr> \<or>
        (\<exists>removes time b. judged E wire rd = (Inr (CommitVerdict removes time), g) \<and>
           apply_at E now true_now position wire removes time (with_core g rd) = Some (Inr (b, rd')) \<and> (b \<longrightarrow> read_to rd' position))))"

lemma next_entry_turn:
  assumes "ml_active (gr_mls (rd_core rd))" "held_to (rd_logs rd) (rd_follow rd) = Inr held" "fw_position (rd_follow rd) < held"
  shows "next_entry rd = map_option (\<lambda>wire. (fw_position (rd_follow rd) + 1, wire)) (group_entry (rd_logs rd) (rd_follow rd) (fw_position (rd_follow rd) + 1))"
  using assms by (auto simp: next_entry_def at_head_def)

lemma judge_at_judged:
  "judge_at E now true_now position wire rd =
     (case judged E wire rd of
        (Inl e, g) \<Rightarrow> Some (Inl (OfGroup e))
      | (Inr (SkippedVerdict why), g) \<Rightarrow> Some (Inr (True, read_past position (with_core g rd)))
      | (Inr CopiedVerdict, g) \<Rightarrow> Some (Inr (False, (with_core g rd)\<lparr> rd_work := rd_work rd @ [CopiedWork] \<rparr>))
      | (Inr (CommitVerdict removes time), g) \<Rightarrow> apply_at E now true_now position wire removes time (with_core g rd))"
  by (simp add: judge_at_def judged_def with_core_def read_past_def Let_def split: prod.split sum.split verdict.split)

lemma entries_ahead_less:
  assumes "held_to (rd_logs rd) (rd_follow rd) = Inr held" "fw_position (rd_follow rd) < held"
  shows "entries_ahead (read_past (fw_position (rd_follow rd) + 1) (with_core g rd)) < entries_ahead rd"
proof -
  let ?p = "fw_position (rd_follow rd)"
  have to: "held_to (rd_logs rd) ((rd_follow rd)\<lparr> fw_position := ?p + 1 \<rparr>) = Inr held" using assms(1) by (simp add: held_to_def)
  have less: "unat ?p < unat held" using assms(2) by (simp add: word_less_nat_alt)
  have "unat held < 2 ^ 64" using unsigned_less [of held] by simp
  then have suc: "unat (?p + 1) = Suc (unat ?p)" using less by (simp add: unat_plus_if')
  then have "?p + 1 \<le> held" using less by (simp add: word_le_nat_alt)
  then have "unat (held - (?p + 1)) = unat held - Suc (unat ?p)" using suc by (metis unat_sub)
  moreover have "unat (held - ?p) = unat held - unat ?p" using less by (intro unat_sub) (simp add: word_le_nat_alt)
  ultimately show ?thesis using assms(1) to less by (simp add: entries_ahead_def read_past_def with_core_def)
qed

lemma advance_loop_stops:
  "entries_ahead rd < fuel \<Longrightarrow> case advance_loop fuel E now true_now rd of
     None \<Rightarrow> \<exists>rd1 position wire. judge_at E now true_now position wire rd1 = None
   | Some (Inl _) \<Rightarrow> True
   | Some (Inr rd') \<Rightarrow> \<exists>k rd1. skips E rd k rd1 \<and> stops_at E now true_now rd1 rd'"
proof (induction fuel arbitrary: rd)
  case (Suc fuel)
  let ?p = "fw_position (rd_follow rd)"
  show ?case
  proof (cases "ml_active (gr_mls (rd_core rd)) \<and> (\<exists>held wire. held_to (rd_logs rd) (rd_follow rd) = Inr held \<and> ?p < held \<and>
      group_entry (rd_logs rd) (rd_follow rd) (?p + 1) = Some wire)")
    case False
    then show ?thesis by (auto simp: stops_at_def at_head_def split: sum.split option.split intro!: exI [of _ 0] skips.Stay)
  next
    case True
    then obtain held wire where t: "ml_active (gr_mls (rd_core rd))" "held_to (rd_logs rd) (rd_follow rd) = Inr held" "?p < held"
      "group_entry (rd_logs rd) (rd_follow rd) (?p + 1) = Some wire" by blast
    then have nxt: "next_entry rd = Some (?p + 1, wire)" using next_entry_turn by simp
    note loop = t judge_at_judged [of E now true_now "?p + 1" wire rd]
    obtain v g where j: "judged E wire rd = (v, g)" by fastforce
    show ?thesis
    proof (cases v)
      case (Inr vd)
      show ?thesis
      proof (cases vd)
        case (SkippedVerdict why)
        let ?rd = "read_past (?p + 1) (with_core g rd)"
        have "entries_ahead ?rd < fuel" using entries_ahead_less [OF t(2,3)] Suc.prems by (meson less_Suc_eq_le order_less_le_trans)
        from Suc.IH [OF this] show ?thesis using loop j Inr SkippedVerdict skips.Skip [OF nxt, of E why g]
          by (fastforce split: option.splits sum.splits)
      next
        case CopiedVerdict
        then show ?thesis using loop j Inr nxt skips.Stay by (fastforce simp: stops_at_def)
      next
        case (CommitVerdict removes time)
        let ?a = "apply_at E now true_now (?p + 1) wire removes time (with_core g rd)"
        have step: "judge_at E now true_now (?p + 1) wire rd = ?a" using loop(5) j Inr CommitVerdict by simp
        have stop: "stops_at E now true_now rd rd'" if "?a = Some (Inr (b, rd'))" for b rd'
          unfolding stops_at_def using that nxt j Inr CommitVerdict apply_at_logs [OF that] by blast
        show ?thesis
        proof (cases ?a)
          case None
          then show ?thesis using loop(1-4) step by auto
        next
          case (Some r)
          show ?thesis
          proof (cases r)
            case (Inr x)
            obtain b rd' where x: "x = (b, rd')" by fastforce
            have "advance_loop fuel E now true_now rd' = Some (Inr rd')" if b
            proof -
              have "read_to rd' (?p + 1)" using apply_at_logs [of E now true_now "?p + 1" wire removes time "with_core g rd" b rd'] Some Inr x that by simp
              moreover obtain f where "fuel = Suc f" using Suc.prems entries_ahead_less [OF t(2,3)] by (cases fuel) auto
              ultimately show ?thesis by (simp add: read_to_def)
            qed
            then have "advance_loop (Suc fuel) E now true_now rd = Some (Inr rd')" using loop(1-4) step Some Inr x by (cases b) auto
            then show ?thesis using stop [of b rd'] Some Inr x skips.Stay by auto
          qed (use loop(1-4) step Some in auto)
        qed
      qed
    qed (use loop j in simp)
  qed
qed simp


end
